(* ===== verification/C_Prelude.thy ===== *)
theory C_Prelude
  imports "HOL-Library.Word" "HOL-Library.Signed_Division" "HOL-Library.Monad_Syntax"
begin

text \<open>
  Shared vocabulary of the development: names for the C integer types, the fact
  collections the component theories fill, and the lemmas on machine words (single bits,
  casts between widths, truncating division) that more than one component uses.

  C integers of width \<open>w\<close> are \<open>w word\<close>.  The signed and the unsigned type of one
  width share the representation: a cast between them is the identity, a signed
  comparison is \<open><s\<close>, \<open>sint\<close> reads the signed value.  A widening cast is
  \<open>scast\<close> from a signed and \<open>ucast\<close> from an unsigned operand, a narrowing
  cast is \<open>ucast\<close>.
\<close>

unbundle bit_operations_syntax

section \<open>C types and fact collections\<close>

type_synonym u8 = "8 word"
type_synonym u16 = "16 word"
type_synonym u32 = "32 word"
type_synonym u64 = "64 word"
type_synonym u128 = "128 word"

named_theorems c_consts \<open>the numeric constants of the headers\<close>
named_theorems state_simps \<open>reading a field of an updated emulator state\<close>
named_theorems field_simps_riscv \<open>instruction fields of an encoded instruction\<close>

section \<open>Single bits\<close>

lemma word_bit_beyond:
  fixes w :: "'x::len word"
  shows "LENGTH('x) \<le> n \<Longrightarrow> \<not> bit w n"
  using bit_imp_le_length by (metis linorder_not_le)

lemma and_push_bit_1_iff: "w AND push_bit n 1 \<noteq> 0 \<longleftrightarrow> bit w n"
  for w :: "'x::len word"
  by (metis and_exp_eq_0_iff_not_bit push_bit_of_1)

text \<open>The arithmetic right shift written with logical shifts only.\<close>

lemma portable_signed_shift:
  fixes v :: "'x::len word"
  assumes "0 < sh" "sh < LENGTH('x)"
  shows "drop_bit sh v OR
      (if bit v (LENGTH('x) - 1) then push_bit (LENGTH('x) - sh) (NOT 0) else 0) =
    signed_drop_bit sh v"
proof (rule bit_word_eqI)
  fix n assume "n < LENGTH('x)"
  with assms show "bit (drop_bit sh v OR
      (if bit v (LENGTH('x) - 1) then push_bit (LENGTH('x) - sh) (NOT 0) else 0)) n =
    bit (signed_drop_bit sh v) n"
    by (auto simp: bit_simps dest: bit_imp_le_length)
qed

lemma unat_take_bit: "unat (take_bit n w) = unat w mod 2 ^ n"
  for w :: "'x::len word"
  by (metis unsigned_take_bit_eq take_bit_eq_mod)

lemma unat_less: "unat w < 2 ^ LENGTH('x)" for w :: "'x::len word"
  by (rule unsigned_less)

lemma unat_drop_bit: "unat (drop_bit n w) = unat w div 2 ^ n"
  for w :: "'x::len word"
  by (metis unat_drop_bit_eq drop_bit_eq_div)

lemma uint_drop_bit: "uint (drop_bit n w) = uint w div 2 ^ n"
  for w :: "'x::len word"
  by (simp only: unsigned_drop_bit_eq)
     (simp add: drop_bit_eq_div unsigned_take_bit_eq [symmetric])

lemma less_8_cases: "n < 8 \<Longrightarrow> n \<in> {0, 1, 2, 3, 4, 5, 6, 7}" for n :: nat
  by (simp add: numeral_eq_Suc less_Suc_eq)

lemma less_16_cases: "n < 16 \<Longrightarrow> n \<in> {0, 1, 2, 3, 4, 5, 6, 7, 8, 9, 10, 11, 12, 13, 14, 15}"
  for n :: nat
  by (simp add: numeral_eq_Suc less_Suc_eq)

lemma less_32_cases: "n < 32 \<Longrightarrow> n \<in>
    {0, 1, 2, 3, 4, 5, 6, 7, 8, 9, 10, 11, 12, 13, 14, 15,
     16, 17, 18, 19, 20, 21, 22, 23, 24, 25, 26, 27, 28, 29, 30, 31}" for n :: nat
  by (simp add: numeral_eq_Suc less_Suc_eq)

text \<open>Two words are equal when their bits are: a rule the simplifier can close bit by bit.\<close>

lemma u8_eqI:
  fixes v w :: u8
  assumes "bit v 0 = bit w 0"
    and "bit v 1 = bit w 1"
    and "bit v 2 = bit w 2"
    and "bit v 3 = bit w 3"
    and "bit v 4 = bit w 4"
    and "bit v 5 = bit w 5"
    and "bit v 6 = bit w 6"
    and "bit v 7 = bit w 7"
  shows "v = w"
proof (rule bit_word_eqI)
  fix n assume "n < LENGTH(8)"
  then have "n < 8" by simp
  then show "bit v n = bit w n"
    by (elim less_8_cases [THEN insertE] insertE emptyE) (simp_all only: assms)
qed

lemma u32_eqI:
  fixes v w :: u32
  assumes "bit v 0 = bit w 0"
    and "bit v 1 = bit w 1"
    and "bit v 2 = bit w 2"
    and "bit v 3 = bit w 3"
    and "bit v 4 = bit w 4"
    and "bit v 5 = bit w 5"
    and "bit v 6 = bit w 6"
    and "bit v 7 = bit w 7"
    and "bit v 8 = bit w 8"
    and "bit v 9 = bit w 9"
    and "bit v 10 = bit w 10"
    and "bit v 11 = bit w 11"
    and "bit v 12 = bit w 12"
    and "bit v 13 = bit w 13"
    and "bit v 14 = bit w 14"
    and "bit v 15 = bit w 15"
    and "bit v 16 = bit w 16"
    and "bit v 17 = bit w 17"
    and "bit v 18 = bit w 18"
    and "bit v 19 = bit w 19"
    and "bit v 20 = bit w 20"
    and "bit v 21 = bit w 21"
    and "bit v 22 = bit w 22"
    and "bit v 23 = bit w 23"
    and "bit v 24 = bit w 24"
    and "bit v 25 = bit w 25"
    and "bit v 26 = bit w 26"
    and "bit v 27 = bit w 27"
    and "bit v 28 = bit w 28"
    and "bit v 29 = bit w 29"
    and "bit v 30 = bit w 30"
    and "bit v 31 = bit w 31"
  shows "v = w"
proof (rule bit_word_eqI)
  fix n assume "n < LENGTH(32)"
  then have "n < 32" by simp
  then show "bit v n = bit w n"
    by (elim less_32_cases [THEN insertE] insertE emptyE) (simp_all only: assms)
qed

lemma unat_ucast_up:
  fixes w :: "'a::len word"
  shows "LENGTH('a) \<le> LENGTH('b) \<Longrightarrow> unat (ucast w :: 'b::len word) = unat w"
  by (simp add: unsigned_ucast_eq take_bit_nat_eq_self order_less_le_trans
      [OF unsigned_less power_increasing])

lemma unat_plus_of_nat:
  fixes i :: "'a::len word"
  shows "unat i + k < 2 ^ LENGTH('a) \<Longrightarrow> unat (i + of_nat k) = unat i + k"
  by (simp add: unat_word_ariths unat_of_nat)

lemma sint_scast_up:
  fixes w :: "'a::len word"
  assumes "LENGTH('a) \<le> LENGTH('b)"
  shows "sint (scast w :: 'b::len word) = sint w"
proof (rule bit_eqI)
  fix n
  show "bit (sint (scast w :: 'b word)) n = bit (sint w) n"
  proof (cases "n < LENGTH('a)")
    case True
    then have "min (LENGTH('a) - Suc 0) n = n" by simp
    with True assms show ?thesis
      by (simp add: bit_sint_iff bit_signed_iff not_le Suc_le_eq)
  next
    case False
    then have "min (LENGTH('a) - Suc 0) n = LENGTH('a) - Suc 0"
      and "min (LENGTH('a) - Suc 0) (LENGTH('b) - Suc 0) = LENGTH('a) - Suc 0"
      using assms by simp_all
    with False assms show ?thesis
      by (auto simp: bit_sint_iff bit_signed_iff word_bit_beyond)
  qed
qed

lemma ucast_ucast_up:
  fixes w :: "'a::len word"
  assumes "LENGTH('a) \<le> LENGTH('b)"
  shows "(ucast (ucast w :: 'b::len word) :: 'c::len word) = ucast w"
  using assms by (intro bit_word_eqI) (auto simp: bit_ucast_iff dest: bit_imp_le_length)

lemma scast_scast_up:
  fixes w :: "'a::len word"
  assumes "LENGTH('a) \<le> LENGTH('b)"
  shows "(scast (scast w :: 'b::len word) :: 'c::len word) = scast w"
  using sint_scast_up [OF assms, of w] by (metis scast_eq)

section \<open>Truncating division\<close>

text \<open>
  The C operators \<open>/\<close> and \<open>%\<close> on a signed type truncate towards zero.  Where the
  quotient does not fit (the least value divided by -1) and for a zero divisor the C
  program has undefined behaviour; the callers guard both cases.
\<close>

definition c_sdiv :: "'x::len word \<Rightarrow> 'x word \<Rightarrow> 'x word" where
  "c_sdiv a b = word_of_int (sint a sdiv sint b)"

definition c_smod :: "'x::len word \<Rightarrow> 'x word \<Rightarrow> 'x word" where
  "c_smod a b = word_of_int (sint a smod sint b)"

lemma c_sdiv_smod: "c_sdiv a b * b + c_smod a b = a"
proof -
  have "sint a sdiv sint b * sint b + sint a smod sint b = sint a"
    by (rule sdiv_mult_smod_eq)
  then have "word_of_int (sint a sdiv sint b * sint b + sint a smod sint b) = a"
    by simp
  then show ?thesis
    by (simp add: c_sdiv_def c_smod_def wi_hom_syms)
qed

end
