(* ===== verification/Arch.thy ===== *)
theory Arch
  imports C_Prelude
begin

text \<open>
  \<^verbatim>\<open>inc/arch.h\<close> and the portable-arithmetic macros of \<^verbatim>\<open>inc/common.h\<close>.

  The register width is the type parameter \<open>'x\<close>: \<open>reg_t\<close> and \<open>sreg_t\<close> are
  \<open>'x word\<close>, and the build with \<^verbatim>\<open>-DRV64\<close> is \<open>LENGTH('x) = 64\<close>, the
  build without it \<open>LENGTH('x) = 32\<close>.  One definition thus stands for both builds,
  and an \<^verbatim>\<open>#ifdef RV64\<close> of the source is a test of \<open>RV64 TYPE('x)\<close>.
\<close>

section \<open>The register width\<close>

definition RV64 :: "'x::len itself \<Rightarrow> bool" where
  "RV64 _ \<longleftrightarrow> LENGTH('x) = 64"

text \<open>The widths the build system can select.\<close>

definition xlen_ok :: "'x::len itself \<Rightarrow> bool" where
  "xlen_ok _ \<longleftrightarrow> LENGTH('x) = 32 \<or> LENGTH('x) = 64"

lemma RV64_simps [simp]:
  "\<not> RV64 TYPE(32)" "RV64 TYPE(64)"
  by (simp_all add: RV64_def)

lemma xlen_ok_simps [simp]: "xlen_ok TYPE(32)" "xlen_ok TYPE(64)"
  by (simp_all add: xlen_ok_def)

lemma xlen_cases:
  assumes "xlen_ok TYPE('x::len)"
  obtains (rv32) "LENGTH('x) = 32" "\<not> RV64 TYPE('x)"
    | (rv64) "LENGTH('x) = 64" "RV64 TYPE('x)"
  using assms by (auto simp: xlen_ok_def RV64_def)

lemma xlen_ge_32: "xlen_ok TYPE('x::len) \<Longrightarrow> 32 \<le> LENGTH('x)"
  by (auto simp: xlen_ok_def)

section \<open>Constants\<close>

definition MAX_CYCLES :: u64 where [c_consts]: "MAX_CYCLES = 1000000000"
definition ROM_START :: u32 where [c_consts]: "ROM_START = 0x0"
definition RAM_START :: u32 where [c_consts]: "RAM_START = 0x20000000"
definition ROM_SIZE :: u32 where [c_consts]: "ROM_SIZE = 512 * 1024"
definition RAM_SIZE :: u32 where [c_consts]: "RAM_SIZE = 64 * 1024"

definition SIGN_BIT_WORD :: u32 where [c_consts]: "SIGN_BIT_WORD = 0x80000000"
definition SIGN_BIT_DWORD :: u64 where [c_consts]: "SIGN_BIT_DWORD = 0x8000000000000000"

definition SHIFT_MAX_WORD :: "'x::len word" where [c_consts]: "SHIFT_MAX_WORD = 0x1F"
definition SHIFT_MAX_DWORD :: "'x::len word" where [c_consts]: "SHIFT_MAX_DWORD = 0x3F"

definition SHIFT_MAX :: "'x::len word" where
  "SHIFT_MAX = (if RV64 TYPE('x) then SHIFT_MAX_DWORD else SHIFT_MAX_WORD)"

definition SIGN_BIT :: "'x::len word" where
  "SIGN_BIT = (if RV64 TYPE('x) then ucast SIGN_BIT_DWORD else ucast SIGN_BIT_WORD)"

definition XLEN :: "'x::len itself \<Rightarrow> nat" where
  "XLEN _ = (if RV64 TYPE('x) then 64 else 32)"

definition REG_MAX :: "'x::len word" where
  "REG_MAX = (if RV64 TYPE('x) then 0xFFFFFFFFFFFFFFFF else 0xFFFFFFFF)"

definition SREG_MIN :: "'x::len word" where
  "SREG_MIN = (if RV64 TYPE('x) then - 9223372036854775807 - 1 else - 2147483647 - 1)"

definition XRF_SIZE :: nat where [c_consts]: "XRF_SIZE = 32"

section \<open>Portable shifts and sign extension\<close>

text \<open>
  The shift amount \<open>sh\<close> is a natural number: every use passes a literal or a value
  masked to the register width.
\<close>

definition SRAW :: "u32 \<Rightarrow> nat \<Rightarrow> u32" where
  "SRAW val sh = (if sh = 0 then val
     else drop_bit sh val OR
       (if val AND SIGN_BIT_WORD \<noteq> 0 then push_bit (32 - sh) (NOT 0) else 0))"

definition SRA :: "'x::len word \<Rightarrow> nat \<Rightarrow> 'x word" where
  "SRA val sh = (if sh = 0 then val
     else drop_bit sh val OR
       (if val AND SIGN_BIT \<noteq> 0 then push_bit (XLEN TYPE('x) - sh) (NOT 0) else 0))"

definition SIGN_EXTENDWU :: "u32 \<Rightarrow> nat \<Rightarrow> u32" where
  "SIGN_EXTENDWU uval amt = (- (uval AND push_bit (amt - 1) 1)) OR uval"

definition SIGN_EXTENDU :: "'x::len word \<Rightarrow> nat \<Rightarrow> 'x word" where
  "SIGN_EXTENDU uval amt = (- (uval AND push_bit (amt - 1) 1)) OR uval"

section \<open>What the macros compute\<close>

lemma XLEN_eq: "xlen_ok TYPE('x::len) \<Longrightarrow> XLEN TYPE('x) = LENGTH('x)"
  by (auto simp: XLEN_def xlen_ok_def RV64_def)

lemma SIGN_BIT_eq:
  "xlen_ok TYPE('x::len) \<Longrightarrow> (SIGN_BIT :: 'x word) = push_bit (LENGTH('x) - 1) 1"
  by (erule xlen_cases; rule bit_word_eqI)
     (simp_all add: SIGN_BIT_def c_consts RV64_def bit_simps)

lemma REG_MAX_eq: "xlen_ok TYPE('x::len) \<Longrightarrow> (REG_MAX :: 'x word) = - 1"
  by (erule xlen_cases) (simp_all add: REG_MAX_def word_eq_iff_unsigned mask_eq_exp_minus_1 unsigned_minus_1_eq_mask)

lemma SREG_MIN_eq: "xlen_ok TYPE('x::len) \<Longrightarrow> (SREG_MIN :: 'x word) = - (2 ^ (LENGTH('x) - 1))"
  by (erule xlen_cases) (simp_all add: SREG_MIN_def)

lemma SIGN_BIT_iff:
  "xlen_ok TYPE('x) \<Longrightarrow> v AND SIGN_BIT \<noteq> 0 \<longleftrightarrow> bit v (LENGTH('x) - 1)"
  for v :: "'x::len word"
  by (simp only: SIGN_BIT_eq and_push_bit_1_iff)

lemma SIGN_BIT_WORD_iff: "v AND SIGN_BIT_WORD \<noteq> 0 \<longleftrightarrow> bit v 31"
proof -
  have h: "SIGN_BIT_WORD = push_bit 31 1" by (simp add: c_consts)
  show ?thesis unfolding h by (rule and_push_bit_1_iff)
qed

lemma SRAW_eq: "sh < 32 \<Longrightarrow> SRAW val sh = signed_drop_bit sh val"
  using portable_signed_shift [of sh val]
  by (cases "sh = 0") (simp_all add: SRAW_def SIGN_BIT_WORD_iff cong: if_cong)

lemma SRA_eq:
  fixes val :: "'x::len word"
  assumes "xlen_ok TYPE('x)" "sh < LENGTH('x)"
  shows "SRA val sh = signed_drop_bit sh val"
  using assms portable_signed_shift [of sh val]
  by (cases "sh = 0") (simp_all add: SRA_def SIGN_BIT_iff XLEN_eq cong: if_cong)

lemma sint_SRA:
  fixes val :: "'x::len word"
  assumes "xlen_ok TYPE('x)" "sh < LENGTH('x)"
  shows "sint (SRA val sh) = sint val div 2 ^ sh"
  using assms by (simp add: SRA_eq sint_signed_drop_bit_eq drop_bit_eq_div)

lemma shift_amount_bound:
  fixes v :: "'x::len word"
  assumes "xlen_ok TYPE('x)"
  shows "unat (v AND SHIFT_MAX) = unat v mod LENGTH('x)"
  using assms
proof (cases rule: xlen_cases)
  case rv32
  then have "v AND SHIFT_MAX = take_bit 5 v"
    by (simp add: SHIFT_MAX_def c_consts take_bit_eq_mask mask_eq_exp_minus_1)
  with rv32 show ?thesis by (simp only: unat_take_bit) simp
next
  case rv64
  then have "v AND SHIFT_MAX = take_bit 6 v"
    by (simp add: SHIFT_MAX_def c_consts take_bit_eq_mask mask_eq_exp_minus_1)
  with rv64 show ?thesis by (simp only: unat_take_bit) simp
qed

lemma shift_amount_word_bound: "unat (v AND SHIFT_MAX_WORD) = unat v mod 32"
  for v :: "'x::len word"
proof -
  have "v AND SHIFT_MAX_WORD = take_bit 5 v"
    by (simp add: c_consts take_bit_eq_mask mask_eq_exp_minus_1)
  then show ?thesis by (simp only: unat_take_bit) simp
qed

text \<open>
  \<open>SIGN_EXTENDU\<close> is sign extension from bit \<open>amt - 1\<close> for a value that has no
  bit at or above \<open>amt\<close>; a stray higher bit of a non-negative field survives.
\<close>

lemma bit_minus_and_exp:
  fixes w :: "'x::len word"
  assumes "n < LENGTH('x)"
  shows "bit (- (w AND 2 ^ k)) n \<longleftrightarrow> bit w k \<and> k \<le> n"
proof (cases "bit w k")
  case True
  then have "w AND 2 ^ k = 2 ^ k"
    by (intro bit_word_eqI) (auto simp: bit_simps)
  then show ?thesis using assms True
    by (simp add: bit_minus_exp_iff)
next
  case False
  then have "w AND 2 ^ k = 0"
    by (intro bit_word_eqI) (auto simp: bit_simps)
  with False show ?thesis by simp
qed

lemma SIGN_EXTENDU_eq:
  fixes w :: "'x::len word"
  assumes "0 < amt" "amt \<le> LENGTH('x)" "take_bit amt w = w"
  shows "SIGN_EXTENDU w amt = signed_take_bit (amt - 1) w"
proof (rule bit_word_eqI)
  fix n assume n: "n < LENGTH('x)"
  have high: "\<not> bit w k" if "amt \<le> k" for k
    using assms(3) that by (metis bit_take_bit_iff not_le)
  consider "n < amt - 1" | "n = amt - 1" | "amt - 1 < n" by linarith
  then show "bit (SIGN_EXTENDU w amt) n = bit (signed_take_bit (amt - 1) w) n"
    by cases (use assms(1,2) n high [of n] in \<open>auto simp: SIGN_EXTENDU_def bit_or_iff
        bit_minus_and_exp bit_signed_take_bit_iff\<close>)
qed

lemma SIGN_EXTENDWU_eq:
  "0 < amt \<Longrightarrow> amt \<le> 32 \<Longrightarrow> take_bit amt w = w \<Longrightarrow>
    SIGN_EXTENDWU w amt = signed_take_bit (amt - 1) w"
  using SIGN_EXTENDU_eq [of amt w] by (simp add: SIGN_EXTENDWU_def SIGN_EXTENDU_def)

section \<open>Masked shifts\<close>

text \<open>The portable arithmetic shifts \<open>SRA\<close> and \<open>SRAW\<close>, applied with the masked shift amount the
  instruction cases pass, divide the signed value by the power of two and round down.\<close>

lemma SRA_masked:
  fixes v b :: "'x::len word"
  assumes "xlen_ok TYPE('x)"
  shows "sint (SRA v (unat (b AND SHIFT_MAX))) = sint v div 2 ^ (unat b mod LENGTH('x)) \<and>
    sint (SRAW (ucast v) (unat (b AND SHIFT_MAX_WORD))) = sint (ucast v :: u32) div 2 ^ (unat b mod 32)"
  using sint_SRA [OF assms, of "unat b mod LENGTH('x)" v]
  by (simp_all add: shift_amount_bound [OF assms] shift_amount_word_bound SRAW_eq
      sint_signed_drop_bit_eq drop_bit_eq_div)

end
