(* ===== verification/Riscv.thy ===== *)
theory Riscv
  imports Arch
begin

text \<open>
  \<^verbatim>\<open>inc/riscv.h\<close>: the numeric constants of the instruction set and the macros that
  take an instruction word apart.  The second half states the instruction formats of the
  RISC-V manual as encoders and proves that the macros recover every field and every
  immediate of every format.
\<close>

section \<open>Constants\<close>

subsection \<open>Opcodes\<close>

definition OP_RTYPE :: u8 where [c_consts]: "OP_RTYPE = 0x33"
definition OP_IMM :: u8 where [c_consts]: "OP_IMM = 0x13"
definition OP_RTYPEW :: u8 where [c_consts]: "OP_RTYPEW = 0x3B"
definition OP_IMMW :: u8 where [c_consts]: "OP_IMMW = 0x1B"
definition OP_LOAD :: u8 where [c_consts]: "OP_LOAD = 0x03"
definition OP_STORE :: u8 where [c_consts]: "OP_STORE = 0x23"
definition OP_BRANCH :: u8 where [c_consts]: "OP_BRANCH = 0x63"
definition OP_FENCE :: u8 where [c_consts]: "OP_FENCE = 0x0F"
definition OP_AUIPC :: u8 where [c_consts]: "OP_AUIPC = 0x17"
definition OP_LUI :: u8 where [c_consts]: "OP_LUI = 0x37"
definition OP_JAL :: u8 where [c_consts]: "OP_JAL = 0x6F"
definition OP_JALR :: u8 where [c_consts]: "OP_JALR = 0x67"
definition OP_SYS :: u8 where [c_consts]: "OP_SYS = 0x73"

subsection \<open>Function codes\<close>

definition ALU_ADD :: u8 where [c_consts]: "ALU_ADD = 0x0"
definition ALU_SUB :: u8 where [c_consts]: "ALU_SUB = 0x8"
definition ALU_SLL :: u8 where [c_consts]: "ALU_SLL = 0x1"
definition ALU_SLT :: u8 where [c_consts]: "ALU_SLT = 0x2"
definition ALU_SLTU :: u8 where [c_consts]: "ALU_SLTU = 0x3"
definition ALU_XOR :: u8 where [c_consts]: "ALU_XOR = 0x4"
definition ALU_SRL :: u8 where [c_consts]: "ALU_SRL = 0x5"
definition ALU_SRA :: u8 where [c_consts]: "ALU_SRA = 0xD"
definition ALU_OR :: u8 where [c_consts]: "ALU_OR = 0x6"
definition ALU_AND :: u8 where [c_consts]: "ALU_AND = 0x7"

definition M_MUL :: u8 where [c_consts]: "M_MUL = 0x0"
definition M_MULH :: u8 where [c_consts]: "M_MULH = 0x1"
definition M_MULHSU :: u8 where [c_consts]: "M_MULHSU = 0x2"
definition M_MULHU :: u8 where [c_consts]: "M_MULHU = 0x3"
definition M_DIV :: u8 where [c_consts]: "M_DIV = 0x4"
definition M_DIVU :: u8 where [c_consts]: "M_DIVU = 0x5"
definition M_REM :: u8 where [c_consts]: "M_REM = 0x6"
definition M_REMU :: u8 where [c_consts]: "M_REMU = 0x7"

definition MEM_B :: u8 where [c_consts]: "MEM_B = 0x0"
definition MEM_H :: u8 where [c_consts]: "MEM_H = 0x1"
definition MEM_W :: u8 where [c_consts]: "MEM_W = 0x2"
definition MEM_D :: u8 where [c_consts]: "MEM_D = 0x3"
definition MEM_BU :: u8 where [c_consts]: "MEM_BU = 0x4"
definition MEM_HU :: u8 where [c_consts]: "MEM_HU = 0x5"
definition MEM_WU :: u8 where [c_consts]: "MEM_WU = 0x6"

definition BRANCH_EQ :: u8 where [c_consts]: "BRANCH_EQ = 0x0"
definition BRANCH_NE :: u8 where [c_consts]: "BRANCH_NE = 0x1"
definition BRANCH_LT :: u8 where [c_consts]: "BRANCH_LT = 0x4"
definition BRANCH_GE :: u8 where [c_consts]: "BRANCH_GE = 0x5"
definition BRANCH_LTU :: u8 where [c_consts]: "BRANCH_LTU = 0x6"
definition BRANCH_GEU :: u8 where [c_consts]: "BRANCH_GEU = 0x7"

definition ESYS :: u8 where [c_consts]: "ESYS = 0x0"
definition CSR_RW :: u8 where [c_consts]: "CSR_RW = 0x1"
definition CSR_RS :: u8 where [c_consts]: "CSR_RS = 0x2"
definition CSR_RC :: u8 where [c_consts]: "CSR_RC = 0x3"
definition CSR_RWI :: u8 where [c_consts]: "CSR_RWI = 0x5"
definition CSR_RSI :: u8 where [c_consts]: "CSR_RSI = 0x6"
definition CSR_RCI :: u8 where [c_consts]: "CSR_RCI = 0x7"

definition EBREAK :: "'x::len word \<Rightarrow> bool" where
  "EBREAK uimm \<longleftrightarrow> uimm = 1"

definition CSR_IMM :: "u8 \<Rightarrow> bool" where
  "CSR_IMM op \<longleftrightarrow> op AND 0x4 \<noteq> 0"

definition A0 :: u8 where [c_consts]: "A0 = 10"
definition A1 :: u8 where [c_consts]: "A1 = 11"
definition E_EXIT :: "'x::len word" where [c_consts]: "E_EXIT = 10"
definition E_CHAR :: "'x::len word" where [c_consts]: "E_CHAR = 11"

section \<open>Field extraction\<close>

definition GET_OPCODE :: "u32 \<Rightarrow> u8" where
  "GET_OPCODE instr = ucast instr AND 0x7F"

definition GET_RS1 :: "u32 \<Rightarrow> u8" where
  "GET_RS1 instr = ucast (drop_bit 15 (instr AND 0xF8000))"

definition GET_RS2 :: "u32 \<Rightarrow> u8" where
  "GET_RS2 instr = ucast (drop_bit 20 (instr AND 0x1F00000))"

definition GET_RD :: "u32 \<Rightarrow> u8" where
  "GET_RD instr = ucast (drop_bit 7 (instr AND 0xF80))"

definition GET_IMM12 :: "u32 \<Rightarrow> 'x::len word" where
  "GET_IMM12 instr = ucast (drop_bit 20 (instr AND 0xFFF00000))"

definition GET_SIMM12 :: "u32 \<Rightarrow> 'x::len word" where
  "GET_SIMM12 instr = scast (SRAW (instr AND 0xFFF00000) 20)"

definition GET_SIMM20 :: "u32 \<Rightarrow> 'x::len word" where
  "GET_SIMM20 instr = scast (instr AND 0xFFFFF000)"

definition GET_FUNCT3 :: "u32 \<Rightarrow> u8" where
  "GET_FUNCT3 instr = ucast (drop_bit 12 (instr AND 0x7000))"

definition CHECK_FUNCT7_BIT0 :: "u32 \<Rightarrow> bool" where
  "CHECK_FUNCT7_BIT0 instr \<longleftrightarrow> instr AND 0x2000000 \<noteq> 0"

definition CHECK_FUNCT7_BIT5 :: "u32 \<Rightarrow> bool" where
  "CHECK_FUNCT7_BIT5 instr \<longleftrightarrow> instr AND 0x40000000 \<noteq> 0"

definition ALU_FUNCT7_BIT5 :: "u32 \<Rightarrow> u8" where
  "ALU_FUNCT7_BIT5 instr = ucast (drop_bit 27 (instr AND 0x40000000))"

definition GET_BRANCH_IMM :: "u32 \<Rightarrow> 'x::len word" where
  "GET_BRANCH_IMM instr = scast (SRAW
     ((instr AND 0x80000000) OR
      push_bit 23 (instr AND 0x80) OR
      drop_bit 1 (instr AND 0x7E000000) OR
      push_bit 12 (instr AND 0xF00)) 19)"

definition GET_JAL_IMM :: "u32 \<Rightarrow> 'x::len word" where
  "GET_JAL_IMM instr = scast (SRAW
     ((instr AND 0x80000000) OR
      push_bit 11 (instr AND 0xFF000) OR
      push_bit 2 (instr AND 0x100000) OR
      drop_bit 9 (instr AND 0x7FE00000)) 11)"

definition GET_STORE_IMM :: "u32 \<Rightarrow> 'x::len word" where
  "GET_STORE_IMM instr = scast (SRAW
     ((instr AND 0xFE000000) OR push_bit 13 (instr AND 0xF80)) 20)"

section \<open>The instruction formats of the manual\<close>

text \<open>
  The R format has a field in every bit position; the other formats put the bits of
  their immediate into fields of the R format.  A branch or jump immediate is given
  without its lowest bit, which is always zero.
\<close>

definition enc_R :: "7 word \<Rightarrow> 5 word \<Rightarrow> 5 word \<Rightarrow> 3 word \<Rightarrow> 5 word \<Rightarrow> 7 word \<Rightarrow> u32" where
  "enc_R funct7 rs2 rs1 funct3 rd op =
     push_bit 25 (ucast funct7) OR push_bit 20 (ucast rs2) OR push_bit 15 (ucast rs1) OR
     push_bit 12 (ucast funct3) OR push_bit 7 (ucast rd) OR ucast op"

definition enc_I :: "12 word \<Rightarrow> 5 word \<Rightarrow> 3 word \<Rightarrow> 5 word \<Rightarrow> 7 word \<Rightarrow> u32" where
  "enc_I imm rs1 funct3 rd op = enc_R (ucast (drop_bit 5 imm)) (ucast imm) rs1 funct3 rd op"

definition enc_S :: "12 word \<Rightarrow> 5 word \<Rightarrow> 5 word \<Rightarrow> 3 word \<Rightarrow> 7 word \<Rightarrow> u32" where
  "enc_S imm rs2 rs1 funct3 op = enc_R (ucast (drop_bit 5 imm)) rs2 rs1 funct3 (ucast imm) op"

definition enc_B :: "12 word \<Rightarrow> 5 word \<Rightarrow> 5 word \<Rightarrow> 3 word \<Rightarrow> 7 word \<Rightarrow> u32" where
  "enc_B imm rs2 rs1 funct3 op =
     enc_R (push_bit 6 (ucast (drop_bit 11 imm)) OR ucast (drop_bit 4 imm AND 0x3F))
       rs2 rs1 funct3
       (push_bit 1 (ucast (imm AND 0xF)) OR ucast (drop_bit 10 imm AND 1)) op"

definition enc_U :: "20 word \<Rightarrow> 5 word \<Rightarrow> 7 word \<Rightarrow> u32" where
  "enc_U imm rd op =
     enc_R (ucast (drop_bit 13 imm)) (ucast (drop_bit 8 imm)) (ucast (drop_bit 3 imm))
       (ucast imm) rd op"

definition enc_J :: "20 word \<Rightarrow> 5 word \<Rightarrow> 7 word \<Rightarrow> u32" where
  "enc_J imm rd op =
     enc_R (push_bit 6 (ucast (drop_bit 19 imm)) OR ucast (drop_bit 4 imm AND 0x3F))
       (push_bit 1 (ucast (imm AND 0xF)) OR ucast (drop_bit 10 imm AND 1))
       (ucast (drop_bit 14 imm)) (ucast (drop_bit 11 imm)) rd op"

text \<open>Every instruction word is an R-format word.\<close>

lemma bit_enc_R [field_simps_riscv]:
  "bit (enc_R f7 rs2 rs1 f3 rd op) n \<longleftrightarrow>
    (if n < 7 then bit op n
     else if n < 12 then bit rd (n - 7)
     else if n < 15 then bit f3 (n - 12)
     else if n < 20 then bit rs1 (n - 15)
     else if n < 25 then bit rs2 (n - 20)
     else n < 32 \<and> bit f7 (n - 25))"
proof (cases "n < 32")
  case True
  then show ?thesis
    unfolding enc_R_def
    by (auto simp: bit_or_iff bit_push_bit_iff bit_ucast_iff word_bit_beyond)
next
  case False
  then show ?thesis by (simp add: word_bit_beyond)
qed

lemma enc_R_surj:
  "raw = enc_R (ucast (drop_bit 25 raw)) (ucast (drop_bit 20 raw)) (ucast (drop_bit 15 raw))
     (ucast (drop_bit 12 raw)) (ucast (drop_bit 7 raw)) (ucast raw)"
  by (rule bit_word_eqI) (auto simp: bit_enc_R bit_ucast_iff bit_drop_bit_eq)

subsection \<open>Fields of an encoded instruction\<close>

lemma GET_OPCODE_enc_R [field_simps_riscv]:
  "GET_OPCODE (enc_R f7 rs2 rs1 f3 rd op) = ucast op"
  unfolding GET_OPCODE_def
  by (rule u8_eqI; simp add: bit_simps bit_enc_R word_bit_beyond)

lemma GET_RD_enc_R [field_simps_riscv]:
  "GET_RD (enc_R f7 rs2 rs1 f3 rd op) = ucast rd"
  unfolding GET_RD_def
  by (rule u8_eqI; simp add: bit_simps bit_enc_R word_bit_beyond)

lemma GET_FUNCT3_enc_R [field_simps_riscv]:
  "GET_FUNCT3 (enc_R f7 rs2 rs1 f3 rd op) = ucast f3"
  unfolding GET_FUNCT3_def
  by (rule u8_eqI; simp add: bit_simps bit_enc_R word_bit_beyond)

lemma GET_RS1_enc_R [field_simps_riscv]:
  "GET_RS1 (enc_R f7 rs2 rs1 f3 rd op) = ucast rs1"
  unfolding GET_RS1_def
  by (rule u8_eqI; simp add: bit_simps bit_enc_R word_bit_beyond)

lemma GET_RS2_enc_R [field_simps_riscv]:
  "GET_RS2 (enc_R f7 rs2 rs1 f3 rd op) = ucast rs2"
  unfolding GET_RS2_def
  by (rule u8_eqI; simp add: bit_simps bit_enc_R word_bit_beyond)

lemma and_exp_neq_0_iff: "w AND 2 ^ n \<noteq> 0 \<longleftrightarrow> bit w n" for w :: "'x::len word"
  by (metis and_exp_eq_0_iff_not_bit)

lemma CHECK_FUNCT7_BIT0_iff: "CHECK_FUNCT7_BIT0 instr \<longleftrightarrow> bit instr 25"
  using and_exp_neq_0_iff [of instr 25] by (simp add: CHECK_FUNCT7_BIT0_def)

lemma CHECK_FUNCT7_BIT5_iff: "CHECK_FUNCT7_BIT5 instr \<longleftrightarrow> bit instr 30"
  using and_exp_neq_0_iff [of instr 30] by (simp add: CHECK_FUNCT7_BIT5_def)

lemma ALU_FUNCT7_BIT5_eq: "ALU_FUNCT7_BIT5 instr = (if bit instr 30 then 8 else 0)"
  unfolding ALU_FUNCT7_BIT5_def
  by (rule u8_eqI; simp add: bit_simps word_bit_beyond)

lemma funct7_bits_enc_R [field_simps_riscv]:
  "CHECK_FUNCT7_BIT0 (enc_R f7 rs2 rs1 f3 rd op) \<longleftrightarrow> bit f7 0"
  "CHECK_FUNCT7_BIT5 (enc_R f7 rs2 rs1 f3 rd op) \<longleftrightarrow> bit f7 5"
  "ALU_FUNCT7_BIT5 (enc_R f7 rs2 rs1 f3 rd op) = (if bit f7 5 then 8 else 0)"
  by (simp_all add: CHECK_FUNCT7_BIT0_iff CHECK_FUNCT7_BIT5_iff ALU_FUNCT7_BIT5_eq bit_enc_R)

subsection \<open>Immediates of an encoded instruction\<close>

lemma GET_SIMM12_enc_I [field_simps_riscv]:
  "GET_SIMM12 (enc_I imm rs1 f3 rd op) = scast imm"
proof -
  have "SRAW (enc_I imm rs1 f3 rd op AND 0xFFF00000) 20 = scast imm"
    unfolding enc_I_def
    by (subst SRAW_eq, simp)
       (rule u32_eqI; simp only: bit_simps o_apply bit_enc_R; simp add: bit_simps word_bit_beyond)
  then show ?thesis by (simp add: GET_SIMM12_def scast_scast_up)
qed

lemma GET_IMM12_enc_I [field_simps_riscv]:
  "GET_IMM12 (enc_I imm rs1 f3 rd op) = ucast imm"
proof -
  have "drop_bit 20 (enc_I imm rs1 f3 rd op AND 0xFFF00000) = ucast imm"
    unfolding enc_I_def
    by (rule u32_eqI; simp only: bit_simps o_apply bit_enc_R; simp add: bit_simps word_bit_beyond)
  then show ?thesis
    by (simp only: GET_IMM12_def) (simp add: ucast_ucast_up)
qed

lemma GET_STORE_IMM_enc_S [field_simps_riscv]:
  "GET_STORE_IMM (enc_S imm rs2 rs1 f3 op) = scast imm"
proof -
  have "SRAW ((enc_S imm rs2 rs1 f3 op AND 0xFE000000) OR
      push_bit 13 (enc_S imm rs2 rs1 f3 op AND 0xF80)) 20 = scast imm"
    unfolding enc_S_def
    by (subst SRAW_eq, simp)
       (rule u32_eqI; simp only: bit_simps o_apply bit_enc_R; simp add: bit_simps word_bit_beyond)
  then show ?thesis by (simp add: GET_STORE_IMM_def scast_scast_up)
qed

lemma scast_push_bit_1_scast:
  fixes imm :: "'a::len word"
  assumes "LENGTH('a) < LENGTH('b)"
  shows "(scast (push_bit 1 (scast imm :: 'b::len word)) :: 'c::len word) = push_bit 1 (scast imm)"
proof (rule bit_word_eqI)
  fix n assume n: "n < LENGTH('c)"
  have b: "1 < LENGTH('b)" using assms len_gt_0 [where 'a = 'a] by linarith
  have idx: "0 < n \<Longrightarrow> min (LENGTH('a) - Suc 0) (min (LENGTH('b) - Suc 0) n - Suc 0) =
      min (LENGTH('a) - Suc 0) (n - Suc 0)"
    using assms by (auto simp: min_def)
  from n b show "bit (scast (push_bit 1 (scast imm :: 'b word)) :: 'c word) n =
      bit (push_bit 1 (scast imm) :: 'c word) n"
    by (simp only: bit_simps o_apply) (auto simp: idx)
qed

lemma GET_BRANCH_IMM_enc_B [field_simps_riscv]:
  "GET_BRANCH_IMM (enc_B imm rs2 rs1 f3 op) = push_bit 1 (scast imm)"
proof -
  let ?i = "enc_B imm rs2 rs1 f3 op"
  have "SRAW ((?i AND 0x80000000) OR push_bit 23 (?i AND 0x80) OR
      drop_bit 1 (?i AND 0x7E000000) OR push_bit 12 (?i AND 0xF00)) 19 =
    push_bit 1 (scast imm)"
    unfolding enc_B_def
    by (subst SRAW_eq, simp)
       (rule u32_eqI; simp only: bit_simps o_apply bit_enc_R; simp add: bit_simps word_bit_beyond)
  then show ?thesis by (simp only: GET_BRANCH_IMM_def) (rule scast_push_bit_1_scast, simp)
qed

lemma GET_JAL_IMM_enc_J [field_simps_riscv]:
  "GET_JAL_IMM (enc_J imm rd op) = push_bit 1 (scast imm)"
proof -
  let ?i = "enc_J imm rd op"
  have "SRAW ((?i AND 0x80000000) OR push_bit 11 (?i AND 0xFF000) OR
      push_bit 2 (?i AND 0x100000) OR drop_bit 9 (?i AND 0x7FE00000)) 11 =
    push_bit 1 (scast imm)"
    unfolding enc_J_def
    by (subst SRAW_eq, simp)
       (rule u32_eqI; simp only: bit_simps o_apply bit_enc_R; simp add: bit_simps word_bit_beyond)
  then show ?thesis by (simp only: GET_JAL_IMM_def) (rule scast_push_bit_1_scast, simp)
qed

lemma GET_SIMM20_enc_U [field_simps_riscv]:
  "GET_SIMM20 (enc_U imm rd op) = scast (push_bit 12 (ucast imm) :: u32)"
proof -
  have "enc_U imm rd op AND 0xFFFFF000 = push_bit 12 (ucast imm)"
    unfolding enc_U_def
    by (rule u32_eqI; simp only: bit_simps o_apply bit_enc_R; simp add: bit_simps word_bit_beyond)
  then show ?thesis by (simp add: GET_SIMM20_def)
qed

text \<open>A register index is at most 31: it never leaves the register file.\<close>

lemma GET_reg_bounds:
  "unat (GET_RD raw) < 32" "unat (GET_RS1 raw) < 32" "unat (GET_RS2 raw) < 32"
proof -
  have b: "unat (ucast r :: u8) < 32" for r :: "5 word"
    using unat_less [of r] by (simp add: unat_ucast_up)
  show "unat (GET_RD raw) < 32" by (subst enc_R_surj) (simp add: field_simps_riscv b)
  show "unat (GET_RS1 raw) < 32" by (subst enc_R_surj) (simp add: field_simps_riscv b)
  show "unat (GET_RS2 raw) < 32" by (subst enc_R_surj) (simp add: field_simps_riscv b)
qed

section \<open>Properties\<close>

text \<open>C31. The macros \<open>GET_SIMM12\<close>, \<open>GET_STORE_IMM\<close>, \<open>GET_BRANCH_IMM\<close>, \<open>GET_SIMM20\<close> and
  \<open>GET_JAL_IMM\<close> recover, sign-extended to the register width, every immediate that the I, S, B, U and
  J formats of the manual put into an instruction word.\<close>

theorem immediate_roundtrip:
  "(GET_SIMM12 (enc_I imm rs1 f3 rd op) :: 'x::len word) = scast imm \<and>
   (GET_STORE_IMM (enc_S imm rs2 rs1 f3 op) :: 'x word) = scast imm \<and>
   (GET_BRANCH_IMM (enc_B imm rs2 rs1 f3 op) :: 'x word) = push_bit 1 (scast imm) \<and>
   (GET_SIMM20 (enc_U imm20 rd op) :: 'x word) = scast (push_bit 12 (ucast imm20) :: u32) \<and>
   (GET_JAL_IMM (enc_J imm20 rd op) :: 'x word) = push_bit 1 (scast imm20)"
  by (simp only: field_simps_riscv simp_thms)

text \<open>Every 32-bit word is an instruction of the R layout, and the field macros return the
  fields of that layout; so a register index is below 32 for every word.\<close>

lemma decode_fields:
  "\<exists>f7 rs2 rs1 f3 rd op. raw = enc_R f7 rs2 rs1 f3 rd op \<and>
     GET_OPCODE raw = ucast op \<and> GET_RD raw = ucast rd \<and> GET_FUNCT3 raw = ucast f3 \<and>
     GET_RS1 raw = ucast rs1 \<and> GET_RS2 raw = ucast rs2 \<and>
     (CHECK_FUNCT7_BIT0 raw \<longleftrightarrow> bit f7 0) \<and> (CHECK_FUNCT7_BIT5 raw \<longleftrightarrow> bit f7 5)"
proof (intro exI conjI)
  show "raw = enc_R (ucast (drop_bit 25 raw)) (ucast (drop_bit 20 raw)) (ucast (drop_bit 15 raw))
     (ucast (drop_bit 12 raw)) (ucast (drop_bit 7 raw)) (ucast raw)"
    by (rule enc_R_surj)
qed (subst enc_R_surj, simp add: field_simps_riscv)+

end
