(* ===== verification/Machine.thy ===== *)
theory Machine
  imports Riscv
begin

text \<open>
  The emulator's state and the operations on its counters: the structures of
  \<^verbatim>\<open>inc/cpu.h\<close>, the performance model of \<^verbatim>\<open>inc/perf.h\<close>, the counters and
  control registers of \<^verbatim>\<open>inc/csr.h\<close> and \<^verbatim>\<open>src/cpu/csr.c\<close>.

  The global variables of the program are the fields of one record \<open>'x emu\<close> that every
  operation takes and returns.  What the program prints is recorded, newest entry first,
  in the field \<open>console\<close>.
\<close>

section \<open>State\<close>

record perf_model_t =
  prev_rd :: u8
  prev2_rd :: u8
  prev_mem_load :: bool
  prev2_mem_load :: bool
  prev_reg_write :: bool

text \<open>
  The arrays \<open>rom\<close> and \<open>ram\<close> are functions of the index; every access of the model
  checks the index against the size of the array (\<open>rom_at\<close>, \<open>ram_at\<close>, \<open>ram_set\<close>
  in theory \<open>Bus\<close>), and an access out of bounds makes the operation return
  \<open>None\<close>.  The register file is a list.
\<close>

record (overloaded) 'x cpu_t =
  rom :: "nat \<Rightarrow> u8"
  ram :: "nat \<Rightarrow> u8"
  regfile :: "'x::len word list"
  pc :: "'x word"

text \<open>The union \<open>imms\<close> is one word: \<open>imm\<close> and \<open>uimm\<close> read the same bits.\<close>

record (overloaded) 'x instr_t =
  i_rs1 :: u8
  i_rs2 :: u8
  i_rd :: u8
  i_imm :: "'x::len word"
  is_reg_write :: bool
  is_mem_load :: bool

text \<open>
  One constructor per message of the program, with the values it prints (an address of
  either register width as a 64-bit number).
\<close>

datatype console_event =
    Warn_opcode u8
  | Warn_unmapped_read u64
  | Warn_rom_write u64
  | Warn_unmapped_write u64
  | Err_ebreak
  | Info_exit
  | Putchar u32
  | Usage
  | Err_open
  | Info_loaded u32
  | Info_cycles u64
  | Info_frequency u64 nat
  | Info_frequency_inf
  | Info_cycle_limit

record (overloaded) 'x emu =
  cpu :: "'x::len cpu_t"
  perf_model :: perf_model_t
  mcycle :: u64
  minstret :: u64
  console :: "console_event list"

definition emit :: "console_event \<Rightarrow> 'x::len emu \<Rightarrow> 'x emu" where
  "emit e s = s\<lparr>console := e # console s\<rparr>"

definition get_reg :: "'x::len emu \<Rightarrow> u8 \<Rightarrow> 'x word" where
  "get_reg s i = regfile (cpu s) ! unat i"

definition set_reg :: "u8 \<Rightarrow> 'x word \<Rightarrow> 'x::len emu \<Rightarrow> 'x emu" where
  "set_reg i v s = s\<lparr>cpu := (cpu s)\<lparr>regfile := (regfile (cpu s))[unat i := v]\<rparr>\<rparr>"

definition set_pc :: "'x word \<Rightarrow> 'x::len emu \<Rightarrow> 'x emu" where
  "set_pc a s = s\<lparr>cpu := (cpu s)\<lparr>pc := a\<rparr>\<rparr>"

text \<open>The register file keeps its size, and register zero reads as zero between instructions.\<close>

definition wf_emu :: "'x::len emu \<Rightarrow> bool" where
  "wf_emu s \<longleftrightarrow> length (regfile (cpu s)) = XRF_SIZE \<and> regfile (cpu s) ! 0 = 0"

section \<open>The performance model\<close>

definition PERF_MODEL_INIT :: perf_model_t where
  "PERF_MODEL_INIT = \<lparr>prev_rd = 0, prev2_rd = 0, prev_mem_load = False,
     prev2_mem_load = False, prev_reg_write = False\<rparr>"

text \<open>\<open>mcycle++\<close>\<close>

definition tick :: "'x::len emu \<Rightarrow> 'x emu" where
  "tick s = s\<lparr>mcycle := mcycle s + 1\<rparr>"

definition PERF_MODEL_CYCLE :: "'x instr_t \<Rightarrow> 'x::len emu \<Rightarrow> 'x emu" where
  "PERF_MODEL_CYCLE instr s =
     (let s = tick s;
          s = s\<lparr>minstret := minstret s + 1\<rparr>;
          p = perf_model s;
          p = p\<lparr>prev2_mem_load := prev_mem_load p\<rparr>;
          p = p\<lparr>prev_mem_load := is_mem_load instr\<rparr>;
          p = p\<lparr>prev2_rd := prev_rd p\<rparr>;
          p = p\<lparr>prev_rd := i_rd instr\<rparr>;
          p = p\<lparr>prev_reg_write := is_reg_write instr\<rparr>
      in s\<lparr>perf_model := p\<rparr>)"

definition PERF_MODEL_HAZARD :: "'x instr_t \<Rightarrow> 'x::len emu \<Rightarrow> 'x emu" where
  "PERF_MODEL_HAZARD instr s =
     (let p = perf_model s in
      if prev_mem_load p \<and> prev_rd p \<noteq> 0 \<and>
         (i_rs1 instr = prev_rd p \<or> i_rs2 instr = prev_rd p)
      then tick s else s)"

definition PERF_MODEL_BRANCH_HAZARD :: "'x instr_t \<Rightarrow> 'x::len emu \<Rightarrow> 'x emu" where
  "PERF_MODEL_BRANCH_HAZARD instr s =
     (let p = perf_model s;
          s = (if prev_rd p \<noteq> 0 \<and> prev_reg_write p \<and>
                  (i_rs1 instr = prev_rd p \<or> i_rs2 instr = prev_rd p)
               then tick s else s);
          s = (if prev2_rd p \<noteq> 0 \<and> prev2_mem_load p \<and>
                  (i_rs1 instr = prev2_rd p \<or> i_rs2 instr = prev2_rd p)
               then tick s else s)
      in if prev_mem_load p \<and> prev_rd p \<noteq> 0 \<and>
            (i_rs1 instr = prev_rd p \<or> i_rs2 instr = prev_rd p)
         then tick s else s)"

definition PERF_MODEL_BRANCH_TAKEN :: "'x::len emu \<Rightarrow> 'x emu" where
  "PERF_MODEL_BRANCH_TAKEN s = tick s"

definition PERF_MODEL_MEMORY :: "'x word \<Rightarrow> 'x word \<Rightarrow> 'x::len emu \<Rightarrow> 'x emu" where
  "PERF_MODEL_MEMORY sz addr s = (if addr AND (sz - 1) \<noteq> 0 then tick s else s)"

section \<open>Control and status registers\<close>

definition CSR_MCYCLE :: u32 where [c_consts]: "CSR_MCYCLE = 0xB00"
definition CSR_MINSTRET :: u32 where [c_consts]: "CSR_MINSTRET = 0xB02"
definition CSR_MCYCLEH :: u32 where [c_consts]: "CSR_MCYCLEH = 0xB80"
definition CSR_MINSTRETH :: u32 where [c_consts]: "CSR_MINSTRETH = 0xB82"
definition CSR_CYCLE :: u32 where [c_consts]: "CSR_CYCLE = 0xC00"
definition CSR_INSTRET :: u32 where [c_consts]: "CSR_INSTRET = 0xC02"
definition CSR_CYCLEH :: u32 where [c_consts]: "CSR_CYCLEH = 0xC80"
definition CSR_INSTRETH :: u32 where [c_consts]: "CSR_INSTRETH = 0xC82"

definition read_csr :: "u32 \<Rightarrow> 'x::len emu \<Rightarrow> 'x word" where
  "read_csr csr s =
     (if csr = CSR_MCYCLE \<or> csr = CSR_CYCLE then ucast (mcycle s)
      else if csr = CSR_MINSTRET \<or> csr = CSR_INSTRET then ucast (minstret s)
      else if \<not> RV64 TYPE('x) \<and> (csr = CSR_MCYCLEH \<or> csr = CSR_CYCLEH)
      then ucast (drop_bit 32 (mcycle s))
      else if \<not> RV64 TYPE('x) \<and> (csr = CSR_MINSTRETH \<or> csr = CSR_INSTRETH)
      then ucast (drop_bit 32 (minstret s))
      else 0)"

text \<open>\<open>write_csr\<close> ignores its arguments.\<close>

definition write_csr :: "u32 \<Rightarrow> 'x word \<Rightarrow> 'x::len emu \<Rightarrow> 'x emu" where
  "write_csr csr val s = s"

text \<open>The state of the program when \<open>main\<close> starts, the static objects zero or as initialised.\<close>

definition init_emu :: "'x::len emu" where
  "init_emu = \<lparr>cpu = \<lparr>rom = \<lambda>_. 0, ram = \<lambda>_. 0, regfile = replicate XRF_SIZE 0, pc = 0\<rparr>,
     perf_model = PERF_MODEL_INIT, mcycle = 4, minstret = 0, console = []\<rparr>"

section \<open>Reading an updated state\<close>

lemma get_reg_simps [state_simps]:
  "get_reg (tick s) i = get_reg s i"
  "get_reg (emit e s) i = get_reg s i"
  "get_reg (set_pc a s) i = get_reg s i"
  "get_reg (PERF_MODEL_CYCLE instr s) i = get_reg s i"
  "get_reg (PERF_MODEL_HAZARD instr s) i = get_reg s i"
  "get_reg (PERF_MODEL_BRANCH_HAZARD instr s) i = get_reg s i"
  "get_reg (PERF_MODEL_BRANCH_TAKEN s) i = get_reg s i"
  "get_reg (PERF_MODEL_MEMORY n a s) i = get_reg s i"
  by (simp_all add: get_reg_def tick_def emit_def set_pc_def PERF_MODEL_CYCLE_def
      PERF_MODEL_HAZARD_def PERF_MODEL_BRANCH_HAZARD_def PERF_MODEL_BRANCH_TAKEN_def
      PERF_MODEL_MEMORY_def Let_def)

lemma cpu_simps [state_simps]:
  "cpu (tick s) = cpu s"
  "cpu (emit e s) = cpu s"
  "cpu (PERF_MODEL_CYCLE instr s) = cpu s"
  "cpu (PERF_MODEL_HAZARD instr s) = cpu s"
  "cpu (PERF_MODEL_BRANCH_HAZARD instr s) = cpu s"
  "cpu (PERF_MODEL_BRANCH_TAKEN s) = cpu s"
  "cpu (PERF_MODEL_MEMORY n a s) = cpu s"
  "cpu (write_csr c v s) = cpu s"
  by (simp_all add: tick_def emit_def PERF_MODEL_CYCLE_def
      PERF_MODEL_HAZARD_def PERF_MODEL_BRANCH_HAZARD_def PERF_MODEL_BRANCH_TAKEN_def
      PERF_MODEL_MEMORY_def write_csr_def Let_def)

lemma cpu_set_simps [state_simps]:
  "rom (cpu (set_reg i v s)) = rom (cpu s)"
  "ram (cpu (set_reg i v s)) = ram (cpu s)"
  "pc (cpu (set_reg i v s)) = pc (cpu s)"
  "regfile (cpu (set_reg i v s)) = (regfile (cpu s))[unat i := v]"
  "rom (cpu (set_pc a s)) = rom (cpu s)"
  "ram (cpu (set_pc a s)) = ram (cpu s)"
  "regfile (cpu (set_pc a s)) = regfile (cpu s)"
  "pc (cpu (set_pc a s)) = a"
  by (simp_all add: set_reg_def set_pc_def)

lemma perf_model_simps [state_simps]:
  "perf_model (tick s) = perf_model s"
  "perf_model (emit e s) = perf_model s"
  "perf_model (set_reg i v s) = perf_model s"
  "perf_model (set_pc a s) = perf_model s"
  "perf_model (PERF_MODEL_HAZARD instr s) = perf_model s"
  "perf_model (PERF_MODEL_BRANCH_HAZARD instr s) = perf_model s"
  "perf_model (PERF_MODEL_BRANCH_TAKEN s) = perf_model s"
  "perf_model (PERF_MODEL_MEMORY n a s) = perf_model s"
  "perf_model (write_csr c v s) = perf_model s"
  by (simp_all add: tick_def emit_def set_reg_def set_pc_def
      PERF_MODEL_HAZARD_def PERF_MODEL_BRANCH_HAZARD_def PERF_MODEL_BRANCH_TAKEN_def
      PERF_MODEL_MEMORY_def write_csr_def Let_def)

lemma minstret_simps [state_simps]:
  "minstret (tick s) = minstret s"
  "minstret (emit e s) = minstret s"
  "minstret (set_reg i v s) = minstret s"
  "minstret (set_pc a s) = minstret s"
  "minstret (PERF_MODEL_CYCLE instr s) = minstret s + 1"
  "minstret (PERF_MODEL_HAZARD instr s) = minstret s"
  "minstret (PERF_MODEL_BRANCH_HAZARD instr s) = minstret s"
  "minstret (PERF_MODEL_BRANCH_TAKEN s) = minstret s"
  "minstret (PERF_MODEL_MEMORY n a s) = minstret s"
  "minstret (write_csr c v s) = minstret s"
  by (simp_all add: tick_def emit_def set_reg_def set_pc_def PERF_MODEL_CYCLE_def
      PERF_MODEL_HAZARD_def PERF_MODEL_BRANCH_HAZARD_def PERF_MODEL_BRANCH_TAKEN_def
      PERF_MODEL_MEMORY_def write_csr_def Let_def)

lemma console_simps [state_simps]:
  "console (tick s) = console s"
  "console (emit e s) = e # console s"
  "console (set_reg i v s) = console s"
  "console (set_pc a s) = console s"
  "console (PERF_MODEL_CYCLE instr s) = console s"
  "console (PERF_MODEL_HAZARD instr s) = console s"
  "console (PERF_MODEL_BRANCH_HAZARD instr s) = console s"
  "console (PERF_MODEL_BRANCH_TAKEN s) = console s"
  "console (PERF_MODEL_MEMORY n a s) = console s"
  "console (write_csr c v s) = console s"
  by (simp_all add: tick_def emit_def set_reg_def set_pc_def PERF_MODEL_CYCLE_def
      PERF_MODEL_HAZARD_def PERF_MODEL_BRANCH_HAZARD_def PERF_MODEL_BRANCH_TAKEN_def
      PERF_MODEL_MEMORY_def write_csr_def Let_def)

text \<open>The cycles each macro adds.\<close>

definition hazard_stall :: "perf_model_t \<Rightarrow> u8 \<Rightarrow> u8 \<Rightarrow> bool" where
  "hazard_stall p r1 r2 \<longleftrightarrow>
     prev_mem_load p \<and> prev_rd p \<noteq> 0 \<and> (r1 = prev_rd p \<or> r2 = prev_rd p)"

definition branch_stalls :: "perf_model_t \<Rightarrow> u8 \<Rightarrow> u8 \<Rightarrow> nat" where
  "branch_stalls p r1 r2 =
     of_bool (prev_reg_write p \<and> prev_rd p \<noteq> 0 \<and> (r1 = prev_rd p \<or> r2 = prev_rd p)) +
     of_bool (prev2_mem_load p \<and> prev2_rd p \<noteq> 0 \<and> (r1 = prev2_rd p \<or> r2 = prev2_rd p)) +
     of_bool (hazard_stall p r1 r2)"

lemma branch_stalls_le: "branch_stalls p r1 r2 \<le> 3"
  by (simp add: branch_stalls_def of_bool_def)

lemma mcycle_simps [state_simps]:
  "mcycle (tick s) = mcycle s + 1"
  "mcycle (emit e s) = mcycle s"
  "mcycle (set_reg i v s) = mcycle s"
  "mcycle (set_pc a s) = mcycle s"
  "mcycle (write_csr c v s) = mcycle s"
  "mcycle (PERF_MODEL_CYCLE instr s) = mcycle s + 1"
  "mcycle (PERF_MODEL_BRANCH_TAKEN s) = mcycle s + 1"
  by (simp_all add: tick_def emit_def set_reg_def set_pc_def write_csr_def
      PERF_MODEL_CYCLE_def PERF_MODEL_BRANCH_TAKEN_def Let_def)

lemma mcycle_hazard [state_simps]:
  "mcycle (PERF_MODEL_HAZARD instr s) =
    mcycle s + of_bool (hazard_stall (perf_model s) (i_rs1 instr) (i_rs2 instr))"
  by (simp add: PERF_MODEL_HAZARD_def hazard_stall_def tick_def Let_def)

lemma mcycle_branch_hazard [state_simps]:
  "mcycle (PERF_MODEL_BRANCH_HAZARD instr s) =
    mcycle s + of_nat (branch_stalls (perf_model s) (i_rs1 instr) (i_rs2 instr))"
  by (simp add: PERF_MODEL_BRANCH_HAZARD_def branch_stalls_def hazard_stall_def tick_def Let_def)

lemma mcycle_memory [state_simps]:
  "mcycle (PERF_MODEL_MEMORY n a s) = mcycle s + of_bool (a AND (n - 1) \<noteq> 0)"
  by (simp add: PERF_MODEL_MEMORY_def tick_def)

lemma wf_init_emu: "wf_emu init_emu"
  by (simp add: wf_emu_def init_emu_def c_consts)

lemma init_emu_simps [simp]:
  "console init_emu = []" "mcycle init_emu = 4" "minstret init_emu = 0"
  "pc (cpu init_emu) = 0" "rom (cpu init_emu) = (\<lambda>_. 0)" "ram (cpu init_emu) = (\<lambda>_. 0)"
  "regfile (cpu init_emu) = replicate 32 0"
  by (simp_all add: init_emu_def c_consts)

lemma get_set_reg:
  "unat i < length (regfile (cpu s)) \<Longrightarrow>
    get_reg (set_reg i v s) j = (if j = i then v else get_reg s j)"
  by (auto simp: get_reg_def set_reg_def nth_list_update dest: unsigned_word_eqI)

section \<open>The counters\<close>

text \<open>On RV32 the high and the low counter register together are the 64-bit cycle and
  instruction counters; on RV64 the low register is the whole counter and the high one reads 0.\<close>

lemma csr_counters:
  "push_bit 32 (ucast (read_csr CSR_MCYCLEH s32 :: 32 word)) OR ucast (read_csr CSR_MCYCLE s32) = mcycle s32 \<and>
   push_bit 32 (ucast (read_csr CSR_INSTRETH s32 :: 32 word)) OR ucast (read_csr CSR_INSTRET s32) =
     minstret s32 \<and>
   read_csr CSR_MCYCLE s64 = mcycle (s64 :: 64 emu) \<and> read_csr CSR_MCYCLEH s64 = 0 \<and>
   read_csr CSR_INSTRET s64 = minstret s64 \<and> read_csr CSR_INSTRETH s64 = 0"
proof -
  have halves: "push_bit 32 (ucast (ucast (drop_bit 32 w) :: u32)) OR ucast (ucast w :: u32) = w" for w :: u64
    by (rule bit_word_eqI) (auto simp: bit_simps)
  then show ?thesis
    by (simp add: read_csr_def c_consts)
qed

end
