(* ===== verification/Bus.thy ===== *)
theory Bus
  imports Machine
begin

text \<open>
  The memories of \<^verbatim>\<open>inc/cpu.h\<close> and the bus of \<^verbatim>\<open>inc/bus.h\<close>.

  An operation returns \<open>None\<close> when it indexes an array out of bounds, which is
  undefined behaviour of the C program.  The out parameter \<open>val\<close> of a read is passed
  in and returned, since a read may leave it as it was.
\<close>

section \<open>Array accesses\<close>

definition rom_at :: "'x::len emu \<Rightarrow> 'x word \<Rightarrow> u8 option" where
  "rom_at s i = (if unat i < unat ROM_SIZE then Some (rom (cpu s) (unat i)) else None)"

definition ram_at :: "'x::len emu \<Rightarrow> 'x word \<Rightarrow> u8 option" where
  "ram_at s i = (if unat i < unat RAM_SIZE then Some (ram (cpu s) (unat i)) else None)"

definition ram_set :: "'x word \<Rightarrow> u8 \<Rightarrow> 'x::len emu \<Rightarrow> 'x emu option" where
  "ram_set i b s = (if unat i < unat RAM_SIZE
     then Some (s\<lparr>cpu := (cpu s)\<lparr>ram := (ram (cpu s))(unat i := b)\<rparr>\<rparr>) else None)"

section \<open>Reading a memory\<close>

text \<open>The shift-and-or expressions over the bytes, in the \<open>int\<close>, \<open>uint32_t\<close> and \<open>uint64_t\<close> the source uses.\<close>

definition bytes16 :: "u8 \<Rightarrow> u8 \<Rightarrow> u32" where
  "bytes16 b1 b0 = push_bit 8 (ucast b1) OR ucast b0"

definition bytes32 :: "u8 \<Rightarrow> u8 \<Rightarrow> u8 \<Rightarrow> u8 \<Rightarrow> u32" where
  "bytes32 b3 b2 b1 b0 =
     push_bit 24 (ucast b3) OR push_bit 16 (ucast b2) OR push_bit 8 (ucast b1) OR ucast b0"

definition bytes64 :: "u8 \<Rightarrow> u8 \<Rightarrow> u8 \<Rightarrow> u8 \<Rightarrow> u8 \<Rightarrow> u8 \<Rightarrow> u8 \<Rightarrow> u8 \<Rightarrow> u64" where
  "bytes64 b7 b6 b5 b4 b3 b2 b1 b0 =
     push_bit 56 (ucast b7) OR push_bit 48 (ucast b6) OR push_bit 40 (ucast b5) OR
     push_bit 32 (ucast b4) OR push_bit 24 (ucast b3) OR push_bit 16 (ucast b2) OR
     push_bit 8 (ucast b1) OR ucast b0"

text \<open>
  \<open>rom_read\<close> and \<open>ram_read\<close> have the same body, over their own array and start
  address; \<open>at\<close> is the array access.
\<close>

definition array_read ::
  "('x::len word \<Rightarrow> u8 option) \<Rightarrow> 'x word \<Rightarrow> 'x word \<Rightarrow> u8 \<Rightarrow> 'x word \<Rightarrow> 'x emu \<Rightarrow>
   ('x word \<times> 'x emu) option" where
  "array_read at paddr addr op val s =
     (if op = MEM_B then do { b0 \<leftarrow> at paddr; Some (scast b0, s) }
      else if op = MEM_BU then do { b0 \<leftarrow> at paddr; Some (ucast b0, s) }
      else if op = MEM_H then do {
        let s = PERF_MODEL_MEMORY 2 addr s;
        b1 \<leftarrow> at (paddr + 1); b0 \<leftarrow> at paddr;
        Some (scast (ucast (bytes16 b1 b0) :: u16), s) }
      else if op = MEM_HU then do {
        let s = PERF_MODEL_MEMORY 2 addr s;
        b1 \<leftarrow> at (paddr + 1); b0 \<leftarrow> at paddr;
        Some (scast (bytes16 b1 b0), s) }
      else if op = MEM_W then do {
        let s = PERF_MODEL_MEMORY 4 addr s;
        b3 \<leftarrow> at (paddr + 3); b2 \<leftarrow> at (paddr + 2); b1 \<leftarrow> at (paddr + 1); b0 \<leftarrow> at paddr;
        Some (scast (bytes32 b3 b2 b1 b0), s) }
      else if RV64 TYPE('x) \<and> op = MEM_WU then do {
        let s = PERF_MODEL_MEMORY 4 addr s;
        b3 \<leftarrow> at (paddr + 3); b2 \<leftarrow> at (paddr + 2); b1 \<leftarrow> at (paddr + 1); b0 \<leftarrow> at paddr;
        Some (ucast (bytes32 b3 b2 b1 b0), s) }
      else if RV64 TYPE('x) \<and> op = MEM_D then do {
        let s = PERF_MODEL_MEMORY 8 addr s;
        b7 \<leftarrow> at (paddr + 7); b6 \<leftarrow> at (paddr + 6); b5 \<leftarrow> at (paddr + 5); b4 \<leftarrow> at (paddr + 4);
        b3 \<leftarrow> at (paddr + 3); b2 \<leftarrow> at (paddr + 2); b1 \<leftarrow> at (paddr + 1); b0 \<leftarrow> at paddr;
        Some (scast (bytes64 b7 b6 b5 b4 b3 b2 b1 b0), s) }
      else Some (val, s))"

definition rom_read :: "'x word \<Rightarrow> u8 \<Rightarrow> 'x word \<Rightarrow> 'x::len emu \<Rightarrow> ('x word \<times> 'x emu) option" where
  "rom_read addr op val s =
     (let paddr = addr - ucast ROM_START in array_read (rom_at s) paddr addr op val s)"

definition ram_read :: "'x word \<Rightarrow> u8 \<Rightarrow> 'x word \<Rightarrow> 'x::len emu \<Rightarrow> ('x word \<times> 'x emu) option" where
  "ram_read addr op val s =
     (let paddr = addr - ucast RAM_START in array_read (ram_at s) paddr addr op val s)"

section \<open>Writing the RAM\<close>

definition ram_write :: "'x word \<Rightarrow> u8 \<Rightarrow> 'x word \<Rightarrow> 'x::len emu \<Rightarrow> 'x emu option" where
  "ram_write addr op val s =
     (let paddr = addr - ucast RAM_START in
      if op = MEM_B then ram_set paddr (ucast val) s
      else if op = MEM_H then do {
        let s = PERF_MODEL_MEMORY 2 addr s;
        s \<leftarrow> ram_set paddr (ucast val) s;
        ram_set (paddr + 1) (ucast (drop_bit 8 val)) s }
      else if op = MEM_W then do {
        let s = PERF_MODEL_MEMORY 4 addr s;
        s \<leftarrow> ram_set paddr (ucast val) s;
        s \<leftarrow> ram_set (paddr + 1) (ucast (drop_bit 8 val)) s;
        s \<leftarrow> ram_set (paddr + 2) (ucast (drop_bit 16 val)) s;
        ram_set (paddr + 3) (ucast (drop_bit 24 val)) s }
      else if RV64 TYPE('x) \<and> op = MEM_D then do {
        let s = PERF_MODEL_MEMORY 8 addr s;
        s \<leftarrow> ram_set paddr (ucast val) s;
        s \<leftarrow> ram_set (paddr + 1) (ucast (drop_bit 8 val)) s;
        s \<leftarrow> ram_set (paddr + 2) (ucast (drop_bit 16 val)) s;
        s \<leftarrow> ram_set (paddr + 3) (ucast (drop_bit 24 val)) s;
        s \<leftarrow> ram_set (paddr + 4) (ucast (drop_bit 32 val)) s;
        s \<leftarrow> ram_set (paddr + 5) (ucast (drop_bit 40 val)) s;
        s \<leftarrow> ram_set (paddr + 6) (ucast (drop_bit 48 val)) s;
        ram_set (paddr + 7) (ucast (drop_bit 56 val)) s }
      else Some s)"

section \<open>The bus\<close>

text \<open>The number of bytes an access touches after the first.\<close>

definition op_range :: "'x::len itself \<Rightarrow> u8 \<Rightarrow> u8" where
  "op_range _ op =
     (if op = MEM_H \<or> op = MEM_HU then 1
      else if op = MEM_W then 3
      else if RV64 TYPE('x) \<and> op = MEM_WU then 3
      else if RV64 TYPE('x) \<and> op = MEM_D then 7
      else 0)"

definition in_ram :: "'x::len word \<Rightarrow> u8 \<Rightarrow> bool" where
  "in_ram addr rng \<longleftrightarrow>
     ucast RAM_START \<le> addr \<and> addr < ucast (RAM_START + RAM_SIZE - ucast rng)"

definition in_rom :: "'x::len word \<Rightarrow> u8 \<Rightarrow> bool" where
  "in_rom addr rng \<longleftrightarrow> addr < ucast (ROM_SIZE - ucast rng)"

definition bus_read :: "'x word \<Rightarrow> u8 \<Rightarrow> 'x word \<Rightarrow> 'x::len emu \<Rightarrow> ('x word \<times> 'x emu) option" where
  "bus_read addr op val s =
     (let rng = op_range TYPE('x) op in
      if in_ram addr rng then ram_read addr op val s
      else if in_rom addr rng then rom_read addr op val s
      else Some (val, emit (Warn_unmapped_read (ucast addr)) s))"

definition bus_write :: "'x word \<Rightarrow> u8 \<Rightarrow> 'x word \<Rightarrow> 'x::len emu \<Rightarrow> 'x emu option" where
  "bus_write addr op val s =
     (let rng = op_range TYPE('x) op in
      if in_ram addr rng then ram_write addr op val s
      else if in_rom addr rng then Some (emit (Warn_rom_write (ucast addr)) s)
      else Some (emit (Warn_unmapped_write (ucast addr)) s))"


section \<open>Little-endian values\<close>

definition le_int :: "u8 list \<Rightarrow> int" where
  "le_int bs = horner_sum uint 256 bs"

lemma le_int_simps [simp]: "le_int [] = 0" "le_int (b # bs) = uint b + 256 * le_int bs"
  by (simp_all add: le_int_def)

lemma le_int_range: "0 \<le> le_int bs \<and> le_int bs < 256 ^ length bs"
proof (induction bs)
  case (Cons b bs)
  have "0 \<le> uint b" "uint b < 256" using uint_lt2p [of b] by simp_all
  with Cons show ?case by simp
qed simp

lemma uint_push_8_or:
  fixes w :: "'a::len word"
  assumes "8 < LENGTH('a)" "uint w < 2 ^ (LENGTH('a) - 8)"
  shows "uint (push_bit 8 w OR ucast (b :: u8)) = uint b + 256 * uint w"
proof -
  have high: "k < LENGTH('a) - 8" if "bit w k" for k
  proof -
    have "take_bit (LENGTH('a) - 8) (uint w) = uint w"
      using assms(2) by (simp add: take_bit_int_eq_self)
    with that show ?thesis by (metis bit_take_bit_iff bit_uint_iff bit_imp_le_length)
  qed
  have "uint (push_bit 8 w OR ucast b) = push_bit 8 (uint w) OR uint b"
    using assms(1) by (intro bit_eqI)
      (auto simp: bit_uint_iff bit_or_iff bit_push_bit_iff bit_ucast_iff dest: high bit_imp_le_length)
  also have "\<dots> = push_bit 8 (uint w) + uint b"
    by (rule disjunctive_add_eq_or [symmetric], rule bit_eqI)
      (auto simp: bit_simps bit_uint_iff dest: bit_imp_le_length)
  finally show ?thesis by (simp add: push_bit_eq_mult)
qed

lemma bytes_nested:
  "bytes16 b1 b0 = push_bit 8 (ucast b1) OR ucast b0"
  "bytes32 b3 b2 b1 b0 =
     push_bit 8 (push_bit 8 (push_bit 8 (ucast b3) OR ucast b2) OR ucast b1) OR ucast b0"
  "bytes64 b7 b6 b5 b4 b3 b2 b1 b0 =
     push_bit 8 (push_bit 8 (push_bit 8 (push_bit 8 (push_bit 8 (push_bit 8 (push_bit 8
       (ucast b7) OR ucast b6) OR ucast b5) OR ucast b4) OR ucast b3) OR ucast b2)
       OR ucast b1) OR ucast b0"
  by (simp_all add: bytes16_def bytes32_def bytes64_def push_bit_or push_bit_push_bit or.assoc)

lemma uint_ucast_byte:
  "uint (ucast (b :: u8) :: u32) = le_int [b]" "uint (ucast (b :: u8) :: u64) = le_int [b]"
  by (simp_all add: uint_up_ucast is_up)

lemma uint_push_le32:
  "uint w = le_int bs \<Longrightarrow> length bs \<le> 3 \<Longrightarrow>
    uint (push_bit 8 w OR ucast b :: u32) = le_int (b # bs)"
  using le_int_range [of bs] power_increasing [of "length bs" 3 "256::int"]
  by (subst uint_push_8_or) simp_all

lemma uint_push_le64:
  "uint w = le_int bs \<Longrightarrow> length bs \<le> 7 \<Longrightarrow>
    uint (push_bit 8 w OR ucast b :: u64) = le_int (b # bs)"
  using le_int_range [of bs] power_increasing [of "length bs" 7 "256::int"]
  by (subst uint_push_8_or) simp_all

lemma uint_bytes:
  "uint (bytes16 b1 b0) = le_int [b0, b1]"
  "uint (bytes32 b3 b2 b1 b0) = le_int [b0, b1, b2, b3]"
  "uint (bytes64 b7 b6 b5 b4 b3 b2 b1 b0) = le_int [b0, b1, b2, b3, b4, b5, b6, b7]"
  unfolding bytes_nested
  by (intro uint_push_le32 uint_push_le64 uint_ucast_byte; simp)+

text \<open>The value of a load of \<open>bs\<close>: sign or zero extension of the little-endian integer.\<close>

definition signed_load :: "'x::len itself \<Rightarrow> u8 \<Rightarrow> bool" where
  "signed_load _ op \<longleftrightarrow> op \<in> {MEM_B, MEM_H, MEM_W} \<or> RV64 TYPE('x) \<and> op = MEM_D"

definition unsigned_load :: "'x::len itself \<Rightarrow> u8 \<Rightarrow> bool" where
  "unsigned_load _ op \<longleftrightarrow> op \<in> {MEM_BU, MEM_HU} \<or> RV64 TYPE('x) \<and> op = MEM_WU"

definition load_value :: "u8 \<Rightarrow> u8 list \<Rightarrow> 'x::len word \<Rightarrow> 'x word" where
  "load_value op bs val =
     (if signed_load TYPE('x) op
      then word_of_int (signed_take_bit (8 * length bs - 1) (le_int bs))
      else if unsigned_load TYPE('x) op then word_of_int (le_int bs)
      else val)"

lemma scast_uint: "scast w = word_of_int (signed_take_bit (LENGTH('a) - Suc 0) (uint w))"
  for w :: "'a::len word"
  by (simp only: scast_eq sint_uint)

lemma signed_byte: "scast b = word_of_int (signed_take_bit 7 (le_int [b]))"
  by (simp add: scast_uint)

lemma unsigned_byte: "ucast b = word_of_int (le_int [b])" for b :: u8
  by (simp only: ucast_eq le_int_simps) simp

lemma signed_bytes16:
  "scast (ucast (bytes16 b1 b0) :: u16) = word_of_int (signed_take_bit 15 (le_int [b0, b1]))"
proof -
  have "uint (ucast (bytes16 b1 b0) :: u16) = le_int [b0, b1]"
    using le_int_range [of "[b0, b1]"] uint_bytes(1) [of b1 b0]
    by (simp add: unsigned_ucast_eq take_bit_int_eq_self)
  then show ?thesis by (simp only: scast_uint) simp
qed

lemma unsigned_bytes16: "scast (bytes16 b1 b0) = word_of_int (le_int [b0, b1])"
proof -
  have "signed_take_bit 31 (le_int [b0, b1]) = le_int [b0, b1]"
    using le_int_range [of "[b0, b1]"] by (intro signed_take_bit_int_eq_self) (auto simp del: le_int_simps)
  then show ?thesis by (simp only: scast_uint uint_bytes) simp
qed

lemma wide_bytes:
  "scast (bytes32 b3 b2 b1 b0) = word_of_int (signed_take_bit 31 (le_int [b0, b1, b2, b3]))"
  "ucast (bytes32 b3 b2 b1 b0) = word_of_int (le_int [b0, b1, b2, b3])"
  "scast (bytes64 b7 b6 b5 b4 b3 b2 b1 b0) =
     word_of_int (signed_take_bit 63 (le_int [b0, b1, b2, b3, b4, b5, b6, b7]))"
  by (simp_all only: scast_uint ucast_eq uint_bytes) simp_all

definition op_size :: "'x::len itself \<Rightarrow> u8 \<Rightarrow> nat" where
  "op_size _ op = Suc (unat (op_range TYPE('x) op))"

lemma mem_op_cases:
  obtains "op = MEM_B" | "op = MEM_BU" | "op = MEM_H" | "op = MEM_HU" | "op = MEM_W"
    | "op = MEM_WU" | "op = MEM_D"
    | (other) "op \<noteq> MEM_B" "op \<noteq> MEM_BU" "op \<noteq> MEM_H" "op \<noteq> MEM_HU" "op \<noteq> MEM_W"
      "op \<noteq> MEM_WU" "op \<noteq> MEM_D"
  by blast

lemma op_range_simps:
  "op_range TYPE('x::len) MEM_B = 0" "op_range TYPE('x) MEM_BU = 0"
  "op_range TYPE('x) MEM_H = 1" "op_range TYPE('x) MEM_HU = 1" "op_range TYPE('x) MEM_W = 3"
  "op_range TYPE('x) MEM_WU = (if RV64 TYPE('x) then 3 else 0)"
  "op_range TYPE('x) MEM_D = (if RV64 TYPE('x) then 7 else 0)"
  by (simp_all add: op_range_def c_consts)

lemma op_size_simps:
  "op_size TYPE('x::len) MEM_B = 1" "op_size TYPE('x) MEM_BU = 1"
  "op_size TYPE('x) MEM_H = 2" "op_size TYPE('x) MEM_HU = 2" "op_size TYPE('x) MEM_W = 4"
  "op_size TYPE('x) MEM_WU = (if RV64 TYPE('x) then 4 else 1)"
  "op_size TYPE('x) MEM_D = (if RV64 TYPE('x) then 8 else 1)"
  by (simp_all add: op_size_def op_range_simps)

lemma upt_small:
  "[0..<Suc 0] = [0]" "[0..<2] = [0, 1]" "[0..<4] = [0, 1, 2, 3]"
  "[0..<8] = [0, 1, 2, 3, 4, 5, 6, 7]"
  by (simp_all add: upt_rec)

section \<open>The contract of a memory array\<close>

text \<open>
  What the read operation needs of the array behind it: an access below the size \<open>n\<close>
  returns the cell, and an access beyond it fails.
\<close>

locale byte_array =
  fixes at :: "'x::len word \<Rightarrow> u8 option"
    and cell :: "nat \<Rightarrow> u8"
    and n :: nat
  assumes at_in: "unat i < n \<Longrightarrow> at i = Some (cell (unat i))"
    and at_out: "n \<le> unat i \<Longrightarrow> at i = None"
begin

lemma at_offset:
  assumes "unat i + k < n" and no_wrap: "n < 2 ^ LENGTH('x)"
  shows "at (i + of_nat k) = Some (cell (unat i + k))"
proof -
  have "unat (i + of_nat k) = unat i + k"
    using assms no_wrap by (simp add: unat_plus_of_nat)
  with assms at_in show ?thesis by metis
qed

lemma array_read_in:
  assumes "unat paddr + unat (op_range TYPE('x) op) < n" and no_wrap: "n < 2 ^ LENGTH('x)"
  shows "array_read at paddr addr op val s =
    Some (load_value op (map (\<lambda>k. cell (unat paddr + k)) [0..<op_size TYPE('x) op]) val,
      PERF_MODEL_MEMORY (of_nat (op_size TYPE('x) op)) addr s)"
proof -
  have at0: "unat paddr < n \<Longrightarrow> at paddr = Some (cell (unat paddr))" by (rule at_in)
  have at: "at (paddr + numeral k) = Some (cell (unat paddr + numeral k))"
    if "unat paddr + numeral k < n" for k
    using at_offset [OF that no_wrap] by simp
  have at1: "unat paddr + 1 < n \<Longrightarrow> at (paddr + 1) = Some (cell (unat paddr + 1))"
    using at_offset [of paddr 1] no_wrap by simp
  note reads = at0 at1 at array_read_def PERF_MODEL_MEMORY_def
    load_value_def signed_load_def unsigned_load_def upt_small
    signed_byte unsigned_byte signed_bytes16 unsigned_bytes16 wide_bytes
  show ?thesis
  proof (cases op rule: mem_op_cases)
    case other
    then show ?thesis by (simp add: reads op_size_def op_range_def)
  qed (use assms in \<open>(cases "RV64 TYPE('x)"; simp add: op_range_simps op_size_simps;
      simp add: reads c_consts del: le_int_simps)+\<close>)
qed

end

section \<open>The flat view of the memory\<close>

text \<open>
  The address space of the emulated machine as one partial map from byte addresses: the
  ROM, the RAM, and nothing elsewhere.
\<close>

definition mem_byte :: "'x::len emu \<Rightarrow> nat \<Rightarrow> u8 option" where
  "mem_byte s a =
     (if unat RAM_START \<le> a \<and> a < unat RAM_START + unat RAM_SIZE
      then Some (ram (cpu s) (a - unat RAM_START))
      else if a < unat ROM_SIZE then Some (rom (cpu s) a) else None)"

definition mem_bytes :: "'x::len emu \<Rightarrow> nat \<Rightarrow> nat \<Rightarrow> u8 list option" where
  "mem_bytes s a k = those (map (\<lambda>i. mem_byte s (a + i)) [0..<k])"

lemma unat_size_minus:
  fixes c :: u32 and r :: u8
  assumes "32 \<le> LENGTH('x::len)" "255 \<le> unat c"
  shows "unat (ucast (c - ucast r) :: 'x word) = unat c - unat r"
proof -
  have r: "unat (ucast r :: u32) = unat r" by (rule unat_ucast_up) simp
  have "unat r \<le> unat c" using unat_less [of r] assms(2) by simp
  then have "unat (c - ucast r) = unat c - unat r"
    by (simp add: unat_sub_if' r)
  then show ?thesis using assms(1) by (simp add: unat_ucast_up)
qed

lemma in_ram_iff:
  fixes addr :: "'x::len word"
  assumes "xlen_ok TYPE('x)"
  shows "in_ram addr rng \<longleftrightarrow>
    unat RAM_START \<le> unat addr \<and> unat addr + unat rng < unat RAM_START + unat RAM_SIZE"
proof -
  have r: "unat (RAM_START + RAM_SIZE) = unat RAM_START + unat RAM_SIZE"
    by (simp add: c_consts)
  have "255 \<le> unat (RAM_START + RAM_SIZE)" by (simp add: c_consts)
  from unat_size_minus [OF xlen_ge_32 [OF assms] this, of rng] xlen_ge_32 [OF assms] r
  show ?thesis
    by (auto simp: in_ram_def word_le_nat_alt word_less_nat_alt unat_ucast_up)
qed

lemma in_rom_iff:
  fixes addr :: "'x::len word"
  assumes "xlen_ok TYPE('x)"
  shows "in_rom addr rng \<longleftrightarrow> unat addr + unat rng < unat ROM_SIZE"
proof -
  have "255 \<le> unat ROM_SIZE" by (simp add: c_consts)
  from unat_size_minus [OF xlen_ge_32 [OF assms] this, of rng] show ?thesis
    by (simp only: in_rom_def word_less_nat_alt) auto
qed

text \<open>The two memories meet the contract.\<close>

interpretation rom_mem: byte_array "rom_at s" "rom (cpu s)" "unat ROM_SIZE" for s :: "'x::len emu"
  by unfold_locales (simp_all add: rom_at_def)

interpretation ram_mem: byte_array "ram_at s" "ram (cpu s)" "unat RAM_SIZE" for s :: "'x::len emu"
  by unfold_locales (simp_all add: ram_at_def)

lemma sizes_no_wrap:
  assumes "xlen_ok TYPE('x::len)"
  shows "unat ROM_SIZE < 2 ^ LENGTH('x)" "unat RAM_SIZE < 2 ^ LENGTH('x)"
  using assms by (auto simp: xlen_ok_def c_consts)

lemma those_map_Some: "those (map (\<lambda>i. Some (f i)) xs) = Some (map f xs)"
  by (induction xs) simp_all

lemma those_None: "None \<in> set xs \<Longrightarrow> those xs = None"
  by (induction xs) (auto split: option.splits)

lemma op_range_le: "unat (op_range TYPE('x::len) op) \<le> 7"
  by (simp add: op_range_def)

lemma bus_read_eq:
  fixes addr :: "'x::len word"
  assumes ok: "xlen_ok TYPE('x)"
  shows "bus_read addr op val s =
    Some (case mem_bytes s (unat addr) (op_size TYPE('x) op) of
        Some bs \<Rightarrow> (load_value op bs val,
          PERF_MODEL_MEMORY (of_nat (op_size TYPE('x) op)) addr s)
      | None \<Rightarrow> (val, emit (Warn_unmapped_read (ucast addr)) s))"
proof -
  let ?r = "op_range TYPE('x) op"
  let ?ram = "unat (ucast RAM_START :: 'x word)"
  have ram: "?ram = unat RAM_START" using xlen_ge_32 [OF ok] by (simp add: unat_ucast_up)
  have rom: "unat (addr - ucast ROM_START) = unat addr" by (simp add: c_consts)
  consider (ram) "in_ram addr ?r" | (rom) "\<not> in_ram addr ?r" "in_rom addr ?r"
    | (none) "\<not> in_ram addr ?r" "\<not> in_rom addr ?r" by blast
  then show ?thesis
  proof cases
    case ram
    then have b: "unat RAM_START \<le> unat addr"
        "unat addr + unat ?r < unat RAM_START + unat RAM_SIZE"
      by (simp_all add: in_ram_iff [OF ok])
    have p: "unat (addr - ucast RAM_START) = unat addr - unat RAM_START"
      using b(1) by (simp add: unat_sub_if' \<open>?ram = unat RAM_START\<close>)
    have "mem_bytes s (unat addr) (op_size TYPE('x) op) =
        those (map (\<lambda>i. Some (ram (cpu s) (unat addr - unat RAM_START + i))) [0..<op_size TYPE('x) op])"
      unfolding mem_bytes_def using b
      by (intro arg_cong [where f = those] map_cong refl) (auto simp: mem_byte_def op_size_def)
    moreover have "unat (addr - ucast RAM_START) + unat ?r < unat RAM_SIZE" using b p by linarith
    ultimately show ?thesis using ram
      by (simp add: bus_read_def ram_read_def those_map_Some p
          ram_mem.array_read_in [OF _ sizes_no_wrap(2) [OF ok]])
  next
    case rom
    then have b: "unat addr + unat ?r < unat ROM_SIZE" by (simp add: in_rom_iff [OF ok])
    have "mem_bytes s (unat addr) (op_size TYPE('x) op) =
        those (map (\<lambda>i. Some (rom (cpu s) (unat addr + i))) [0..<op_size TYPE('x) op])"
      unfolding mem_bytes_def using b
      by (intro arg_cong [where f = those] map_cong refl) (auto simp: mem_byte_def op_size_def c_consts)
    with rom b show ?thesis
      by (simp add: bus_read_def rom_read_def those_map_Some \<open>unat (addr - _) = _\<close>
          rom_mem.array_read_in [OF _ sizes_no_wrap(1) [OF ok]])
  next
    case none
    then have "mem_byte s (unat addr) = None \<or> mem_byte s (unat addr + unat ?r) = None"
      using op_range_le [where 'x = 'x and op = op]
      by (auto simp: in_ram_iff [OF ok] in_rom_iff [OF ok] mem_byte_def c_consts)
    then have "mem_bytes s (unat addr) (op_size TYPE('x) op) = None"
      unfolding mem_bytes_def by (intro those_None) (force simp: op_size_def image_iff)
    with none show ?thesis by (simp add: bus_read_def)
  qed
qed

section \<open>Stores\<close>

text \<open>The accesses \<open>ram_write\<close> knows; for any other function code it does nothing.\<close>

definition is_store :: "'x::len itself \<Rightarrow> u8 \<Rightarrow> bool" where
  "is_store _ op \<longleftrightarrow> op \<in> {MEM_B, MEM_H, MEM_W} \<or> RV64 TYPE('x) \<and> op = MEM_D"

definition word_bytes :: "nat \<Rightarrow> 'x::len word \<Rightarrow> u8 list" where
  "word_bytes k w = map (\<lambda>i. ucast (drop_bit (8 * i) w)) [0..<k]"

definition put_bytes :: "u8 list \<Rightarrow> nat \<Rightarrow> (nat \<Rightarrow> u8) \<Rightarrow> nat \<Rightarrow> u8" where
  "put_bytes bs a f = (\<lambda>i. if a \<le> i \<and> i < a + length bs then bs ! (i - a) else f i)"

definition set_ram :: "(nat \<Rightarrow> u8) \<Rightarrow> 'x::len emu \<Rightarrow> 'x emu" where
  "set_ram f s = s\<lparr>cpu := (cpu s)\<lparr>ram := f\<rparr>\<rparr>"

lemma length_word_bytes [simp]: "length (word_bytes k w) = k"
  by (simp add: word_bytes_def)

lemma set_ram_simps [state_simps]:
  "rom (cpu (set_ram f s)) = rom (cpu s)"
  "ram (cpu (set_ram f s)) = f"
  "regfile (cpu (set_ram f s)) = regfile (cpu s)"
  "pc (cpu (set_ram f s)) = pc (cpu s)"
  "perf_model (set_ram f s) = perf_model s"
  "mcycle (set_ram f s) = mcycle s"
  "minstret (set_ram f s) = minstret s"
  "console (set_ram f s) = console s"
  "get_reg (set_ram f s) r = get_reg s r"
  by (simp_all add: set_ram_def get_reg_def)

lemma set_ram_set_ram: "set_ram g (set_ram f s) = set_ram g s"
  by (simp add: set_ram_def)

lemma ram_set_eq:
  "unat i < unat RAM_SIZE \<Longrightarrow> ram_set i b s = Some (set_ram ((ram (cpu s))(unat i := b)) s)"
  by (simp add: ram_set_def set_ram_def)

lemma put_bytes_simps:
  "put_bytes [] a f = f"
  "put_bytes (b # bs) a f = put_bytes bs (Suc a) (f(a := b))"
  by (auto simp: put_bytes_def fun_eq_iff nth_Cons' Suc_le_eq)

lemma PERF_MODEL_MEMORY_set_ram:
  "PERF_MODEL_MEMORY k a (set_ram f s) = set_ram f (PERF_MODEL_MEMORY k a s)"
  by (simp add: PERF_MODEL_MEMORY_def set_ram_def tick_def)

lemmas mem_op_defs =
  MEM_B_def MEM_BU_def MEM_H_def MEM_HU_def MEM_W_def MEM_WU_def MEM_D_def

lemma Suc_offset:
  "Suc (Suc (Suc n)) = n + 3" "Suc (n + numeral k) = n + numeral (k + num.One)"
  by simp_all

lemma ram_write_eq:
  fixes addr :: "'x::len word"
  assumes ok: "xlen_ok TYPE('x)"
    and b: "unat (addr - ucast RAM_START) + unat (op_range TYPE('x) op) < unat RAM_SIZE"
  shows "ram_write addr op val s = Some (if is_store TYPE('x) op
     then PERF_MODEL_MEMORY (of_nat (op_size TYPE('x) op)) addr
       (set_ram (put_bytes (word_bytes (op_size TYPE('x) op) val)
          (unat (addr - ucast RAM_START)) (ram (cpu s))) s)
     else s)"
proof -
  define p where "p = addr - ucast RAM_START"
  have k: "ram_set (p + numeral k) v t =
      Some (set_ram ((ram (cpu t))(unat p + numeral k := v)) t)"
    if "unat p + numeral k < unat RAM_SIZE" for k v and t :: "'x emu"
  proof -
    have "unat (p + numeral k) = unat p + numeral k"
      using that sizes_no_wrap(2) [OF ok] unat_plus_of_nat [of p "numeral k"] by simp
    with that show ?thesis by (metis ram_set_eq)
  qed
  have k1: "ram_set (p + 1) v t = Some (set_ram ((ram (cpu t))(unat p + 1 := v)) t)"
    if "unat p + 1 < unat RAM_SIZE" for v and t :: "'x emu"
    using k [of num.One v t] that by simp
  have b: "unat p + unat (op_range TYPE('x) op) < unat RAM_SIZE"
    using b by (simp add: p_def)
  note writes = ram_write_def p_def [symmetric] ram_set_eq [of p] k k1 is_store_def word_bytes_def
    upt_small put_bytes_simps PERF_MODEL_MEMORY_set_ram Suc_offset state_simps set_ram_set_ram
  show ?thesis
  proof (cases op rule: mem_op_cases)
    case other
    then show ?thesis by (simp add: ram_write_def is_store_def)
  qed (use b in \<open>(cases "RV64 TYPE('x)"; simp add: op_range_simps op_size_simps;
      simp add: writes mem_op_defs)+\<close>)
qed

text \<open>An access of one operation that lies within the RAM, or within the ROM.\<close>

definition ram_range :: "'x::len itself \<Rightarrow> nat \<Rightarrow> u8 \<Rightarrow> bool" where
  "ram_range _ a op \<longleftrightarrow> unat RAM_START \<le> a \<and>
     a + op_size TYPE('x) op \<le> unat RAM_START + unat RAM_SIZE"

definition rom_range :: "'x::len itself \<Rightarrow> nat \<Rightarrow> u8 \<Rightarrow> bool" where
  "rom_range _ a op \<longleftrightarrow> a + op_size TYPE('x) op \<le> unat ROM_SIZE"

lemma bus_write_eq:
  fixes addr :: "'x::len word"
  assumes ok: "xlen_ok TYPE('x)"
  shows "bus_write addr op val s = Some
    (if ram_range TYPE('x) (unat addr) op
     then if is_store TYPE('x) op
       then PERF_MODEL_MEMORY (of_nat (op_size TYPE('x) op)) addr
         (set_ram (put_bytes (word_bytes (op_size TYPE('x) op) val)
            (unat addr - unat RAM_START) (ram (cpu s))) s)
       else s
     else if rom_range TYPE('x) (unat addr) op then emit (Warn_rom_write (ucast addr)) s
     else emit (Warn_unmapped_write (ucast addr)) s)"
proof (cases "in_ram addr (op_range TYPE('x) op)")
  case True
  then have b: "unat RAM_START \<le> unat addr"
      "unat addr + unat (op_range TYPE('x) op) < unat RAM_START + unat RAM_SIZE"
    by (simp_all add: in_ram_iff [OF ok])
  have p: "unat (addr - ucast RAM_START) = unat addr - unat RAM_START"
    using b(1) xlen_ge_32 [OF ok] by (simp add: unat_sub_if' unat_ucast_up)
  have "unat (addr - ucast RAM_START) + unat (op_range TYPE('x) op) < unat RAM_SIZE"
    using b p by linarith
  with True b show ?thesis
    by (simp add: bus_write_def ram_write_eq [OF ok] ram_range_def op_size_def p)
next
  case False
  then show ?thesis
    by (auto simp: bus_write_def in_ram_iff [OF ok] in_rom_iff [OF ok] ram_range_def
        rom_range_def op_size_def)
qed

lemma nth_word_bytes: "i < k \<Longrightarrow> word_bytes k w ! i = ucast (drop_bit (8 * i) w)"
  by (simp add: word_bytes_def)

lemma le_int_word_bytes: "le_int (word_bytes k w) = take_bit (8 * k) (uint w)"
  for w :: "'x::len word"
proof (induction k arbitrary: w)
  case 0
  then show ?case by (simp add: word_bytes_def)
next
  case (Suc k)
  have "word_bytes (Suc k) w = ucast w # word_bytes k (drop_bit 8 w)"
    by (simp add: word_bytes_def upt_conv_Cons map_Suc_upt [symmetric] comp_def drop_bit_drop_bit
        ac_simps del: upt_Suc)
  moreover have "uint (ucast w :: u8) = uint w mod 256"
    by (simp add: unsigned_ucast_eq take_bit_eq_mod)
  moreover have "uint (drop_bit 8 w) = uint w div 256"
    by (simp only: uint_drop_bit) simp
  ultimately show ?case
    by (simp add: Suc.IH take_bit_eq_mod power_add zmod_zmult2_eq)
qed

lemma load_word_bytes:
  fixes w :: "'x::len word"
  assumes "is_store TYPE('x) op"
  shows "load_value op (word_bytes (op_size TYPE('x) op) w) val =
    signed_take_bit (8 * op_size TYPE('x) op - 1) w"
proof -
  let ?k = "op_size TYPE('x) op"
  have "0 < ?k" by (simp add: op_size_def)
  have "word_of_int (signed_take_bit (8 * ?k - 1) (uint w)) = signed_take_bit (8 * ?k - 1) w"
    by (rule bit_word_eqI) (auto simp: bit_simps)
  with assms \<open>0 < ?k\<close> show ?thesis
    by (auto simp: load_value_def le_int_word_bytes is_store_def signed_load_def
        signed_take_bit_take_bit)
qed

lemma mem_byte_set_ram:
  "mem_byte (set_ram f s) a =
    (if unat RAM_START \<le> a \<and> a < unat RAM_START + unat RAM_SIZE
     then Some (f (a - unat RAM_START)) else mem_byte s a)"
  by (simp add: mem_byte_def state_simps)

lemma mem_byte_simps [state_simps]:
  "mem_byte (tick s) = mem_byte s"
  "mem_byte (emit e s) = mem_byte s"
  "mem_byte (set_reg r v s) = mem_byte s"
  "mem_byte (set_pc p s) = mem_byte s"
  "mem_byte (PERF_MODEL_CYCLE instr s) = mem_byte s"
  "mem_byte (PERF_MODEL_HAZARD instr s) = mem_byte s"
  "mem_byte (PERF_MODEL_BRANCH_HAZARD instr s) = mem_byte s"
  "mem_byte (PERF_MODEL_BRANCH_TAKEN s) = mem_byte s"
  "mem_byte (PERF_MODEL_MEMORY n x s) = mem_byte s"
  "mem_byte (write_csr c v s) = mem_byte s"
  by (simp_all add: fun_eq_iff mem_byte_def state_simps)

lemma mem_byte_put_bytes:
  assumes "ram_range TYPE('x::len) b op" "length bs = op_size TYPE('x) op"
  shows "mem_byte (set_ram (put_bytes bs (b - unat RAM_START) (ram (cpu s))) s) a =
    (if b \<le> a \<and> a < b + length bs then Some (bs ! (a - b)) else mem_byte s a)"
  unfolding mem_byte_set_ram using assms
  by (auto simp: put_bytes_def ram_range_def mem_byte_def)

text \<open>What a store leaves in the memory.\<close>

lemma bus_write_mem_byte:
  fixes addr :: "'x::len word"
  assumes ok: "xlen_ok TYPE('x)" and w: "bus_write addr op val s = Some s'"
  shows "mem_byte s' a =
    (if ram_range TYPE('x) (unat addr) op \<and> is_store TYPE('x) op \<and>
        unat addr \<le> a \<and> a < unat addr + op_size TYPE('x) op
     then Some (ucast (drop_bit (8 * (a - unat addr)) val))
     else mem_byte s a)"
proof -
  have "mem_byte (set_ram (put_bytes (word_bytes (op_size TYPE('x) op) val)
      (unat addr - unat RAM_START) (ram (cpu s))) s) a =
    (if unat addr \<le> a \<and> a < unat addr + op_size TYPE('x) op
     then Some (ucast (drop_bit (8 * (a - unat addr)) val)) else mem_byte s a)"
    if "ram_range TYPE('x) (unat addr) op"
    by (auto simp: mem_byte_put_bytes [OF that] nth_word_bytes)
  with w show ?thesis
    by (auto simp: bus_write_eq [OF ok] state_simps split: if_splits)
qed

lemma bus_write_read:
  fixes addr :: "'x::len word"
  assumes ok: "xlen_ok TYPE('x)" and w: "bus_write addr op val s = Some s'"
    and r: "ram_range TYPE('x) (unat addr) op" and st: "is_store TYPE('x) op"
  shows "bus_read addr op x s' = Some (signed_take_bit (8 * op_size TYPE('x) op - 1) val,
    PERF_MODEL_MEMORY (of_nat (op_size TYPE('x) op)) addr s')"
proof -
  have "mem_byte s' (unat addr + i) = Some (ucast (drop_bit (8 * i) val))"
    if "i < op_size TYPE('x) op" for i
    using that r st by (simp add: bus_write_mem_byte [OF ok w])
  then have "mem_bytes s' (unat addr) (op_size TYPE('x) op) =
      those (map (\<lambda>i. Some (ucast (drop_bit (8 * i) val))) [0..<op_size TYPE('x) op])"
    unfolding mem_bytes_def by (intro arg_cong [where f = those] map_cong refl) simp
  then show ?thesis
    by (simp add: bus_read_eq [OF ok] those_map_Some load_word_bytes [OF st, unfolded word_bytes_def])
qed

section \<open>What an access leaves alone\<close>

lemma bus_total:
  fixes addr :: "'x::len word"
  assumes "xlen_ok TYPE('x)"
  shows "\<exists>v s'. bus_read addr op val s = Some (v, s')" "\<exists>s'. bus_write addr op val s = Some s'"
  by (simp_all add: bus_read_eq [OF assms] bus_write_eq [OF assms] split: option.splits)

lemma bus_read_frame:
  fixes addr :: "'x::len word"
  assumes ok: "xlen_ok TYPE('x)" and r: "bus_read addr op val s = Some (v, s')"
  shows "cpu s' = cpu s" "perf_model s' = perf_model s" "minstret s' = minstret s"
    "\<exists>d\<le>1. mcycle s' = mcycle s + of_nat d" "mem_byte s' = mem_byte s"
  using r
  by (auto simp: bus_read_eq [OF ok] state_simps intro!: exI [of _ "of_bool _"]
      split: option.splits)

lemma bus_write_frame:
  fixes addr :: "'x::len word"
  assumes ok: "xlen_ok TYPE('x)" and w: "bus_write addr op val s = Some s'"
  shows "rom (cpu s') = rom (cpu s)" "regfile (cpu s') = regfile (cpu s)"
    "pc (cpu s') = pc (cpu s)" "perf_model s' = perf_model s" "minstret s' = minstret s"
    "\<exists>d\<le>1. mcycle s' = mcycle s + of_nat d"
  using w
  by (auto simp: bus_write_eq [OF ok] state_simps intro!: exI [of _ "of_bool _"]
      split: if_splits)

section \<open>Properties\<close>

text \<open>C11. A read on the bus never leaves the arrays, whatever the address and the function
  code: it returns the extended little-endian value of the bytes when all of them exist, and a warning and
  the old value when one does not; an unaligned access costs a cycle.\<close>

theorem bus_read_flat_memory:
  fixes addr :: "'x::len word"
  assumes "xlen_ok TYPE('x)"
  shows "bus_read addr op val s =
    Some (case mem_bytes s (unat addr) (op_size TYPE('x) op) of
        Some bs \<Rightarrow> (load_value op bs val,
          PERF_MODEL_MEMORY (of_nat (op_size TYPE('x) op)) addr s)
      | None \<Rightarrow> (val, emit (Warn_unmapped_read (ucast addr)) s))"
  by (rule bus_read_eq [OF assms])

theorem bus_read_flat_memory_witness:
  "\<exists>s. bus_read (0x7FFFE :: 32 word) MEM_W 0 init_emu = Some (0, s) \<and>
     console s = [Warn_unmapped_read 0x7FFFE]"
proof -
  have "mem_bytes (init_emu :: 32 emu) (unat (0x7FFFE :: 32 word)) (op_size TYPE(32) MEM_W) = None"
    by (simp add: op_size_simps) (simp add: mem_bytes_def mem_byte_def upt_small c_consts)
  then show ?thesis
    unfolding bus_read_flat_memory [OF xlen_ok_simps(1)] by (simp add: emit_def init_emu_def)
qed

text \<open>C12. After a write on the bus the bytes of the access hold the bytes of the value when the
  access lies within the RAM, and every other byte of the address space, the ROM included, is unchanged.\<close>

theorem bus_write_then_memory:
  fixes addr :: "'x::len word"
  assumes "xlen_ok TYPE('x)" and "bus_write addr op val s = Some s'"
  shows "mem_byte s' a =
    (if ram_range TYPE('x) (unat addr) op \<and> is_store TYPE('x) op \<and>
        unat addr \<le> a \<and> a < unat addr + op_size TYPE('x) op
     then Some (ucast (drop_bit (8 * (a - unat addr)) val))
     else mem_byte s a)"
  by (rule bus_write_mem_byte [OF assms])

theorem bus_write_then_memory_witness:
  "\<exists>s'. bus_write (0x20000010 :: 64 word) MEM_H 0xABCD init_emu = Some s' \<and>
     mem_byte s' 0x20000010 = Some 0xCD \<and> mem_byte s' 0x20000011 = Some 0xAB \<and>
     mem_byte s' 0x20000012 = Some 0"
proof -
  obtain s' where w: "bus_write (0x20000010 :: 64 word) MEM_H 0xABCD init_emu = Some s'"
    using bus_total(2) [OF xlen_ok_simps(2)] by blast
  note m = bus_write_then_memory [OF xlen_ok_simps(2) w]
  have "mem_byte s' 0x20000010 = Some 0xCD" "mem_byte s' 0x20000011 = Some 0xAB"
      "mem_byte s' 0x20000012 = Some 0"
    by (simp_all only: m) (simp_all add: ram_range_def op_size_simps, simp_all add: is_store_def mem_byte_def c_consts)
  with w show ?thesis by blast
qed

text \<open>C13. Loading what was stored at an address of the RAM with the same width gives the value
  cut to the width and sign-extended, and changes no register or memory.\<close>

theorem store_load_roundtrip:
  fixes addr :: "'x::len word"
  assumes "xlen_ok TYPE('x)" and "bus_write addr op val s = Some s'"
    and "ram_range TYPE('x) (unat addr) op" and "is_store TYPE('x) op"
  shows "\<exists>s''. bus_read addr op x s' = Some (signed_take_bit (8 * op_size TYPE('x) op - 1) val, s'') \<and>
    cpu s'' = cpu s'"
  using bus_write_read [OF assms] by (simp add: state_simps)

theorem store_load_roundtrip_witness:
  "\<exists>s' s''. bus_write (0x20000010 :: 64 word) MEM_H 0xABCD init_emu = Some s' \<and>
     bus_read (0x20000010 :: 64 word) MEM_H 0 s' = Some (0xFFFFFFFFFFFFABCD, s'')"
proof -
  obtain s' where w: "bus_write (0x20000010 :: 64 word) MEM_H 0xABCD init_emu = Some s'"
    using bus_total(2) [OF xlen_ok_simps(2)] by blast
  have "ram_range TYPE(64) (unat (0x20000010 :: 64 word)) MEM_H" "is_store TYPE(64) MEM_H"
    by (simp_all add: ram_range_def op_size_simps is_store_def) (simp add: c_consts)
  from store_load_roundtrip [OF xlen_ok_simps(2) w this, of 0] w show ?thesis
    by (auto simp: op_size_simps)
qed

end
