(* ===== verification/Mul.thy ===== *)
theory Mul
  imports Arch
begin

text \<open>
  \<^verbatim>\<open>inc/mul.h\<close>: multiplication, division and remainder of the M extension.  On RV64 the
  file has three versions of the high products, one per compiler family: 128-bit
  integers (GCC, Clang), the \<^verbatim>\<open>__umulh\<close> intrinsic (MSVC) and a software product.
  The lemmas show that each of them is the high half of the exact product, so that the
  versions agree, and that division and remainder follow the RISC-V tables for a zero
  divisor and for overflow.
\<close>

section \<open>Definitions\<close>

definition rv_mul :: "'x::len word \<Rightarrow> 'x word \<Rightarrow> 'x word" where
  "rv_mul a b = a * b"

subsection \<open>Word-sized operations of RV64M\<close>

definition INT32_MIN :: u32 where "INT32_MIN = - 2147483647 - 1"
definition UINT32_MAX :: u32 where "UINT32_MAX = 4294967295"

definition rv_mulw :: "u32 \<Rightarrow> u32 \<Rightarrow> u32" where
  "rv_mulw a b = a * b"

definition rv_divw :: "u32 \<Rightarrow> u32 \<Rightarrow> u32" where
  "rv_divw a b =
     (if b = 0 then - 1
      else if a = INT32_MIN \<and> b = - 1 then INT32_MIN
      else c_sdiv a b)"

definition rv_divuw :: "u32 \<Rightarrow> u32 \<Rightarrow> u32" where
  "rv_divuw a b = (if b = 0 then UINT32_MAX else a div b)"

definition rv_remw :: "u32 \<Rightarrow> u32 \<Rightarrow> u32" where
  "rv_remw a b =
     (if b = 0 then a
      else if a = INT32_MIN \<and> b = - 1 then 0
      else c_smod a b)"

definition rv_remuw :: "u32 \<Rightarrow> u32 \<Rightarrow> u32" where
  "rv_remuw a b = (if b = 0 then a else a mod b)"

subsection \<open>High products of RV64M\<close>

definition mulhudw :: "u64 \<Rightarrow> u64 \<Rightarrow> u64" where
  "mulhudw a b =
     (let a_lo = ucast (ucast a :: u32); a_hi = drop_bit 32 a;
          b_lo = ucast (ucast b :: u32); b_hi = drop_bit 32 b;
          p00 = a_lo * b_lo;
          p10 = a_hi * b_lo;
          p01 = a_lo * b_hi;
          p11 = a_hi * b_hi;
          cross = p10 + drop_bit 32 p00
      in p11 + drop_bit 32 cross + drop_bit 32 (p01 + ucast (ucast cross :: u32)))"

text \<open>With the intrinsics \<^verbatim>\<open>__mulh\<close> and \<^verbatim>\<open>__umulh\<close> as parameters.\<close>

definition rv_mulh_msvc :: "(u64 \<Rightarrow> u64 \<Rightarrow> u64) \<Rightarrow> u64 \<Rightarrow> u64 \<Rightarrow> u64" where
  "rv_mulh_msvc mulh a b = mulh a b"

definition rv_mulhsu_msvc :: "(u64 \<Rightarrow> u64 \<Rightarrow> u64) \<Rightarrow> u64 \<Rightarrow> u64 \<Rightarrow> u64" where
  "rv_mulhsu_msvc umulh a b =
     (let res = umulh a b in if a <s 0 then res - b else res)"

definition rv_mulhu_msvc :: "(u64 \<Rightarrow> u64 \<Rightarrow> u64) \<Rightarrow> u64 \<Rightarrow> u64 \<Rightarrow> u64" where
  "rv_mulhu_msvc umulh a b = umulh a b"

text \<open>With 128-bit integers.\<close>

definition rv_mulh_gnu :: "u64 \<Rightarrow> u64 \<Rightarrow> u64" where
  "rv_mulh_gnu a b = ucast (drop_bit 64 ((scast a :: u128) * scast b))"

definition rv_mulhsu_gnu :: "u64 \<Rightarrow> u64 \<Rightarrow> u64" where
  "rv_mulhsu_gnu a b = ucast (drop_bit 64 ((scast a :: u128) * ucast b))"

definition rv_mulhu_gnu :: "u64 \<Rightarrow> u64 \<Rightarrow> u64" where
  "rv_mulhu_gnu a b = ucast (drop_bit 64 ((ucast a :: u128) * ucast b))"

text \<open>In software.\<close>

definition rv_mulh_soft :: "u64 \<Rightarrow> u64 \<Rightarrow> u64" where
  "rv_mulh_soft a b =
     (let res = mulhudw a b;
          res = (if a <s 0 then res - b else res)
      in if b <s 0 then res - a else res)"

definition rv_mulhsu_soft :: "u64 \<Rightarrow> u64 \<Rightarrow> u64" where
  "rv_mulhsu_soft a b =
     (let res = mulhudw a b in if a <s 0 then res - b else res)"

definition rv_mulhu_soft :: "u64 \<Rightarrow> u64 \<Rightarrow> u64" where
  "rv_mulhu_soft a b = mulhudw a b"

subsection \<open>High products of RV32M\<close>

definition rv_mulh_rv32 :: "u32 \<Rightarrow> u32 \<Rightarrow> u32" where
  "rv_mulh_rv32 a b = ucast (drop_bit 32 ((scast a :: u64) * scast b))"

definition rv_mulhsu_rv32 :: "u32 \<Rightarrow> u32 \<Rightarrow> u32" where
  "rv_mulhsu_rv32 a b = ucast (drop_bit 32 ((scast a :: u64) * ucast b))"

definition rv_mulhu_rv32 :: "u32 \<Rightarrow> u32 \<Rightarrow> u32" where
  "rv_mulhu_rv32 a b = ucast (drop_bit 32 ((ucast a :: u64) * ucast b))"

subsection \<open>The version the build selects\<close>

text \<open>The conditional compilation of the file, for a GCC or Clang build.\<close>

definition rv_mulh :: "'x::len word \<Rightarrow> 'x word \<Rightarrow> 'x word" where
  "rv_mulh a b = (if RV64 TYPE('x) then ucast (rv_mulh_gnu (ucast a) (ucast b))
     else ucast (rv_mulh_rv32 (ucast a) (ucast b)))"

definition rv_mulhsu :: "'x::len word \<Rightarrow> 'x word \<Rightarrow> 'x word" where
  "rv_mulhsu a b = (if RV64 TYPE('x) then ucast (rv_mulhsu_gnu (ucast a) (ucast b))
     else ucast (rv_mulhsu_rv32 (ucast a) (ucast b)))"

definition rv_mulhu :: "'x::len word \<Rightarrow> 'x word \<Rightarrow> 'x word" where
  "rv_mulhu a b = (if RV64 TYPE('x) then ucast (rv_mulhu_gnu (ucast a) (ucast b))
     else ucast (rv_mulhu_rv32 (ucast a) (ucast b)))"

subsection \<open>Division and remainder\<close>

definition rv_div :: "'x::len word \<Rightarrow> 'x word \<Rightarrow> 'x word" where
  "rv_div a b =
     (if b = 0 then - 1
      else if a = SREG_MIN \<and> b = - 1 then SREG_MIN
      else c_sdiv a b)"

definition rv_divu :: "'x::len word \<Rightarrow> 'x word \<Rightarrow> 'x word" where
  "rv_divu a b = (if b = 0 then REG_MAX else a div b)"

definition rv_rem :: "'x::len word \<Rightarrow> 'x word \<Rightarrow> 'x word" where
  "rv_rem a b =
     (if b = 0 then a
      else if a = SREG_MIN \<and> b = - 1 then 0
      else c_smod a b)"

definition rv_remu :: "'x::len word \<Rightarrow> 'x word \<Rightarrow> 'x word" where
  "rv_remu a b = (if b = 0 then a else a mod b)"

section \<open>High products\<close>

lemma high_half_word_of_int:
  assumes "LENGTH('b::len) = 2 * LENGTH('a::len)"
  shows "(ucast (drop_bit LENGTH('a) (word_of_int z :: 'b word)) :: 'a word) =
    word_of_int (z div 2 ^ LENGTH('a))"
proof (rule bit_word_eqI)
  fix n assume "n < LENGTH('a)"
  then show "bit (ucast (drop_bit LENGTH('a) (word_of_int z :: 'b word)) :: 'a word) n =
      bit (word_of_int (z div 2 ^ LENGTH('a)) :: 'a word) n"
    unfolding drop_bit_eq_div [symmetric] using assms
    by (simp add: bit_ucast_iff bit_drop_bit_eq bit_word_of_int_iff)
qed

lemma high_product:
  fixes a b :: "'a::len word"
  assumes len: "LENGTH('b::len) = 2 * LENGTH('a)"
  shows "(ucast (drop_bit LENGTH('a) ((scast a :: 'b word) * scast b)) :: 'a word) =
      word_of_int (sint a * sint b div 2 ^ LENGTH('a))"
    and "(ucast (drop_bit LENGTH('a) ((scast a :: 'b word) * ucast b)) :: 'a word) =
      word_of_int (sint a * uint b div 2 ^ LENGTH('a))"
    and "(ucast (drop_bit LENGTH('a) ((ucast a :: 'b word) * ucast b)) :: 'a word) =
      word_of_int (uint a * uint b div 2 ^ LENGTH('a))"
proof -
  note high = high_half_word_of_int [OF len]
  have "(scast a :: 'b word) * scast b = word_of_int (sint a * sint b)"
    by (simp only: scast_eq of_int_mult)
  with high show "(ucast (drop_bit LENGTH('a) ((scast a :: 'b word) * scast b)) :: 'a word) =
      word_of_int (sint a * sint b div 2 ^ LENGTH('a))" by metis
  have "(scast a :: 'b word) * ucast b = word_of_int (sint a * uint b)"
    by (simp only: scast_eq ucast_eq of_int_mult)
  with high show "(ucast (drop_bit LENGTH('a) ((scast a :: 'b word) * ucast b)) :: 'a word) =
      word_of_int (sint a * uint b div 2 ^ LENGTH('a))" by metis
  have "(ucast a :: 'b word) * ucast b = word_of_int (uint a * uint b)"
    by (simp only: ucast_eq of_int_mult)
  with high show "(ucast (drop_bit LENGTH('a) ((ucast a :: 'b word) * ucast b)) :: 'a word) =
      word_of_int (uint a * uint b div 2 ^ LENGTH('a))" by metis
qed

lemma rv_mulh_gnu_eq: "rv_mulh_gnu a b = word_of_int (sint a * sint b div 2 ^ 64)"
  using high_product(1) [of a b, where 'b = 128] by (simp add: rv_mulh_gnu_def)

lemma rv_mulhsu_gnu_eq: "rv_mulhsu_gnu a b = word_of_int (sint a * uint b div 2 ^ 64)"
  using high_product(2) [of a b, where 'b = 128] by (simp add: rv_mulhsu_gnu_def)

lemma rv_mulhu_gnu_eq: "rv_mulhu_gnu a b = word_of_int (uint a * uint b div 2 ^ 64)"
  using high_product(3) [of a b, where 'b = 128] by (simp add: rv_mulhu_gnu_def)

lemma rv_mulh_rv32_eq: "rv_mulh_rv32 a b = word_of_int (sint a * sint b div 2 ^ 32)"
  using high_product(1) [of a b, where 'b = 64] by (simp add: rv_mulh_rv32_def)

lemma rv_mulhsu_rv32_eq: "rv_mulhsu_rv32 a b = word_of_int (sint a * uint b div 2 ^ 32)"
  using high_product(2) [of a b, where 'b = 64] by (simp add: rv_mulhsu_rv32_def)

lemma rv_mulhu_rv32_eq: "rv_mulhu_rv32 a b = word_of_int (uint a * uint b div 2 ^ 32)"
  using high_product(3) [of a b, where 'b = 64] by (simp add: rv_mulhu_rv32_def)

subsection \<open>The software product\<close>

lemma div_add_carry: "0 < k \<Longrightarrow> (c + d) div k = c div k + (d + c mod k) div k" for k :: nat
proof -
  assume k: "0 < k"
  have "c + d = (d + c mod k) + k * (c div k)"
    using mult_div_mod_eq [of k c] by linarith
  then have "(c + d) div k = ((d + c mod k) + k * (c div k)) div k" by (rule arg_cong)
  also have "\<dots> = c div k + (d + c mod k) div k"
    using k by (intro div_mult_self2) simp
  finally show ?thesis .
qed

text \<open>Schoolbook multiplication of two-digit numbers in base \<open>2 ^ 32\<close>.\<close>

lemma schoolbook_high:
  fixes ah al bh bl :: nat
  defines "c \<equiv> ah * bl + al * bl div 2 ^ 32"
  shows "(ah * 2 ^ 32 + al) * (bh * 2 ^ 32 + bl) div 2 ^ 64 =
    ah * bh + c div 2 ^ 32 + (al * bh + c mod 2 ^ 32) div 2 ^ 32"
proof -
  define d where "d = al * bh"
  have "al * bl = al * bl div 2 ^ 32 * 2 ^ 32 + al * bl mod 2 ^ 32" by simp
  then have "(ah * 2 ^ 32 + al) * (bh * 2 ^ 32 + bl) =
      ah * bh * 2 ^ 64 + ((c + d) * 2 ^ 32 + al * bl mod 2 ^ 32)"
    unfolding c_def d_def by (simp add: algebra_simps)
  then have "(ah * 2 ^ 32 + al) * (bh * 2 ^ 32 + bl) div 2 ^ 64 =
      ah * bh + ((c + d) * 2 ^ 32 + al * bl mod 2 ^ 32) div 2 ^ 64"
    by simp
  also have "((c + d) * 2 ^ 32 + al * bl mod 2 ^ 32) div 2 ^ 64 = (c + d) div 2 ^ 32"
    using div_mult2_eq [of "(c + d) * 2 ^ 32 + al * bl mod 2 ^ 32" "2 ^ 32" "2 ^ 32"] by simp
  also have "\<dots> = c div 2 ^ 32 + (d + c mod 2 ^ 32) div 2 ^ 32"
    by (rule div_add_carry) simp
  finally show ?thesis by (simp add: d_def)
qed

lemma mult_add_bound_32:
  fixes x y z :: nat
  assumes "x < 2 ^ 32" "y < 2 ^ 32" "z < 2 ^ 32"
  shows "x * y + z < 2 ^ 64"
proof -
  have "x * y \<le> (2 ^ 32 - 1) * (2 ^ 32 - 1)" using assms by (intro mult_mono) auto
  with assms show ?thesis by simp
qed

lemma unat_mult_add_64:
  fixes u v w :: u64
  assumes "unat u < 2 ^ 32" "unat v < 2 ^ 32" "unat w < 2 ^ 32"
  shows "unat (u * v + w) = unat u * unat v + unat w"
    and "unat (u * v) = unat u * unat v"
  using mult_add_bound_32 [OF assms] mult_add_bound_32 [OF assms(1,2), of 0]
  by (simp_all add: unat_word_ariths)

lemma unat_low_32: "unat (ucast (ucast w :: u32) :: u64) = unat w mod 2 ^ 32" for w :: u64
proof -
  have "(ucast (ucast w :: u32) :: u64) = take_bit 32 w"
    by (rule bit_word_eqI) (auto simp: bit_ucast_iff bit_take_bit_iff)
  then show ?thesis by (metis unat_take_bit)
qed

lemma unat_mulhudw: "unat (mulhudw a b) = unat a * unat b div 2 ^ 64"
proof -
  define al ah bl bh where "al = unat a mod 2 ^ 32" and "ah = unat a div 2 ^ 32"
    and "bl = unat b mod 2 ^ 32" and "bh = unat b div 2 ^ 32"
  note d = al_def ah_def bl_def bh_def
  have lt: "al < 2 ^ 32" "ah < 2 ^ 32" "bl < 2 ^ 32" "bh < 2 ^ 32"
    using unat_less [of a] unat_less [of b]
    by (simp_all add: d less_mult_imp_div_less)
  define c where "c = ah * bl + al * bl div 2 ^ 32"
  let ?al = "ucast (ucast a :: u32) :: u64" and ?bl = "ucast (ucast b :: u32) :: u64"
  let ?ah = "drop_bit 32 a" and ?bh = "drop_bit 32 b"
  let ?cross = "?ah * ?bl + drop_bit 32 (?al * ?bl)"
  have u: "unat ?al = al" "unat ?ah = ah" "unat ?bl = bl" "unat ?bh = bh"
    by (simp_all only: d unat_low_32 unat_drop_bit)
  have q: "al * bl div 2 ^ 32 < 2 ^ 32"
    using mult_add_bound_32 [OF lt(1,3), of 0] by (simp add: less_mult_imp_div_less)
  have p00: "unat (drop_bit 32 (?al * ?bl)) = al * bl div 2 ^ 32"
    using unat_mult_add_64(2) [of ?al ?bl 0] lt by (simp only: unat_drop_bit u) simp
  have cross: "unat ?cross = c"
    using unat_mult_add_64(1) [of ?ah ?bl "drop_bit 32 (?al * ?bl)"] lt q
    by (simp only: p00 u c_def)
  have cl: "unat (ucast (ucast ?cross :: u32) :: u64) = c mod 2 ^ 32"
    by (simp only: unat_low_32 cross)
  have low: "unat (?al * ?bh + ucast (ucast ?cross :: u32)) = al * bh + c mod 2 ^ 32"
    using unat_mult_add_64(1) [of ?al ?bh "ucast (ucast ?cross :: u32)"] lt
    by (simp only: cl u) simp
  have p11: "unat (?ah * ?bh) = ah * bh"
    using unat_mult_add_64(2) [of ?ah ?bh 0] lt by (simp only: u) simp
  have prod: "unat a * unat b div 2 ^ 64 =
      ah * bh + c div 2 ^ 32 + (al * bh + c mod 2 ^ 32) div 2 ^ 32"
    using schoolbook_high [of ah al bh bl] by (simp add: c_def d)
  have "unat a * unat b < 2 ^ 64 * 2 ^ 64"
    using unat_less [of a] unat_less [of b] by (intro mult_strict_mono) simp_all
  then have fits: "ah * bh + c div 2 ^ 32 + (al * bh + c mod 2 ^ 32) div 2 ^ 32 < 2 ^ 64"
    unfolding prod [symmetric] by (rule less_mult_imp_div_less)
  have sum: "unat (x + y + z) = unat x + unat y + unat z"
    if "unat x + unat y + unat z < 2 ^ 64" for x y z :: u64
    using that by (simp add: unat_word_ariths)
  have parts: "unat (?ah * ?bh) = ah * bh" "unat (drop_bit 32 ?cross) = c div 2 ^ 32"
    "unat (drop_bit 32 (?al * ?bh + ucast (ucast ?cross :: u32))) =
      (al * bh + c mod 2 ^ 32) div 2 ^ 32"
    by (simp_all only: p11 unat_drop_bit cross low)
  show ?thesis
    unfolding mulhudw_def Let_def prod parts [symmetric]
    by (rule sum) (simp only: parts fits)
qed

lemma sless_0_iff: "a <s 0 \<longleftrightarrow> sint a < 0" for a :: "'x::len word"
  by (simp add: word_sless_alt)

lemma mulhudw_eq: "mulhudw a b = word_of_int (uint a * uint b div 2 ^ 64)"
proof -
  have "uint (mulhudw a b) = uint a * uint b div 2 ^ 64"
    by (simp only: uint_nat unat_mulhudw zdiv_int of_nat_mult of_nat_power) simp
  then show ?thesis by (metis word_of_int_uint)
qed

lemma sint_eq_uint_minus: "sint a = uint a - (if a <s 0 then 2 ^ LENGTH('x) else 0)"
  for a :: "'x::len word"
proof -
  obtain n where n: "LENGTH('x) = Suc n" using len_not_eq_0 by (metis not0_implies_Suc)
  have "sint a = take_bit (Suc n) (uint a) - 2 ^ Suc n * of_bool (bit (uint a) n)"
    using n by (simp add: sint_uint signed_take_bit_eq_take_bit_minus)
  moreover have "take_bit (Suc n) (uint a) = uint a"
    using n by (simp add: take_bit_int_eq_self flip: n)
  moreover have "bit (uint a) n \<longleftrightarrow> a <s 0"
    using n bit_last_iff [of a] by (simp add: sless_0_iff bit_uint_iff)
  ultimately show ?thesis using n by simp
qed

lemma div_sub_mult: "(x - 2 ^ n * k) div 2 ^ n = x div 2 ^ n - k" for x k :: int
  using div_mult_self2 [of "2 ^ n" x "- k"] by simp

lemma rv_mulhsu_soft_eq: "rv_mulhsu_soft a b = rv_mulhsu_gnu a b"
proof -
  define k where "k = (if a <s 0 then uint b else 0)"
  have "sint a * uint b = uint a * uint b - 2 ^ 64 * k"
    by (simp add: k_def sint_eq_uint_minus [of a] algebra_simps)
  then have "sint a * uint b div 2 ^ 64 = uint a * uint b div 2 ^ 64 - k"
    by (simp only: div_sub_mult)
  then show ?thesis
    by (simp add: rv_mulhsu_gnu_eq rv_mulhsu_soft_def mulhudw_eq k_def)
qed

lemma rv_mulh_soft_eq: "rv_mulh_soft a b = rv_mulh_gnu a b"
proof -
  define k where "k = (if a <s 0 then uint b else 0) + (if b <s 0 then uint a else 0)
    - (if a <s 0 \<and> b <s 0 then 2 ^ 64 else 0)"
  have "sint a * sint b = uint a * uint b - 2 ^ 64 * k"
    by (simp add: k_def sint_eq_uint_minus [of a] sint_eq_uint_minus [of b] algebra_simps)
  then have "sint a * sint b div 2 ^ 64 = uint a * uint b div 2 ^ 64 - k"
    by (simp only: div_sub_mult)
  then show ?thesis
    by (simp add: rv_mulh_gnu_eq rv_mulh_soft_def mulhudw_eq k_def)
qed
section \<open>Division and remainder\<close>

lemma sint_eq_0_iff: "sint w = 0 \<longleftrightarrow> w = 0" for w :: "'x::len word"
  by (metis signed_0 signed_word_eqI)

lemma sint_minus_exp:
  "sint (- (2 ^ (LENGTH('x) - Suc 0)) :: 'x::len word) = - (2 ^ (LENGTH('x) - Suc 0))"
proof -
  have "sint (word_of_int (- (2 ^ (LENGTH('x) - 1))) :: 'x word) =
      signed_take_bit (LENGTH('x) - 1) (- (2 ^ (LENGTH('x) - 1)))"
    by (rule sint_sbintrunc')
  also have "\<dots> = - (2 ^ (LENGTH('x) - 1))"
    by (rule signed_take_bit_int_eq_self) simp_all
  finally show ?thesis by simp
qed

lemma word_eq_SREG_MIN_iff:
  fixes a :: "'x::len word"
  assumes "xlen_ok TYPE('x)"
  shows "a = SREG_MIN \<longleftrightarrow> sint a = - (2 ^ (LENGTH('x) - 1))"
  using assms sint_minus_exp [where 'x = 'x] by (metis SREG_MIN_eq signed_word_eqI One_nat_def)

lemma word_eq_minus_1_iff: "a = - 1 \<longleftrightarrow> sint a = - 1" for a :: "'x::len word"
  by (metis signed_word_eqI sint_n1)

lemma abs_sdiv_less: 
  fixes k l :: int
  assumes "l \<noteq> 0" "l \<noteq> -1" "l \<noteq> 1" "k \<noteq> 0"
  shows "\<bar>k sdiv l\<bar> < \<bar>k\<bar>"
proof -
  have "\<bar>k\<bar> div \<bar>l\<bar> < \<bar>k\<bar>" using assms by (intro int_div_less_self) auto
  moreover have "0 \<le> \<bar>k\<bar> div \<bar>l\<bar>" using assms by (simp add: pos_imp_zdiv_nonneg_iff)
  ultimately show ?thesis by (simp add: signed_divide_int_def abs_mult abs_sgn_eq)
qed

lemma sdiv_in_range:
  fixes a b :: "'x::len word"
  assumes "b \<noteq> 0" "\<not> (sint a = - (2 ^ (LENGTH('x) - 1)) \<and> b = - 1)"
  shows "sint (c_sdiv a b) = sint a sdiv sint b"
proof -
  let ?h = "2 ^ (LENGTH('x) - 1) :: int"
  have r: "- ?h \<le> sint a" "sint a < ?h" using sint_ge [of a] sint_lt [of a] by simp_all
  have b0: "sint b \<noteq> 0" using assms(1) by (simp add: sint_eq_0_iff)
  have "- ?h \<le> sint a sdiv sint b \<and> sint a sdiv sint b < ?h"
  proof (cases "sint b = - 1")
    case True
    then have "b = - 1" by (simp add: word_eq_minus_1_iff)
    with assms(2) r True show ?thesis by auto
  next
    case False
    show ?thesis
    proof (cases "sint b = 1 \<or> sint a = 0")
      case True then show ?thesis using r by (auto simp del: One_nat_def)
    next
      case F2: False
      with False b0 abs_sdiv_less [of "sint b" "sint a"] r show ?thesis by auto
    qed
  qed
  then show ?thesis
    unfolding c_sdiv_def by (simp add: sint_sbintrunc' signed_take_bit_int_eq_self)
qed
lemma smod_in_range:
  fixes a b :: "'x::len word"
  assumes "b \<noteq> 0"
  shows "sint (c_smod a b) = sint a smod sint b"
proof -
  let ?h = "2 ^ (LENGTH('x) - 1) :: int"
  have r: "- ?h \<le> sint b" "sint b < ?h" using sint_ge [of b] sint_lt [of b] by simp_all
  have b0: "sint b \<noteq> 0" using assms(1) by (simp add: sint_eq_0_iff)
  have "0 \<le> \<bar>sint a\<bar> mod \<bar>sint b\<bar>" using b0 by simp
  then have "\<bar>sint a smod sint b\<bar> = \<bar>sint a\<bar> mod \<bar>sint b\<bar>"
    using b0 by (auto simp: signed_modulo_int_def abs_mult abs_sgn_eq)
  then have "\<bar>sint a smod sint b\<bar> < \<bar>sint b\<bar>" using b0 by simp
  then have "- ?h \<le> sint a smod sint b \<and> sint a smod sint b < ?h" using r by auto
  then show ?thesis
    unfolding c_smod_def by (simp add: sint_sbintrunc' signed_take_bit_int_eq_self)
qed

text \<open>The RISC-V division tables, in exact integers.\<close>

lemma sint_rv_div:
  fixes a b :: "'x::len word"
  assumes "xlen_ok TYPE('x)"
  shows "sint (rv_div a b) =
    (if b = 0 then - 1
     else if sint a = - (2 ^ (LENGTH('x) - 1)) \<and> b = - 1 then - (2 ^ (LENGTH('x) - 1))
     else sint a sdiv sint b)"
  using sdiv_in_range [of b a] word_eq_SREG_MIN_iff [OF assms, of a]
    sint_minus_exp [where 'x = 'x]
  by (simp add: rv_div_def) (simp add: SREG_MIN_eq [OF assms])

lemma sint_rv_rem:
  fixes a b :: "'x::len word"
  assumes "xlen_ok TYPE('x)"
  shows "sint (rv_rem a b) = (if b = 0 then sint a else sint a smod sint b)"
  using smod_in_range [of b a] by (auto simp: rv_rem_def signed_modulo_int_def)

lemma rv_divu_eq: "xlen_ok TYPE('x) \<Longrightarrow> rv_divu a b = (if b = 0 then - 1 else a div b)"
  for a b :: "'x::len word"
  by (simp add: rv_divu_def REG_MAX_eq)

lemma minus_half_exp: "- (2 ^ (LENGTH('x) - 1)) = (2 ^ (LENGTH('x) - 1) :: 'x::len word)"
proof -
  have "2 ^ (LENGTH('x) - 1) + 2 ^ (LENGTH('x) - 1) = (2 ^ Suc (LENGTH('x) - 1) :: 'x word)"
    by (simp only: power_Suc mult_2)
  also have "\<dots> = 0"
    by (simp only: Suc_diff_1 [OF len_gt_0] word_exp_length_eq_0)
  finally show ?thesis by (simp only: neg_eq_iff_add_eq_0)
qed

lemma rv_div_rem_identity:
  fixes a b :: "'x::len word"
  assumes "xlen_ok TYPE('x)"
  shows "rv_div a b * b + rv_rem a b = a"
proof -
  have "SREG_MIN * (- 1) = (SREG_MIN :: 'x word)"
    by (simp only: SREG_MIN_eq [OF assms] mult_minus_right mult_1_right minus_minus minus_half_exp)
  then show ?thesis
    using c_sdiv_smod [of a b] by (auto simp: rv_div_def rv_rem_def)
qed

lemma rv_divu_remu_identity: "rv_divu a b * b + rv_remu a b = a"
  for a b :: "'x::len word"
  by (simp add: rv_divu_def rv_remu_def word_mod_div_equality)

text \<open>The word-sized operations are the register-sized ones at width 32.\<close>

lemma rv_divw_eq: "rv_divw = rv_div" and rv_remw_eq: "rv_remw = rv_rem"
  and rv_divuw_eq: "rv_divuw = rv_divu" and rv_remuw_eq: "rv_remuw = rv_remu"
  by (simp_all add: fun_eq_iff rv_divw_def rv_div_def rv_remw_def rv_rem_def rv_divuw_def
      rv_divu_def rv_remuw_def rv_remu_def INT32_MIN_def UINT32_MAX_def SREG_MIN_def REG_MAX_def)

text \<open>The selected high products, for both register widths.\<close>

lemma ucast_id_len: "LENGTH('a::len) = LENGTH('b::len) \<Longrightarrow>
    (word_of_int z :: 'b word) = ucast (word_of_int z :: 'a word)"
  by (intro bit_word_eqI) (auto simp: bit_ucast_iff bit_word_of_int_iff)

lemma sint_ucast_len: "LENGTH('a) = LENGTH('b) \<Longrightarrow> sint (ucast w :: 'b::len word) = sint w"
  for w :: "'a::len word"
  by (intro bit_eqI) (auto simp: bit_sint_iff bit_ucast_iff word_bit_beyond)

lemma uint_ucast_len: "LENGTH('a) = LENGTH('b) \<Longrightarrow> uint (ucast w :: 'b::len word) = uint w"
  for w :: "'a::len word"
  by (intro bit_eqI) (auto simp: bit_uint_iff bit_ucast_iff word_bit_beyond)

lemma rv_mulh_eq:
  fixes a b :: "'x::len word"
  assumes "xlen_ok TYPE('x)"
  shows "rv_mulh a b = word_of_int (sint a * sint b div 2 ^ LENGTH('x))"
    and "rv_mulhsu a b = word_of_int (sint a * uint b div 2 ^ LENGTH('x))"
    and "rv_mulhu a b = word_of_int (uint a * uint b div 2 ^ LENGTH('x))"
  using assms
  by (cases rule: xlen_cases;
      simp add: rv_mulh_def rv_mulhsu_def rv_mulhu_def
        rv_mulh_gnu_eq rv_mulhsu_gnu_eq rv_mulhu_gnu_eq
        rv_mulh_rv32_eq rv_mulhsu_rv32_eq rv_mulhu_rv32_eq sint_ucast_len uint_ucast_len
        ucast_id_len [symmetric])+

section \<open>Properties\<close>

text \<open>C32. The schoolbook multiplication \<open>mulhudw\<close> is the high half of the exact 128-bit
  product, the wrapped product the low half.\<close>

theorem mulhudw_full_product: "unat a * unat b = 2 ^ 64 * unat (mulhudw a b) + unat (a * b)"
proof -
  have "unat (a * b) = unat a * unat b mod 2 ^ 64" by (simp add: unat_word_ariths)
  then show ?thesis by (simp only: unat_mulhudw mult_div_mod_eq)
qed

text \<open>C33. The software, the MSVC and the 128-bit version of the three high products return the
  same value, when the intrinsics return the high half of the exact product as documented.\<close>

theorem high_products_agree:
  assumes "\<And>x y. mulh x y = word_of_int (sint x * sint y div 2 ^ 64)"
    and "\<And>x y. umulh x y = word_of_int (uint x * uint y div 2 ^ 64)"
  shows "rv_mulh_soft a b = rv_mulh_gnu a b \<and> rv_mulh_msvc mulh a b = rv_mulh_gnu a b \<and>
    rv_mulhsu_soft a b = rv_mulhsu_gnu a b \<and> rv_mulhsu_msvc umulh a b = rv_mulhsu_gnu a b \<and>
    rv_mulhu_soft a b = rv_mulhu_gnu a b \<and> rv_mulhu_msvc umulh a b = rv_mulhu_gnu a b"
proof -
  have "umulh = mulhudw" by (intro ext) (simp add: assms(2) mulhudw_eq)
  then have "rv_mulhsu_msvc umulh a b = rv_mulhsu_soft a b"
    by (simp add: rv_mulhsu_msvc_def rv_mulhsu_soft_def)
  then show ?thesis
    by (simp add: rv_mulh_soft_eq rv_mulhsu_soft_eq rv_mulh_msvc_def rv_mulhu_msvc_def
        rv_mulhu_soft_def mulhudw_eq rv_mulhu_gnu_eq rv_mulh_gnu_eq assms)
qed

theorem high_products_agree_witness:
  "rv_mulh_soft (- 3) 5 = rv_mulh_gnu (- 3) 5 \<and> rv_mulhsu_soft (- 3) 5 = rv_mulhsu_gnu (- 3) 5 \<and>
   rv_mulhsu_msvc (\<lambda>x y. word_of_int (uint x * uint y div 2 ^ 64)) (- 3) 5 = - 1"
  using high_products_agree [of "\<lambda>x y. word_of_int (sint x * sint y div 2 ^ 64)"
      "\<lambda>x y. word_of_int (uint x * uint y div 2 ^ 64)" "- 3" 5]
  by (simp add: rv_mulhsu_gnu_eq)

text \<open>C34. Division and remainder follow the RISC-V tables: truncation towards zero, all ones and
  the dividend for a zero divisor, and the overflow of the least value divided by -1.\<close>

theorem division_tables:
  fixes a b :: "'x::len word"
  assumes "xlen_ok TYPE('x)"
  shows "sint (rv_div a b) =
      (if b = 0 then - 1
       else if sint a = - (2 ^ (LENGTH('x) - 1)) \<and> sint b = - 1 then - (2 ^ (LENGTH('x) - 1))
       else sint a sdiv sint b) \<and>
    sint (rv_rem a b) = (if b = 0 then sint a else sint a smod sint b) \<and>
    uint (rv_divu a b) = (if b = 0 then 2 ^ LENGTH('x) - 1 else uint a div uint b) \<and>
    uint (rv_remu a b) = (if b = 0 then uint a else uint a mod uint b)"
  by (simp add: sint_rv_div [OF assms] sint_rv_rem [OF assms] rv_divu_eq [OF assms] rv_remu_def
      word_eq_minus_1_iff uint_div uint_mod unsigned_minus_1_eq_mask mask_eq_exp_minus_1)

theorem division_tables_witness:
  "sint (rv_div (- 7 :: 32 word) 2) = - 3 \<and> sint (rv_rem (- 7 :: 32 word) 2) = - 1 \<and>
   sint (rv_div (- 2147483648 :: 32 word) (- 1)) = - 2147483648"
  using division_tables [of "- 7 :: 32 word" 2] division_tables [of "- 2147483648 :: 32 word" "- 1"]
  by simp

text \<open>Quotient times divisor plus remainder is the dividend for every pair of operands,
  the zero divisor and the overflow included, signed and unsigned.\<close>

lemma division_identity:
  fixes a b :: "'x::len word"
  assumes "xlen_ok TYPE('x)"
  shows "rv_div a b * b + rv_rem a b = a \<and> rv_divu a b * b + rv_remu a b = a"
  by (simp add: rv_div_rem_identity [OF assms] rv_divu_remu_identity)

lemma division_identity_example:
  "rv_div (7 :: 64 word) 0 * 0 + rv_rem 7 0 = 7 \<and> rv_divu (7 :: 64 word) 2 * 2 + rv_remu 7 2 = 7"
  using division_identity [of "7 :: 64 word" 0] division_identity [of "7 :: 64 word" 2] by simp

end
