(* ===== verification/Core.thy ===== *)
theory Core
  imports Bus Mul
begin

text \<open>
  \<^verbatim>\<open>src/cpu/core.c\<close>: the function \<open>process_instr\<close>, which decodes one instruction
  word and executes it.

  Each case of the outer \<open>switch\<close> is a definition of its own, with the inner
  \<open>switch\<close> over the function code as a separate definition that returns the value the
  case stores into the destination register, or \<open>None\<close> for the \<open>default\<close> label that
  stores nothing.  \<open>m_ext\<close> is the build flag \<^verbatim>\<open>RV32M\<close> or \<^verbatim>\<open>RV64M\<close> of the
  selected width.  The local variables \<open>instr\<close>, \<open>next_pc\<close> and
  \<open>exec_continue\<close> are passed and returned beside the state.
\<close>

section \<open>The inner switches\<close>

text \<open>Values stored by the cases over \<open>funct3\<close> and \<open>aluop\<close>; \<open>a\<close> and \<open>b\<close> are the operands.\<close>

definition m_op :: "u8 \<Rightarrow> 'x::len word \<Rightarrow> 'x word \<Rightarrow> 'x word option" where
  "m_op funct3 a b =
     (if funct3 = M_MUL then Some (rv_mul a b)
      else if funct3 = M_MULH then Some (rv_mulh a b)
      else if funct3 = M_MULHSU then Some (rv_mulhsu a b)
      else if funct3 = M_MULHU then Some (rv_mulhu a b)
      else if funct3 = M_DIV then Some (rv_div a b)
      else if funct3 = M_DIVU then Some (rv_divu a b)
      else if funct3 = M_REM then Some (rv_rem a b)
      else if funct3 = M_REMU then Some (rv_remu a b)
      else None)"

definition alu_op :: "u8 \<Rightarrow> 'x::len word \<Rightarrow> 'x word \<Rightarrow> 'x word option" where
  "alu_op aluop a b =
     (if aluop = ALU_ADD then Some (a + b)
      else if aluop = ALU_SUB then Some (a - b)
      else if aluop = ALU_SLL then Some (push_bit (unat (b AND SHIFT_MAX)) a)
      else if aluop = ALU_SRL then Some (drop_bit (unat (b AND SHIFT_MAX)) a)
      else if aluop = ALU_SRA then Some (SRA a (unat (b AND SHIFT_MAX)))
      else if aluop = ALU_SLT then Some (of_bool (a <s b))
      else if aluop = ALU_SLTU then Some (of_bool (a < b))
      else if aluop = ALU_AND then Some (a AND b)
      else if aluop = ALU_OR then Some (a OR b)
      else if aluop = ALU_XOR then Some (a XOR b)
      else None)"

text \<open>\<open>bit5\<close> is bit 5 of the function code in the high immediate bits.\<close>

definition imm_op :: "u8 \<Rightarrow> bool \<Rightarrow> 'x::len word \<Rightarrow> 'x word \<Rightarrow> 'x word option" where
  "imm_op aluop bit5 a imm =
     (if aluop = ALU_ADD then Some (a + imm)
      else if aluop = ALU_SLL then Some (push_bit (unat (imm AND SHIFT_MAX)) a)
      else if aluop = ALU_SRL then
        (if bit5 then Some (SRA a (unat (imm AND SHIFT_MAX)))
         else Some (drop_bit (unat (imm AND SHIFT_MAX)) a))
      else if aluop = ALU_SLT then Some (of_bool (a <s imm))
      else if aluop = ALU_SLTU then Some (of_bool (a < imm))
      else if aluop = ALU_AND then Some (a AND imm)
      else if aluop = ALU_OR then Some (a OR imm)
      else if aluop = ALU_XOR then Some (a XOR imm)
      else None)"

definition mw_op :: "u8 \<Rightarrow> 'x::len word \<Rightarrow> 'x word \<Rightarrow> 'x word option" where
  "mw_op funct3 a b =
     (if funct3 = M_MUL then Some (scast (rv_mulw (ucast a) (ucast b)))
      else if funct3 = M_DIV then Some (scast (rv_divw (ucast a) (ucast b)))
      else if funct3 = M_DIVU then Some (scast (rv_divuw (ucast a) (ucast b)))
      else if funct3 = M_REM then Some (scast (rv_remw (ucast a) (ucast b)))
      else if funct3 = M_REMU then Some (scast (rv_remuw (ucast a) (ucast b)))
      else None)"

definition aluw_op :: "u8 \<Rightarrow> 'x::len word \<Rightarrow> 'x word \<Rightarrow> 'x word option" where
  "aluw_op aluop a b =
     (if aluop = ALU_ADD then Some (scast (ucast a + ucast b :: u32))
      else if aluop = ALU_SUB then Some (scast (ucast a - ucast b :: u32))
      else if aluop = ALU_SLL then
        Some (scast (push_bit (unat (b AND SHIFT_MAX_WORD)) (ucast a) :: u32))
      else if aluop = ALU_SRL then
        Some (scast (drop_bit (unat (b AND SHIFT_MAX_WORD)) (ucast a) :: u32))
      else if aluop = ALU_SRA then
        Some (scast (SRAW (ucast a) (unat (b AND SHIFT_MAX_WORD))))
      else None)"

definition immw_op :: "u8 \<Rightarrow> bool \<Rightarrow> 'x::len word \<Rightarrow> 'x word \<Rightarrow> 'x word option" where
  "immw_op aluop bit5 a imm =
     (if aluop = ALU_ADD then Some (scast (ucast a + ucast imm :: u32))
      else if aluop = ALU_SLL then
        Some (scast (push_bit (unat (imm AND SHIFT_MAX_WORD)) (ucast a) :: u32))
      else if aluop = ALU_SRL then
        (if bit5 then Some (scast (SRAW (ucast a) (unat (imm AND SHIFT_MAX_WORD))))
         else Some (scast (drop_bit (unat (imm AND SHIFT_MAX_WORD)) (ucast a) :: u32)))
      else None)"

definition branch_taken :: "u8 \<Rightarrow> 'x::len word \<Rightarrow> 'x word \<Rightarrow> bool" where
  "branch_taken type a b =
     (if type = BRANCH_EQ then a = b
      else if type = BRANCH_NE then a \<noteq> b
      else if type = BRANCH_LT then a <s b
      else if type = BRANCH_GE then b \<le>s a
      else if type = BRANCH_LTU then a < b
      else if type = BRANCH_GEU then b \<le> a
      else False)"

section \<open>The cases of the outer switch\<close>

definition instr_init :: "'x::len instr_t" where
  "instr_init = \<lparr>i_rs1 = 0, i_rs2 = 0, i_rd = 0, i_imm = 0,
     is_reg_write = False, is_mem_load = False\<rparr>"

text \<open>The assignment to \<open>cpu.regfile[rd]\<close> of a case, absent for \<open>None\<close>.\<close>

definition store_result :: "u8 \<Rightarrow> 'x word option \<Rightarrow> 'x::len emu \<Rightarrow> 'x emu" where
  "store_result rd v s = (case v of None \<Rightarrow> s | Some v \<Rightarrow> set_reg rd v s)"

definition exec_rtype :: "bool \<Rightarrow> u32 \<Rightarrow> 'x::len emu \<Rightarrow> 'x instr_t \<times> 'x emu" where
  "exec_rtype m_ext raw s =
     (let funct3 = GET_FUNCT3 raw;
          instr = instr_init\<lparr>i_rs1 := GET_RS1 raw, i_rs2 := GET_RS2 raw, i_rd := GET_RD raw,
            is_reg_write := True\<rparr>;
          s = PERF_MODEL_HAZARD instr s;
          a = get_reg s (i_rs1 instr);
          b = get_reg s (i_rs2 instr)
      in (instr, store_result (i_rd instr)
           (if m_ext \<and> CHECK_FUNCT7_BIT0 raw then m_op funct3 a b
            else let aluop = ALU_FUNCT7_BIT5 raw OR funct3 in alu_op aluop a b) s))"

definition exec_imm :: "u32 \<Rightarrow> 'x::len emu \<Rightarrow> 'x instr_t \<times> 'x emu" where
  "exec_imm raw s =
     (let aluop = GET_FUNCT3 raw;
          instr = instr_init\<lparr>i_rs1 := GET_RS1 raw, i_rd := GET_RD raw, is_reg_write := True,
            i_imm := GET_SIMM12 raw\<rparr>;
          s = PERF_MODEL_HAZARD instr s;
          a = get_reg s (i_rs1 instr)
      in (instr, store_result (i_rd instr)
           (imm_op aluop (CHECK_FUNCT7_BIT5 raw) a (i_imm instr)) s))"

definition exec_rtypew :: "bool \<Rightarrow> u32 \<Rightarrow> 'x::len emu \<Rightarrow> 'x instr_t \<times> 'x emu" where
  "exec_rtypew m_ext raw s =
     (let funct3 = GET_FUNCT3 raw;
          instr = instr_init\<lparr>i_rs1 := GET_RS1 raw, i_rs2 := GET_RS2 raw, i_rd := GET_RD raw,
            is_reg_write := True\<rparr>;
          s = PERF_MODEL_HAZARD instr s;
          a = get_reg s (i_rs1 instr);
          b = get_reg s (i_rs2 instr)
      in (instr, store_result (i_rd instr)
           (if m_ext \<and> CHECK_FUNCT7_BIT0 raw then mw_op funct3 a b
            else let aluop = ALU_FUNCT7_BIT5 raw OR funct3 in aluw_op aluop a b) s))"

definition exec_immw :: "u32 \<Rightarrow> 'x::len emu \<Rightarrow> 'x instr_t \<times> 'x emu" where
  "exec_immw raw s =
     (let aluop = GET_FUNCT3 raw;
          instr = instr_init\<lparr>i_rs1 := GET_RS1 raw, i_rd := GET_RD raw, is_reg_write := True,
            i_imm := GET_SIMM12 raw\<rparr>;
          s = PERF_MODEL_HAZARD instr s;
          a = get_reg s (i_rs1 instr)
      in (instr, store_result (i_rd instr)
           (immw_op aluop (CHECK_FUNCT7_BIT5 raw) a (i_imm instr)) s))"

text \<open>The out parameter of \<open>bus_read\<close> is the destination register itself.\<close>

definition exec_load :: "u32 \<Rightarrow> 'x::len emu \<Rightarrow> ('x instr_t \<times> 'x emu) option" where
  "exec_load raw s =
     (let instr = instr_init\<lparr>i_rs1 := GET_RS1 raw, i_rd := GET_RD raw, is_reg_write := True,
            is_mem_load := True, i_imm := GET_SIMM12 raw\<rparr>;
          s = PERF_MODEL_HAZARD instr s
      in do {
        (v, s) \<leftarrow> bus_read (get_reg s (i_rs1 instr) + i_imm instr) (GET_FUNCT3 raw)
          (get_reg s (i_rd instr)) s;
        Some (instr, set_reg (i_rd instr) v s) })"

definition exec_store :: "u32 \<Rightarrow> 'x::len emu \<Rightarrow> ('x instr_t \<times> 'x emu) option" where
  "exec_store raw s =
     (let instr = instr_init\<lparr>i_rs1 := GET_RS1 raw, i_rs2 := GET_RS2 raw,
            i_imm := GET_STORE_IMM raw\<rparr>;
          s = PERF_MODEL_HAZARD instr s
      in do {
        s \<leftarrow> bus_write (get_reg s (i_rs1 instr) + i_imm instr) (GET_FUNCT3 raw)
          (get_reg s (i_rs2 instr)) s;
        Some (instr, s) })"

definition exec_branch ::
  "u32 \<Rightarrow> 'x word \<Rightarrow> 'x::len emu \<Rightarrow> 'x word \<times> 'x instr_t \<times> 'x emu" where
  "exec_branch raw next_pc s =
     (let type = GET_FUNCT3 raw;
          instr = instr_init\<lparr>i_rs1 := GET_RS1 raw, i_rs2 := GET_RS2 raw,
            i_imm := GET_BRANCH_IMM raw\<rparr>;
          s = PERF_MODEL_BRANCH_HAZARD instr s
      in if branch_taken type (get_reg s (i_rs1 instr)) (get_reg s (i_rs2 instr))
         then let s = PERF_MODEL_BRANCH_TAKEN s in (pc (cpu s) + i_imm instr, instr, s)
         else (next_pc, instr, s))"

definition exec_auipc :: "u32 \<Rightarrow> 'x::len emu \<Rightarrow> 'x instr_t \<times> 'x emu" where
  "exec_auipc raw s =
     (let instr = instr_init\<lparr>i_rd := GET_RD raw, is_reg_write := True, i_imm := GET_SIMM20 raw\<rparr>
      in (instr, set_reg (i_rd instr) (pc (cpu s) + i_imm instr) s))"

definition exec_lui :: "u32 \<Rightarrow> 'x::len emu \<Rightarrow> 'x instr_t \<times> 'x emu" where
  "exec_lui raw s =
     (let instr = instr_init\<lparr>i_rd := GET_RD raw, is_reg_write := True, i_imm := GET_SIMM20 raw\<rparr>
      in (instr, set_reg (i_rd instr) (i_imm instr) s))"

definition exec_jal :: "u32 \<Rightarrow> 'x::len emu \<Rightarrow> 'x word \<times> 'x instr_t \<times> 'x emu" where
  "exec_jal raw s =
     (let instr = instr_init\<lparr>i_rd := GET_RD raw, is_reg_write := True, i_imm := GET_JAL_IMM raw\<rparr>;
          s = PERF_MODEL_BRANCH_TAKEN s;
          next_pc = pc (cpu s) + i_imm instr;
          s = set_reg (i_rd instr) (pc (cpu s) + 4) s
      in (next_pc, instr, s))"

definition exec_jalr :: "u32 \<Rightarrow> 'x::len emu \<Rightarrow> 'x word \<times> 'x instr_t \<times> 'x emu" where
  "exec_jalr raw s =
     (let instr = instr_init\<lparr>i_rs1 := GET_RS1 raw, i_rd := GET_RD raw, is_reg_write := True,
            i_imm := GET_SIMM12 raw\<rparr>;
          s = PERF_MODEL_BRANCH_HAZARD instr s;
          s = PERF_MODEL_BRANCH_TAKEN s;
          next_pc = (get_reg s (i_rs1 instr) + i_imm instr) AND NOT 1;
          s = set_reg (i_rd instr) (pc (cpu s) + 4) s
      in (next_pc, instr, s))"

text \<open>The environment calls: the returned flag is \<open>exec_continue\<close>.\<close>

definition exec_esys :: "'x instr_t \<Rightarrow> 'x::len emu \<Rightarrow> bool \<times> 'x emu" where
  "exec_esys instr s =
     (if EBREAK (i_imm instr) then (False, emit Err_ebreak s)
      else if get_reg s A0 = E_EXIT then (False, emit Info_exit s)
      else if get_reg s A0 = E_CHAR then (True, emit (Putchar (ucast (get_reg s A1))) s)
      else (True, s))"

definition exec_csr :: "u8 \<Rightarrow> bool \<Rightarrow> 'x instr_t \<Rightarrow> 'x::len emu \<Rightarrow> 'x emu" where
  "exec_csr op is_imm instr s =
     (let csr = ucast (i_imm instr);
          target = (if is_imm then ucast (i_rs1 instr) else get_reg s (i_rs1 instr))
      in if op = CSR_RW \<or> op = CSR_RWI then
           let s = (if i_rd instr \<noteq> 0 then set_reg (i_rd instr) (read_csr csr s) s else s)
           in write_csr csr target s
         else if op = CSR_RS \<or> op = CSR_RSI then
           let csrval = read_csr csr s;
               s = set_reg (i_rd instr) csrval s
           in if i_rs1 instr \<noteq> 0 then write_csr csr (csrval OR target) s else s
         else if op = CSR_RC \<or> op = CSR_RCI then
           let csrval = read_csr csr s;
               s = set_reg (i_rd instr) csrval s
           in if i_rs1 instr \<noteq> 0 then write_csr csr (csrval AND NOT target) s else s
         else s)"

definition exec_sys :: "u32 \<Rightarrow> 'x::len emu \<Rightarrow> bool \<times> 'x instr_t \<times> 'x emu" where
  "exec_sys raw s =
     (let op = GET_FUNCT3 raw;
          is_imm = CSR_IMM op;
          instr = instr_init\<lparr>i_rs1 := GET_RS1 raw, i_rd := GET_RD raw, i_imm := GET_IMM12 raw\<rparr>;
          s = (if \<not> is_imm then PERF_MODEL_HAZARD instr s else s)
      in if op = ESYS then let (exec_continue, s) = exec_esys instr s in (exec_continue, instr, s)
         else (True, instr, exec_csr op is_imm instr s))"

section \<open>One instruction\<close>

text \<open>The outer \<open>switch\<close>; the result is \<open>exec_continue\<close>, \<open>next_pc\<close>, \<open>instr\<close> and the state.\<close>

definition exec_opcode ::
  "bool \<Rightarrow> u32 \<Rightarrow> 'x word \<Rightarrow> 'x::len emu \<Rightarrow> (bool \<times> 'x word \<times> 'x instr_t \<times> 'x emu) option" where
  "exec_opcode m_ext raw next_pc s =
     (let opcode = GET_OPCODE raw in
      if opcode = OP_RTYPE then Some (True, next_pc, exec_rtype m_ext raw s)
      else if opcode = OP_IMM then Some (True, next_pc, exec_imm raw s)
      else if RV64 TYPE('x) \<and> opcode = OP_RTYPEW then Some (True, next_pc, exec_rtypew m_ext raw s)
      else if RV64 TYPE('x) \<and> opcode = OP_IMMW then Some (True, next_pc, exec_immw raw s)
      else if opcode = OP_LOAD then map_option (\<lambda>r. (True, next_pc, r)) (exec_load raw s)
      else if opcode = OP_STORE then map_option (\<lambda>r. (True, next_pc, r)) (exec_store raw s)
      else if opcode = OP_BRANCH then Some (True, exec_branch raw next_pc s)
      else if opcode = OP_FENCE then Some (True, next_pc, instr_init, s)
      else if opcode = OP_AUIPC then Some (True, next_pc, exec_auipc raw s)
      else if opcode = OP_LUI then Some (True, next_pc, exec_lui raw s)
      else if opcode = OP_JAL then Some (True, exec_jal raw s)
      else if opcode = OP_JALR then Some (True, exec_jalr raw s)
      else if opcode = OP_SYS then
        let (exec_continue, r) = exec_sys raw s in Some (exec_continue, next_pc, r)
      else Some (True, next_pc, instr_init, emit (Warn_opcode opcode) s))"

definition process_instr :: "bool \<Rightarrow> u32 \<Rightarrow> 'x::len emu \<Rightarrow> (bool \<times> 'x emu) option" where
  "process_instr m_ext raw s = do {
     (exec_continue, next_pc, instr, s) \<leftarrow> exec_opcode m_ext raw (pc (cpu s) + 4) s;
     let s = PERF_MODEL_CYCLE instr s;
     let s = set_pc next_pc s;
     let s = set_reg 0 0 s;
     Some (exec_continue, s) }"

section \<open>What an instruction leaves alone\<close>

text \<open>
  \<open>exec_frame rd n s s'\<close>: from \<open>s\<close> to \<open>s'\<close> only the register \<open>rd\<close>, the RAM, the
  console and the cycle counter change, the counter by at most \<open>n\<close>.
\<close>

definition exec_frame :: "u8 \<Rightarrow> nat \<Rightarrow> 'x::len emu \<Rightarrow> 'x emu \<Rightarrow> bool" where
  "exec_frame rd n s s' \<longleftrightarrow>
     rom (cpu s') = rom (cpu s) \<and> pc (cpu s') = pc (cpu s) \<and>
     perf_model s' = perf_model s \<and> minstret s' = minstret s \<and>
     (\<exists>d\<le>n. mcycle s' = mcycle s + of_nat d) \<and>
     length (regfile (cpu s')) = length (regfile (cpu s)) \<and>
     (\<forall>i. i \<noteq> unat rd \<longrightarrow> regfile (cpu s') ! i = regfile (cpu s) ! i)"

lemma exec_frame_refl: "exec_frame rd n s s"
  by (auto simp: exec_frame_def intro: exI [of _ 0])

lemma exec_frame_trans:
  assumes "exec_frame rd m s t" "exec_frame rd n t u"
  shows "exec_frame rd (m + n) s u"
proof -
  from assms obtain d e where "d \<le> m" "e \<le> n" "mcycle t = mcycle s + of_nat d"
      "mcycle u = mcycle t + of_nat e"
    by (auto simp: exec_frame_def)
  then have "\<exists>k\<le>m + n. mcycle u = mcycle s + of_nat k"
    by (intro exI [of _ "d + e"]) (simp add: ac_simps)
  with assms show ?thesis by (simp add: exec_frame_def)
qed

lemma exec_frame_weaken: "exec_frame rd m s t \<Longrightarrow> m \<le> n \<Longrightarrow> exec_frame rd n s t"
  by (auto simp: exec_frame_def intro: le_trans)

text \<open>Steps put at the end of a frame.\<close>

lemma exec_frame_set_reg: "exec_frame rd n s t \<Longrightarrow> exec_frame rd n s (set_reg rd v t)"
  by (auto simp: exec_frame_def state_simps)

lemma exec_frame_emit: "exec_frame rd n s t \<Longrightarrow> exec_frame rd n s (emit e t)"
  by (auto simp: exec_frame_def state_simps)

lemma exec_frame_write_csr: "exec_frame rd n s t \<Longrightarrow> exec_frame rd n s (write_csr c v t)"
  by (auto simp: exec_frame_def state_simps)

lemma exec_frame_store_result: "exec_frame rd n s t \<Longrightarrow> exec_frame rd n s (store_result rd v t)"
  by (auto simp: store_result_def intro: exec_frame_set_reg split: option.splits)

lemma exec_frame_hazard: "exec_frame rd (Suc n) s (PERF_MODEL_HAZARD instr s)"
  by (auto simp: exec_frame_def state_simps intro: exI [of _ "of_bool _"])

lemma exec_frame_branch_hazard:
  "exec_frame rd (Suc (Suc (Suc n))) s (PERF_MODEL_BRANCH_HAZARD instr s)"
  using branch_stalls_le [of "perf_model s"]
  by (auto simp: exec_frame_def state_simps numeral_3_eq_3 intro: le_trans)

lemma exec_frame_taken: "exec_frame rd n s t \<Longrightarrow> exec_frame rd (Suc n) s (PERF_MODEL_BRANCH_TAKEN t)"
  using exec_frame_trans [of rd n s t 1 "PERF_MODEL_BRANCH_TAKEN t"]
  by (auto simp: exec_frame_def state_simps intro: exI [of _ 1])

lemma exec_frame_bus_read:
  fixes s :: "'x::len emu"
  assumes "xlen_ok TYPE('x)" "exec_frame rd n s t" "bus_read addr op val t = Some (v, u)"
  shows "exec_frame rd (Suc n) s u"
proof -
  have "exec_frame rd 1 t u"
    using bus_read_frame [OF assms(1,3)] by (simp add: exec_frame_def)
  then show ?thesis using exec_frame_trans [OF assms(2)] by fastforce
qed

lemma exec_frame_bus_write:
  fixes s :: "'x::len emu"
  assumes "xlen_ok TYPE('x)" "exec_frame rd n s t" "bus_write addr op val t = Some u"
  shows "exec_frame rd (Suc n) s u"
proof -
  have "exec_frame rd 1 t u"
    using bus_write_frame [OF assms(1,3)] by (simp add: exec_frame_def)
  then show ?thesis using exec_frame_trans [OF assms(2)] by fastforce
qed

lemmas exec_frame_intros =
  exec_frame_refl exec_frame_set_reg exec_frame_emit exec_frame_write_csr
  exec_frame_store_result exec_frame_hazard exec_frame_branch_hazard exec_frame_taken

lemma exec_register_frames:
  "exec_rtype m raw s = (instr, s') \<Longrightarrow> exec_frame (i_rd instr) 1 s s'"
  "exec_imm raw s = (instr, s') \<Longrightarrow> exec_frame (i_rd instr) 1 s s'"
  "exec_rtypew m raw s = (instr, s') \<Longrightarrow> exec_frame (i_rd instr) 1 s s'"
  "exec_immw raw s = (instr, s') \<Longrightarrow> exec_frame (i_rd instr) 1 s s'"
  "exec_auipc raw s = (instr, s') \<Longrightarrow> exec_frame (i_rd instr) 0 s s'"
  "exec_lui raw s = (instr, s') \<Longrightarrow> exec_frame (i_rd instr) 0 s s'"
  by (auto simp: exec_rtype_def exec_imm_def exec_rtypew_def exec_immw_def exec_auipc_def
      exec_lui_def Let_def intro!: exec_frame_intros)

lemma exec_jump_frames:
  "exec_branch raw np s = (np', instr, s') \<Longrightarrow> exec_frame (i_rd instr) 4 s s'"
  "exec_jal raw s = (np', instr, s') \<Longrightarrow> exec_frame (i_rd instr) 1 s s'"
  "exec_jalr raw s = (np', instr, s') \<Longrightarrow> exec_frame (i_rd instr) 4 s s'"
  by (auto simp: exec_branch_def exec_jal_def exec_jalr_def Let_def numeral_eq_Suc
      intro!: exec_frame_intros split: if_splits)

lemma exec_memory_frames:
  fixes s :: "'x::len emu"
  assumes "xlen_ok TYPE('x)"
  shows "exec_load raw s = Some (instr, s') \<Longrightarrow> exec_frame (i_rd instr) 2 s s'"
    "exec_store raw s = Some (instr, s') \<Longrightarrow> exec_frame (i_rd instr) 2 s s'"
  by (auto simp: exec_load_def exec_store_def Let_def numeral_2_eq_2 bind_eq_Some_conv
      intro!: exec_frame_set_reg
      intro: exec_frame_bus_read [OF assms exec_frame_hazard, simplified]
        exec_frame_bus_write [OF assms exec_frame_hazard, simplified])

lemma exec_esys_frame:
  "exec_esys instr t = (c, u) \<Longrightarrow> exec_frame rd n s t \<Longrightarrow> exec_frame rd n s u"
  by (auto simp: exec_esys_def intro: exec_frame_emit split: if_splits)

lemma exec_csr_frame:
  "exec_frame (i_rd instr) n s t \<Longrightarrow> exec_frame (i_rd instr) n s (exec_csr op is_imm instr t)"
  by (auto simp: exec_csr_def Let_def intro!: exec_frame_set_reg exec_frame_write_csr)

lemma exec_sys_frame:
  fixes s :: "'x::len emu"
  assumes "exec_sys raw s = (c, instr, s')"
  shows "exec_frame (i_rd instr) 1 s s'"
proof -
  define i where "i = (instr_init :: 'x instr_t)\<lparr>i_rs1 := GET_RS1 raw, i_rd := GET_RD raw,
    i_imm := GET_IMM12 raw\<rparr>"
  define t where "t = (if \<not> CSR_IMM (GET_FUNCT3 raw) then PERF_MODEL_HAZARD i s else s)"
  have t: "exec_frame (i_rd i) 1 s t"
    using exec_frame_hazard [of "i_rd i" 0 s i] by (simp add: t_def exec_frame_refl)
  have "exec_sys raw s = (if GET_FUNCT3 raw = ESYS
      then let (c, u) = exec_esys i t in (c, i, u)
      else (True, i, exec_csr (GET_FUNCT3 raw) (CSR_IMM (GET_FUNCT3 raw)) i t))"
    by (simp only: exec_sys_def Let_def t_def i_def)
  with assms t show ?thesis
    by (auto intro: exec_csr_frame exec_esys_frame split: if_splits prod.splits)
qed

lemma exec_opcode_frame:
  fixes s :: "'x::len emu"
  assumes ok: "xlen_ok TYPE('x)" and "exec_opcode m raw np s = Some (c, np', instr, s')"
  shows "exec_frame (i_rd instr) 4 s s'"
proof -
  have le: "0 \<le> (4::nat)" "1 \<le> (4::nat)" "2 \<le> (4::nat)" by simp_all
  note frames = exec_register_frames(1-4) [THEN exec_frame_weaken, OF _ le(2)]
    exec_register_frames(5,6) [THEN exec_frame_weaken, OF _ le(1)]
    exec_jump_frames(1,3) exec_jump_frames(2) [THEN exec_frame_weaken, OF _ le(2)]
    exec_memory_frames [OF ok, THEN exec_frame_weaken, OF _ le(3)]
    exec_sys_frame [THEN exec_frame_weaken, OF _ le(2)]
  show ?thesis
    using assms(2) unfolding exec_opcode_def Let_def
    by (auto split: if_split_asm prod.split_asm
        intro: frames exec_frame_refl exec_frame_emit)
qed

lemma exec_opcode_total:
  fixes s :: "'x::len emu"
  assumes "xlen_ok TYPE('x)"
  obtains r where "exec_opcode m raw np s = Some r"
proof -
  have "\<exists>l. exec_load raw s = Some l" "\<exists>t. exec_store raw s = Some t"
    by (simp_all add: exec_load_def exec_store_def Let_def split_def bus_read_eq [OF assms]
        bus_write_eq [OF assms])
  then have "exec_opcode m raw np s = None \<Longrightarrow> False"
    unfolding exec_opcode_def Let_def case_prod_beta by (auto split: if_split_asm)
  with that show thesis by blast
qed

text \<open>Only a store changes the memory.\<close>

lemma mem_store_result: "mem_byte (store_result rd v u) = mem_byte u"
  by (simp add: store_result_def state_simps split: option.split)

lemma exec_memory_unchanged:
  "exec_rtype m raw s = (i, t) \<Longrightarrow> mem_byte t = mem_byte s"
  "exec_imm raw s = (i, t) \<Longrightarrow> mem_byte t = mem_byte s"
  "exec_rtypew m raw s = (i, t) \<Longrightarrow> mem_byte t = mem_byte s"
  "exec_immw raw s = (i, t) \<Longrightarrow> mem_byte t = mem_byte s"
  "exec_auipc raw s = (i, t) \<Longrightarrow> mem_byte t = mem_byte s"
  "exec_lui raw s = (i, t) \<Longrightarrow> mem_byte t = mem_byte s"
  "exec_jal raw s = (np', i, t) \<Longrightarrow> mem_byte t = mem_byte s"
  "exec_jalr raw s = (np', i, t) \<Longrightarrow> mem_byte t = mem_byte s"
  by (auto simp: exec_rtype_def exec_imm_def exec_rtypew_def exec_immw_def exec_auipc_def
      exec_lui_def exec_jal_def exec_jalr_def Let_def mem_store_result mem_byte_simps)

lemma exec_branch_memory_unchanged:
  "exec_branch raw np s = (np', i, t) \<Longrightarrow> mem_byte t = mem_byte s"
  by (auto simp: exec_branch_def Let_def mem_byte_simps split: if_splits)

lemma exec_sys_memory_unchanged: "exec_sys raw s = (c, i, t) \<Longrightarrow> mem_byte t = mem_byte s"
proof -
  have "mem_byte (exec_csr op is_imm i u) = mem_byte u" for op is_imm i and u :: "'a emu"
    by (simp add: exec_csr_def Let_def mem_byte_simps)
  moreover have "mem_byte (snd (exec_esys i u)) = mem_byte u" for i and u :: "'a emu"
    by (simp add: exec_esys_def mem_byte_simps)
  moreover assume "exec_sys raw s = (c, i, t)"
  ultimately show ?thesis
    by (auto simp: exec_sys_def Let_def mem_byte_simps case_prod_beta split: if_splits)
qed

lemma exec_load_memory_unchanged:
  fixes s :: "'x::len emu"
  assumes "xlen_ok TYPE('x)"
  shows "exec_load raw s = Some (i, t) \<Longrightarrow> mem_byte t = mem_byte s"
  using bus_read_frame(5) [OF assms]
  by (auto simp: exec_load_def Let_def bind_eq_Some_conv mem_byte_simps)

lemma exec_opcode_memory:
  fixes s :: "'x::len emu"
  assumes ok: "xlen_ok TYPE('x)" and e: "exec_opcode m raw np s = Some (c, np', instr, t)"
    and "GET_OPCODE raw \<noteq> OP_STORE"
  shows "mem_byte t = mem_byte s"
  using e assms(3) unfolding exec_opcode_def Let_def
  by (auto simp: mem_byte_simps split: if_split_asm prod.split_asm
      intro: exec_branch_memory_unchanged exec_memory_unchanged exec_sys_memory_unchanged exec_load_memory_unchanged [OF ok])

section \<open>One instruction as a whole\<close>

lemma exec_opcode_rd:
  assumes "exec_opcode m raw np s = Some (c, np', instr, s')"
  shows "i_rd instr = 0 \<or> i_rd instr = GET_RD raw"
  using assms
  unfolding exec_opcode_def exec_rtype_def exec_imm_def exec_rtypew_def exec_immw_def
    exec_load_def exec_store_def exec_branch_def exec_auipc_def exec_lui_def exec_jal_def
    exec_jalr_def exec_sys_def Let_def
  by (auto simp: instr_init_def bind_eq_Some_conv split: if_split_asm prod.split_asm)

lemma process_instr_cases:
  assumes "process_instr m raw s = Some (c, s')"
  obtains np instr t where "exec_opcode m raw (pc (cpu s) + 4) s = Some (c, np, instr, t)"
    and "s' = set_reg 0 0 (set_pc np (PERF_MODEL_CYCLE instr t))"
  using assms by (auto simp: process_instr_def Let_def bind_eq_Some_conv)

lemma process_instr_total:
  fixes s :: "'x::len emu"
  assumes "xlen_ok TYPE('x)"
  obtains c s' where "process_instr m raw s = Some (c, s')"
proof -
  obtain c np instr t where "exec_opcode m raw (pc (cpu s) + 4) s = Some (c, np, instr, t)"
    using exec_opcode_total [OF assms] by (metis prod_cases4)
  with that show thesis by (simp add: process_instr_def Let_def)
qed

lemma process_instr_frame:
  fixes s :: "'x::len emu"
  assumes ok: "xlen_ok TYPE('x)" and p: "process_instr m raw s = Some (c, s')"
  shows "rom (cpu s') = rom (cpu s)" "minstret s' = minstret s + 1"
    "length (regfile (cpu s')) = length (regfile (cpu s))"
    "\<exists>d. 1 \<le> d \<and> d \<le> 5 \<and> mcycle s' = mcycle s + of_nat d"
    "i \<noteq> 0 \<Longrightarrow> i \<noteq> unat (GET_RD raw) \<Longrightarrow> regfile (cpu s') ! i = regfile (cpu s) ! i"
proof -
  obtain np instr t where e: "exec_opcode m raw (pc (cpu s) + 4) s = Some (c, np, instr, t)"
    and s': "s' = set_reg 0 0 (set_pc np (PERF_MODEL_CYCLE instr t))"
    using p by (rule process_instr_cases)
  note f = exec_opcode_frame [OF ok e, unfolded exec_frame_def]
  show "rom (cpu s') = rom (cpu s)" "minstret s' = minstret s + 1"
    "length (regfile (cpu s')) = length (regfile (cpu s))"
    using f by (simp_all add: s' state_simps)
  from f obtain d where "d \<le> 4" "mcycle t = mcycle s + of_nat d" by blast
  then show "\<exists>d. 1 \<le> d \<and> d \<le> 5 \<and> mcycle s' = mcycle s + of_nat d"
    by (intro exI [of _ "Suc d"]) (simp add: s' state_simps ac_simps)
  show "regfile (cpu s') ! i = regfile (cpu s) ! i" if "i \<noteq> 0" "i \<noteq> unat (GET_RD raw)"
    using f exec_opcode_rd [OF e] that by (auto simp: s' state_simps)
qed

lemma process_instr_wf:
  fixes s :: "'x::len emu"
  assumes ok: "xlen_ok TYPE('x)" and wf: "wf_emu s" and p: "process_instr m raw s = Some (c, s')"
  shows "wf_emu s'"
proof -
  have len: "length (regfile (cpu s')) = XRF_SIZE"
    using process_instr_frame(3) [OF ok p] wf by (simp add: wf_emu_def)
  from p obtain u where "s' = set_reg 0 0 u" by (rule process_instr_cases)
  with len show ?thesis by (simp add: wf_emu_def state_simps c_consts)
qed

lemma process_instr_perf_model:
  fixes s :: "'x::len emu"
  assumes ok: "xlen_ok TYPE('x)" and p: "process_instr m raw s = Some (c, s')"
  shows "prev2_rd (perf_model s') = prev_rd (perf_model s)"
    "prev2_mem_load (perf_model s') = prev_mem_load (perf_model s)"
    "prev_rd (perf_model s') = 0 \<or> prev_rd (perf_model s') = GET_RD raw"
  using p
  by (auto elim!: process_instr_cases dest: exec_opcode_rd exec_opcode_frame [OF ok]
      simp: state_simps PERF_MODEL_CYCLE_def Let_def exec_frame_def set_reg_def set_pc_def tick_def)

text \<open>The program stops at a breakpoint and at an exit call, and nowhere else.\<close>

definition stops :: "u32 \<Rightarrow> 'x::len emu \<Rightarrow> bool" where
  "stops raw s \<longleftrightarrow> GET_OPCODE raw = OP_SYS \<and> GET_FUNCT3 raw = ESYS \<and>
     ((GET_IMM12 raw :: 'x word) = 1 \<or> get_reg s A0 = E_EXIT)"

lemma process_instr_continue:
  assumes p: "process_instr m raw s = Some (c, s')"
  shows "c \<longleftrightarrow> \<not> stops raw s"
proof -
  obtain np instr t where e: "exec_opcode m raw (pc (cpu s) + 4) s = Some (c, np, instr, t)"
    using p by (rule process_instr_cases)
  then show ?thesis
    unfolding exec_opcode_def Let_def exec_sys_def exec_esys_def EBREAK_def stops_def
    by (auto simp: state_simps c_consts split: if_split_asm prod.split_asm)
qed

section \<open>Properties\<close>



text \<open>C9. An instruction leaves the ROM, counts as one retired instruction, takes between one
  and five cycles, changes no register but the one its \<open>rd\<close> field names, and changes memory only when
  it is a store.\<close>

theorem process_instr_effect:
  fixes s :: "'x::len emu"
  assumes ok: "xlen_ok TYPE('x)" and p: "process_instr m raw s = Some (c, s')"
  shows "rom (cpu s') = rom (cpu s) \<and> minstret s' = minstret s + 1 \<and>
    (\<exists>d. 1 \<le> d \<and> d \<le> 5 \<and> mcycle s' = mcycle s + of_nat d) \<and>
    (\<forall>i. i = 0 \<or> i = unat (GET_RD raw) \<or> regfile (cpu s') ! i = regfile (cpu s) ! i) \<and>
    (GET_OPCODE raw = OP_STORE \<or> mem_byte s' = mem_byte s)"
proof -
  obtain np instr t where e: "exec_opcode m raw (pc (cpu s) + 4) s = Some (c, np, instr, t)"
    and s': "s' = set_reg 0 0 (set_pc np (PERF_MODEL_CYCLE instr t))"
    using p by (rule process_instr_cases)
  have "GET_OPCODE raw = OP_STORE \<or> mem_byte s' = mem_byte s"
    using exec_opcode_memory [OF ok e] by (auto simp: s' mem_byte_simps)
  then show ?thesis
    using process_instr_frame [OF ok p] by blast
qed

theorem process_instr_effect_witness:
  "\<exists>c s'. process_instr True 0x00A00513 (init_emu :: 32 emu) = Some (c, s') \<and>
     minstret s' = 1 \<and> mem_byte s' = mem_byte (init_emu :: 32 emu)"
proof -
  obtain c s' where p: "process_instr True 0x00A00513 (init_emu :: 32 emu) = Some (c, s')"
    by (rule process_instr_total [OF xlen_ok_simps(1)])
  from process_instr_effect [OF xlen_ok_simps(1) p] p show ?thesis
    by (simp add: GET_OPCODE_def c_consts)
qed

end
