(* ===== verification/Isa.thy ===== *)
theory Isa
  imports Core
begin

text \<open>
  The abstract specification of the processor: the base integer instructions, the
  multiplication extension and the 64-bit additions of the RISC-V manual as a datatype,
  their encoding into instruction words, and their effect on a state that has registers, a
  program counter, a byte-addressed memory and the characters written so far.

  Arithmetic is on exact integers, truncated once when the result is stored.  The 32-bit
  operations of RV64 are the same operations at width 32, sign-extended.
\<close>

section \<open>Instructions\<close>

type_synonym regno = "5 word"

datatype rop = ADD | SUB | SLL | SLT | SLTU | XORR | SRL | SRA_R | ORR | ANDR
datatype mop = MUL | MULH | MULHSU | MULHU | DIV | DIVU | REM | REMU
datatype lop = LB | LH | LW | LD | LBU | LHU | LWU
datatype sop = SB | SH | SW | SD
datatype bop = BEQ | BNE | BLT | BGE | BLTU | BGEU

text \<open>
  Destination first, then the sources, then the immediate as it stands in the instruction
  word (without the low bit that is always zero for branches and jumps).
\<close>

datatype insn =
    Rop rop regno regno regno
  | Mop mop regno regno regno
  | Iop rop regno regno "12 word"
  | Shift rop regno regno "6 word"
  | RopW rop regno regno regno
  | MopW mop regno regno regno
  | AddiW regno regno "12 word"
  | ShiftW rop regno regno "5 word"
  | Load lop regno regno "12 word"
  | Store sop regno regno "12 word"
  | Branch bop regno regno "12 word"
  | Lui regno "20 word"
  | Auipc regno "20 word"
  | Jal regno "20 word"
  | Jalr regno regno "12 word"
  | Fence regno regno "12 word"
  | Ecall
  | Ebreak

text \<open>The instructions of one build: its width, and whether it has the multiplication extension.\<close>

definition valid_insn :: "'x::len itself \<Rightarrow> bool \<Rightarrow> insn \<Rightarrow> bool" where
  "valid_insn _ m_ext i = (case i of
     Mop _ _ _ _ \<Rightarrow> m_ext
   | Iop op _ _ _ \<Rightarrow> op \<in> {ADD, SLT, SLTU, XORR, ORR, ANDR}
   | Shift op _ _ sh \<Rightarrow> op \<in> {SLL, SRL, SRA_R} \<and> (RV64 TYPE('x) \<or> \<not> bit sh 5)
   | RopW op _ _ _ \<Rightarrow> RV64 TYPE('x) \<and> op \<in> {ADD, SUB, SLL, SRL, SRA_R}
   | MopW op _ _ _ \<Rightarrow> RV64 TYPE('x) \<and> m_ext \<and> op \<in> {MUL, DIV, DIVU, REM, REMU}
   | AddiW _ _ _ \<Rightarrow> RV64 TYPE('x)
   | ShiftW op _ _ _ \<Rightarrow> RV64 TYPE('x) \<and> op \<in> {SLL, SRL, SRA_R}
   | Load op _ _ _ \<Rightarrow> RV64 TYPE('x) \<or> op \<notin> {LD, LWU}
   | Store op _ _ _ \<Rightarrow> RV64 TYPE('x) \<or> op \<noteq> SD
   | _ \<Rightarrow> True)"

section \<open>Encoding\<close>

fun rop_funct3 :: "rop \<Rightarrow> 3 word" where
  "rop_funct3 ADD = 0" | "rop_funct3 SUB = 0" | "rop_funct3 SLL = 1" | "rop_funct3 SLT = 2"
| "rop_funct3 SLTU = 3" | "rop_funct3 XORR = 4" | "rop_funct3 SRL = 5" | "rop_funct3 SRA_R = 5"
| "rop_funct3 ORR = 6" | "rop_funct3 ANDR = 7"

definition rop_funct7 :: "rop \<Rightarrow> 7 word" where
  "rop_funct7 op = (if op = SUB \<or> op = SRA_R then 0x20 else 0)"

fun mop_funct3 :: "mop \<Rightarrow> 3 word" where
  "mop_funct3 MUL = 0" | "mop_funct3 MULH = 1" | "mop_funct3 MULHSU = 2" | "mop_funct3 MULHU = 3"
| "mop_funct3 DIV = 4" | "mop_funct3 DIVU = 5" | "mop_funct3 REM = 6" | "mop_funct3 REMU = 7"

fun lop_funct3 :: "lop \<Rightarrow> 3 word" where
  "lop_funct3 LB = 0" | "lop_funct3 LH = 1" | "lop_funct3 LW = 2" | "lop_funct3 LD = 3"
| "lop_funct3 LBU = 4" | "lop_funct3 LHU = 5" | "lop_funct3 LWU = 6"

fun sop_funct3 :: "sop \<Rightarrow> 3 word" where
  "sop_funct3 SB = 0" | "sop_funct3 SH = 1" | "sop_funct3 SW = 2" | "sop_funct3 SD = 3"

fun bop_funct3 :: "bop \<Rightarrow> 3 word" where
  "bop_funct3 BEQ = 0" | "bop_funct3 BNE = 1" | "bop_funct3 BLT = 4" | "bop_funct3 BGE = 5"
| "bop_funct3 BLTU = 6" | "bop_funct3 BGEU = 7"

text \<open>The immediate field of a shift: the amount, and bit 10 for the arithmetic one.\<close>

definition shift_imm :: "rop \<Rightarrow> 'a::len word \<Rightarrow> 12 word" where
  "shift_imm op sh = (if op = SRA_R then 0x400 else 0) OR ucast sh"

fun encode :: "insn \<Rightarrow> u32" where
  "encode (Rop op rd rs1 rs2) = enc_R (rop_funct7 op) rs2 rs1 (rop_funct3 op) rd 0x33"
| "encode (Mop op rd rs1 rs2) = enc_R 1 rs2 rs1 (mop_funct3 op) rd 0x33"
| "encode (Iop op rd rs1 imm) = enc_I imm rs1 (rop_funct3 op) rd 0x13"
| "encode (Shift op rd rs1 sh) = enc_I (shift_imm op sh) rs1 (rop_funct3 op) rd 0x13"
| "encode (RopW op rd rs1 rs2) = enc_R (rop_funct7 op) rs2 rs1 (rop_funct3 op) rd 0x3B"
| "encode (MopW op rd rs1 rs2) = enc_R 1 rs2 rs1 (mop_funct3 op) rd 0x3B"
| "encode (AddiW rd rs1 imm) = enc_I imm rs1 0 rd 0x1B"
| "encode (ShiftW op rd rs1 sh) = enc_I (shift_imm op sh) rs1 (rop_funct3 op) rd 0x1B"
| "encode (Load op rd rs1 imm) = enc_I imm rs1 (lop_funct3 op) rd 0x03"
| "encode (Store op rs1 rs2 imm) = enc_S imm rs2 rs1 (sop_funct3 op) 0x23"
| "encode (Branch op rs1 rs2 imm) = enc_B imm rs2 rs1 (bop_funct3 op) 0x63"
| "encode (Lui rd imm) = enc_U imm rd 0x37"
| "encode (Auipc rd imm) = enc_U imm rd 0x17"
| "encode (Jal rd imm) = enc_J imm rd 0x6F"
| "encode (Jalr rd rs1 imm) = enc_I imm rs1 0 rd 0x67"
| "encode (Fence rd rs1 imm) = enc_I imm rs1 0 rd 0x0F"
| "encode Ecall = enc_I 0 0 0 0 0x73"
| "encode Ebreak = enc_I 1 0 0 0 0x73"

section \<open>Operations on exact integers\<close>

text \<open>The width of the operands is that of their type.\<close>

fun rop_int :: "rop \<Rightarrow> 'a::len word \<Rightarrow> 'a word \<Rightarrow> int" where
  "rop_int ADD a b = sint a + sint b"
| "rop_int SUB a b = sint a - sint b"
| "rop_int SLL a b = uint a * 2 ^ (unat b mod LENGTH('a))"
| "rop_int SLT a b = of_bool (sint a < sint b)"
| "rop_int SLTU a b = of_bool (uint a < uint b)"
| "rop_int XORR a b = sint a XOR sint b"
| "rop_int SRL a b = uint a div 2 ^ (unat b mod LENGTH('a))"
| "rop_int SRA_R a b = sint a div 2 ^ (unat b mod LENGTH('a))"
| "rop_int ORR a b = sint a OR sint b"
| "rop_int ANDR a b = sint a AND sint b"

text \<open>
  Division by zero gives all ones and the remainder is then the dividend; the one quotient
  that does not fit wraps around when it is stored.
\<close>

fun mop_int :: "mop \<Rightarrow> 'a::len word \<Rightarrow> 'a word \<Rightarrow> int" where
  "mop_int MUL a b = sint a * sint b"
| "mop_int MULH a b = sint a * sint b div 2 ^ LENGTH('a)"
| "mop_int MULHSU a b = sint a * uint b div 2 ^ LENGTH('a)"
| "mop_int MULHU a b = uint a * uint b div 2 ^ LENGTH('a)"
| "mop_int DIV a b = (if sint b = 0 then - 1 else sint a sdiv sint b)"
| "mop_int DIVU a b = (if uint b = 0 then - 1 else uint a div uint b)"
| "mop_int REM a b = (if sint b = 0 then sint a else sint a smod sint b)"
| "mop_int REMU a b = (if uint b = 0 then uint a else uint a mod uint b)"

fun bop_holds :: "bop \<Rightarrow> 'a::len word \<Rightarrow> 'a word \<Rightarrow> bool" where
  "bop_holds BEQ a b \<longleftrightarrow> sint a = sint b"
| "bop_holds BNE a b \<longleftrightarrow> sint a \<noteq> sint b"
| "bop_holds BLT a b \<longleftrightarrow> sint a < sint b"
| "bop_holds BGE a b \<longleftrightarrow> sint a \<ge> sint b"
| "bop_holds BLTU a b \<longleftrightarrow> uint a < uint b"
| "bop_holds BGEU a b \<longleftrightarrow> uint a \<ge> uint b"

fun lop_size :: "lop \<Rightarrow> nat" where
  "lop_size LB = 1" | "lop_size LBU = 1" | "lop_size LH = 2" | "lop_size LHU = 2"
| "lop_size LW = 4" | "lop_size LWU = 4" | "lop_size LD = 8"

definition lop_signed :: "lop \<Rightarrow> bool" where
  "lop_signed op \<longleftrightarrow> op \<in> {LB, LH, LW, LD}"

fun sop_size :: "sop \<Rightarrow> nat" where
  "sop_size SB = 1" | "sop_size SH = 2" | "sop_size SW = 4" | "sop_size SD = 8"

section \<open>State and effect\<close>

record (overloaded) 'x isa =
  isa_regs :: "regno \<Rightarrow> 'x::len word"
  isa_pc :: "'x word"
  isa_mem :: "nat \<Rightarrow> u8 option"
  isa_out :: "u32 list"

text \<open>A stored address or result is the integer modulo the register width; register 0 stays 0.\<close>

definition isa_put :: "regno \<Rightarrow> int \<Rightarrow> 'x::len isa \<Rightarrow> 'x isa" where
  "isa_put rd v s = s\<lparr>isa_regs := (isa_regs s)(rd := if rd = 0 then 0 else word_of_int v)\<rparr>"

definition isa_next :: "'x::len isa \<Rightarrow> 'x isa" where
  "isa_next s = s\<lparr>isa_pc := word_of_int (uint (isa_pc s) + 4)\<rparr>"

definition isa_goto :: "int \<Rightarrow> 'x::len isa \<Rightarrow> 'x isa" where
  "isa_goto a s = s\<lparr>isa_pc := word_of_int a\<rparr>"

definition isa_addr :: "'x::len isa \<Rightarrow> regno \<Rightarrow> 12 word \<Rightarrow> nat" where
  "isa_addr s r imm = nat ((sint (isa_regs s r) + sint imm) mod 2 ^ LENGTH('x))"

definition isa_bytes :: "'x::len isa \<Rightarrow> nat \<Rightarrow> nat \<Rightarrow> u8 list option" where
  "isa_bytes s a k = those (map (\<lambda>i. isa_mem s (a + i)) [0..<k])"

definition lop_int :: "lop \<Rightarrow> u8 list \<Rightarrow> int" where
  "lop_int op bs = (if lop_signed op then signed_take_bit (8 * length bs - 1) (le_int bs)
     else le_int bs)"

definition in_ram_addr :: "nat \<Rightarrow> bool" where
  "in_ram_addr a \<longleftrightarrow> 0x20000000 \<le> a \<and> a < 0x20010000"

definition isa_store :: "nat \<Rightarrow> nat \<Rightarrow> 'x word \<Rightarrow> 'x::len isa \<Rightarrow> 'x isa" where
  "isa_store a k v s =
     (if \<forall>i < k. in_ram_addr (a + i)
      then s\<lparr>isa_mem := (\<lambda>j. if a \<le> j \<and> j < a + k
        then Some (word_of_int (uint v div 256 ^ (j - a))) else isa_mem s j)\<rparr>
      else s)"

text \<open>
  The effect of an instruction, and whether the program goes on after it.  A load from an
  address with no memory leaves the register, a store outside the RAM is ignored: that is
  the emulator's bus.  The environment call with 10 in register 10 stops the program,
  with 11 it prints the character in register 11.
\<close>

fun isa_exec :: "insn \<Rightarrow> 'x::len isa \<Rightarrow> bool \<times> 'x isa" where
  "isa_exec (Rop op rd rs1 rs2) s =
     (True, isa_next (isa_put rd (rop_int op (isa_regs s rs1) (isa_regs s rs2)) s))"
| "isa_exec (Mop op rd rs1 rs2) s =
     (True, isa_next (isa_put rd (mop_int op (isa_regs s rs1) (isa_regs s rs2)) s))"
| "isa_exec (Iop op rd rs1 imm) s =
     (True, isa_next (isa_put rd (rop_int op (isa_regs s rs1) (word_of_int (sint imm))) s))"
| "isa_exec (Shift op rd rs1 sh) s =
     (True, isa_next (isa_put rd (rop_int op (isa_regs s rs1) (word_of_int (uint sh))) s))"
| "isa_exec (RopW op rd rs1 rs2) s =
     (True, isa_next (isa_put rd (signed_take_bit 31
        (rop_int op (ucast (isa_regs s rs1) :: u32) (ucast (isa_regs s rs2)))) s))"
| "isa_exec (MopW op rd rs1 rs2) s =
     (True, isa_next (isa_put rd (signed_take_bit 31
        (mop_int op (ucast (isa_regs s rs1) :: u32) (ucast (isa_regs s rs2)))) s))"
| "isa_exec (AddiW rd rs1 imm) s =
     (True, isa_next (isa_put rd (signed_take_bit 31 (uint (isa_regs s rs1) + sint imm)) s))"
| "isa_exec (ShiftW op rd rs1 sh) s =
     (True, isa_next (isa_put rd (signed_take_bit 31
        (rop_int op (ucast (isa_regs s rs1) :: u32) (word_of_int (uint sh)))) s))"
| "isa_exec (Load op rd rs1 imm) s =
     (True, isa_next (case isa_bytes s (isa_addr s rs1 imm) (lop_size op) of
        Some bs \<Rightarrow> isa_put rd (lop_int op bs) s | None \<Rightarrow> s))"
| "isa_exec (Store op rs1 rs2 imm) s =
     (True, isa_next (isa_store (isa_addr s rs1 imm) (sop_size op) (isa_regs s rs2) s))"
| "isa_exec (Branch op rs1 rs2 imm) s =
     (True, if bop_holds op (isa_regs s rs1) (isa_regs s rs2)
        then isa_goto (uint (isa_pc s) + 2 * sint imm) s else isa_next s)"
| "isa_exec (Lui rd imm) s = (True, isa_next (isa_put rd (sint imm * 2 ^ 12) s))"
| "isa_exec (Auipc rd imm) s =
     (True, isa_next (isa_put rd (uint (isa_pc s) + sint imm * 2 ^ 12) s))"
| "isa_exec (Jal rd imm) s =
     (True, isa_goto (uint (isa_pc s) + 2 * sint imm) (isa_put rd (uint (isa_pc s) + 4) s))"
| "isa_exec (Jalr rd rs1 imm) s =
     (True, isa_goto (2 * ((sint (isa_regs s rs1) + sint imm) div 2))
        (isa_put rd (uint (isa_pc s) + 4) s))"
| "isa_exec (Fence rd rs1 imm) s = (True, isa_next s)"
| "isa_exec Ecall s =
     (isa_regs s 10 \<noteq> 10, isa_next (if isa_regs s 10 = 11
        then s\<lparr>isa_out := isa_out s @ [ucast (isa_regs s 11)]\<rparr> else s))"
| "isa_exec Ebreak s = (False, isa_next s)"

end
