(* ===== verification/Isa_Refine.thy ===== *)
theory Isa_Refine
  imports Isa
begin

text \<open>
  The emulator implements the abstract processor: executing the encoding of a valid
  instruction on the concrete state is the instruction's effect on its abstraction.
\<close>

section \<open>Words as truncated integers\<close>

lemma push_bit_int: "push_bit n a = word_of_int (uint a * 2 ^ n)" for a :: "'a::len word"
  by (simp add: push_bit_eq_mult)

lemma drop_bit_int: "drop_bit n a = word_of_int (uint a div 2 ^ n)" for a :: "'a::len word"
  by (metis uint_drop_bit word_of_int_uint)

lemma SRA_int:
  fixes a :: "'x::len word"
  assumes "xlen_ok TYPE('x)" "n < LENGTH('x)"
  shows "SRA a n = word_of_int (sint a div 2 ^ n)"
  by (simp only: sint_SRA [OF assms, symmetric]) simp

lemma scast_word_of_int: "scast (word_of_int k :: u32) = word_of_int (signed_take_bit 31 k)"
proof -
  have "signed_take_bit 31 (take_bit 32 k) = signed_take_bit 31 k"
    by (simp add: signed_take_bit_take_bit)
  then show ?thesis by (simp add: scast_uint uint_word_of_int_eq)
qed

lemmas int_ops = push_bit_int drop_bit_int SRA_int

section \<open>The inner switches compute the operations\<close>

definition rop_code :: "rop \<Rightarrow> u8" where
  "rop_code op = (if bit (rop_funct7 op) 5 then 8 else 0) OR ucast (rop_funct3 op)"

lemma alu_op_correct:
  fixes a b :: "'x::len word"
  assumes "xlen_ok TYPE('x)"
  shows "alu_op (rop_code op) a b = Some (word_of_int (rop_int op a b))"
  by (cases op) (simp_all add: alu_op_def rop_code_def rop_funct7_def c_consts
      shift_amount_bound [OF assms] push_bit_int drop_bit_int SRA_int [OF assms] word_sless_alt word_less_def
      of_int_xor_eq of_int_or_eq of_int_and_eq)


lemma m_op_correct:
  fixes a b :: "'x::len word"
  assumes ok: "xlen_ok TYPE('x)"
  shows "m_op (ucast (mop_funct3 op)) a b = Some (word_of_int (mop_int op a b))"
proof -
  have div: "rv_div a b = word_of_int (if sint b = 0 then - 1 else sint a sdiv sint b)"
    by (auto simp: rv_div_def c_sdiv_def sint_eq_0_iff SREG_MIN_eq [OF ok] sint_minus_exp
        signed_divide_int_def minus_half_exp [simplified])
  have rem: "rv_rem a b = word_of_int (if sint b = 0 then sint a else sint a smod sint b)"
    by (auto simp: rv_rem_def c_smod_def sint_eq_0_iff signed_modulo_int_def)
  have divu: "rv_divu a b = word_of_int (if uint b = 0 then - 1 else uint a div uint b)"
    and remu: "rv_remu a b = word_of_int (if uint b = 0 then uint a else uint a mod uint b)"
    by (auto simp: rv_divu_eq [OF ok] rv_remu_def word_div_def word_mod_def uint_0_iff)
  show ?thesis
    by (cases op) (simp_all add: m_op_def c_consts rv_mul_def rv_mulh_eq [OF ok] div rem divu remu)
qed

lemma imm_op_correct:
  fixes a b :: "'x::len word"
  assumes "xlen_ok TYPE('x)" and "op \<noteq> SUB" and "op = SRL \<Longrightarrow> \<not> bit5" and "op = SRA_R \<Longrightarrow> bit5"
  shows "imm_op (ucast (rop_funct3 op)) bit5 a b = Some (word_of_int (rop_int op a b))"
  using assms(2-)
  by (cases op) (simp_all add: imm_op_def c_consts
      shift_amount_bound [OF assms(1)] push_bit_int drop_bit_int SRA_int [OF assms(1)]
      word_sless_alt word_less_def of_int_xor_eq of_int_or_eq of_int_and_eq)

text \<open>The word operations are the operations at width 32.\<close>

lemma shift_amount_32: "unat (b AND SHIFT_MAX_WORD) = unat (ucast b AND SHIFT_MAX :: u32)"
  if "32 \<le> LENGTH('x)" for b :: "'x::len word"
proof -
  have "unat (ucast b :: u32) = unat b mod 2 ^ 32"
    by (simp add: unsigned_ucast_eq take_bit_eq_mod)
  then have "unat (ucast b :: u32) mod 32 = unat b mod 32"
    by (simp add: mod_mod_cancel)
  then show ?thesis by (simp add: shift_amount_word_bound shift_amount_bound)
qed

lemma SRAW_SRA: "n < 32 \<Longrightarrow> SRAW a n = SRA a n"
  by (simp add: SRAW_eq SRA_eq)

lemma aluw_op_correct:
  fixes a b :: "'x::len word"
  assumes ok: "xlen_ok TYPE('x)" and op: "op \<in> {ADD, SUB, SLL, SRL, SRA_R}"
  shows "aluw_op (rop_code op) a b =
    Some (word_of_int (signed_take_bit 31 (rop_int op (ucast a :: u32) (ucast b))))"
proof -
  have "aluw_op (rop_code op) a b =
      map_option scast (alu_op (rop_code op) (ucast a :: u32) (ucast b))"
    using op by (auto simp: aluw_op_def alu_op_def rop_code_def rop_funct7_def c_consts
        shift_amount_32 [OF xlen_ge_32 [OF ok], unfolded SHIFT_MAX_WORD_def]
        shift_amount_bound SRAW_SRA)
  then show ?thesis
    by (simp add: alu_op_correct scast_word_of_int)
qed

lemma immw_op_correct:
  fixes a b :: "'x::len word"
  assumes ok: "xlen_ok TYPE('x)" and op: "op \<in> {ADD, SLL, SRL, SRA_R}"
    and "op = SRL \<Longrightarrow> \<not> bit5" and "op = SRA_R \<Longrightarrow> bit5"
  shows "immw_op (ucast (rop_funct3 op)) bit5 a b =
    Some (word_of_int (signed_take_bit 31 (rop_int op (ucast a :: u32) (ucast b))))"
proof -
  have "immw_op (ucast (rop_funct3 op)) bit5 a b =
      map_option scast (imm_op (ucast (rop_funct3 op)) bit5 (ucast a :: u32) (ucast b))"
    using op by (auto simp: immw_op_def imm_op_def c_consts
        shift_amount_32 [OF xlen_ge_32 [OF ok], unfolded SHIFT_MAX_WORD_def]
        shift_amount_bound SRAW_SRA)
  moreover have "op \<noteq> SUB" using op by auto
  ultimately show ?thesis
    using assms(3,4) by (simp add: imm_op_correct scast_word_of_int)
qed

lemma mw_op_correct:
  fixes a b :: "'x::len word"
  assumes op: "op \<in> {MUL, DIV, DIVU, REM, REMU}"
  shows "mw_op (ucast (mop_funct3 op)) a b =
    Some (word_of_int (signed_take_bit 31 (mop_int op (ucast a :: u32) (ucast b))))"
proof -
  have "mw_op (ucast (mop_funct3 op)) a b =
      map_option scast (m_op (ucast (mop_funct3 op)) (ucast a :: u32) (ucast b))"
    using op by (auto simp: mw_op_def m_op_def c_consts rv_mulw_def rv_mul_def
        rv_divw_eq rv_remw_eq rv_divuw_eq rv_remuw_eq)
  then show ?thesis
    by (simp add: m_op_correct scast_word_of_int)
qed

lemma branch_taken_correct: "branch_taken (ucast (bop_funct3 op)) a b = bop_holds op a b"
  for a b :: "'x::len word"
  by (cases op) (auto simp: branch_taken_def c_consts word_sless_alt word_sle_eq
      word_less_def word_le_def signed_word_eqI)

section \<open>The abstraction\<close>

definition outputs :: "console_event list \<Rightarrow> u32 list" where
  "outputs es = rev (List.map_filter (\<lambda>e. case e of Putchar c \<Rightarrow> Some c | _ \<Rightarrow> None) es)"

definition abs_emu :: "'x::len emu \<Rightarrow> 'x isa" where
  "abs_emu s = \<lparr>isa_regs = \<lambda>r. regfile (cpu s) ! unat r, isa_pc = pc (cpu s),
     isa_mem = mem_byte s, isa_out = outputs (console s)\<rparr>"

lemma outputs_simps [simp]:
  "outputs [] = []" "outputs (Putchar c # es) = outputs es @ [c]"
  "outputs (Warn_opcode o' # es) = outputs es"
  "outputs (Warn_unmapped_read a # es) = outputs es"
  "outputs (Warn_rom_write a # es) = outputs es"
  "outputs (Warn_unmapped_write a # es) = outputs es"
  "outputs (Err_ebreak # es) = outputs es"
  "outputs (Info_exit # es) = outputs es"
  by (simp_all add: outputs_def map_filter_def)

lemma abs_simps [state_simps]:
  "abs_emu (PERF_MODEL_HAZARD instr s) = abs_emu s"
  "abs_emu (PERF_MODEL_BRANCH_HAZARD instr s) = abs_emu s"
  "abs_emu (PERF_MODEL_BRANCH_TAKEN s) = abs_emu s"
  "abs_emu (PERF_MODEL_MEMORY n a s) = abs_emu s"
  by (simp_all add: abs_emu_def state_simps fun_eq_iff)

lemma abs_get_reg: "get_reg s (ucast r) = isa_regs (abs_emu s) r" for r :: regno
  by (simp add: get_reg_def abs_emu_def unat_ucast_up)

lemma unat_regno: "unat r < 32" for r :: regno
  using unat_less [of r] by simp

lemma ucast_regno: "ucast (r :: regno) = (ucast r' :: u8) \<longleftrightarrow> r = r'" "(ucast r :: u8) = 0 \<longleftrightarrow> r = 0"
  "unat (ucast r :: u8) = unat r" "unat r < 32"
proof -
  have u: "unat (ucast r :: u8) = unat r" for r :: regno by (rule unat_ucast_up) simp
  then show "ucast r = (ucast r' :: u8) \<longleftrightarrow> r = r'" "(ucast r :: u8) = 0 \<longleftrightarrow> r = 0"
    "unat (ucast r :: u8) = unat r"
    by (metis unsigned_word_eqI, metis unat_eq_zero, simp)
  show "unat r < 32" using unat_less [of r] by simp
qed

definition finish :: "'x word \<Rightarrow> 'x instr_t \<Rightarrow> 'x::len emu \<Rightarrow> 'x emu" where
  "finish np instr t = set_reg 0 0 (set_pc np (PERF_MODEL_CYCLE instr t))"

lemma process_instr_finish:
  "process_instr m raw s =
    map_option (\<lambda>(c, np, instr, t). (c, finish np instr t)) (exec_opcode m raw (pc (cpu s) + 4) s)"
  by (cases "exec_opcode m raw (pc (cpu s) + 4) s")
     (auto simp: process_instr_def finish_def Let_def)

text \<open>The abstraction of the state after a register has been written, and after none has.\<close>

lemma abs_finish_put:
  fixes s :: "'x::len emu"
  assumes wf: "wf_emu s" and t: "abs_emu t = abs_emu s" "length (regfile (cpu t)) = XRF_SIZE"
  shows "abs_emu (finish np instr (set_reg (ucast rd) (word_of_int v) t)) =
    isa_put rd v (abs_emu s)\<lparr>isa_pc := np\<rparr>"
proof -
  have eq: "isa_regs (abs_emu t) r = isa_regs (abs_emu s) r" for r
    using t(1) by simp
  have regs: "regfile (cpu t) ! unat r = regfile (cpu s) ! unat r" for r :: regno
    using eq [of r] by (simp add: abs_emu_def)
  have rest: "mem_byte t = mem_byte s" "console t = console s \<or> outputs (console t) = outputs (console s)"
    using t(1) by (simp_all add: abs_emu_def)
  have inj: "unat r = unat rd \<longleftrightarrow> r = rd" for r rd :: regno by (metis unsigned_word_eqI)
  have z: "unat r = 0 \<longleftrightarrow> r = 0" for r :: regno by (metis inj unsigned_0)
  have len: "length (regfile (cpu t)) = 32" using t(2) by (simp add: c_consts)
  show ?thesis
    using wf rest len unat_regno [of rd]
    by (auto simp: abs_emu_def finish_def isa_put_def state_simps fun_eq_iff nth_list_update
        unat_ucast_up regs inj z unat_regno wf_emu_def)
qed

lemma abs_finish:
  assumes "wf_emu t"
  shows "abs_emu (finish np instr t) = (abs_emu t)\<lparr>isa_pc := np\<rparr>"
proof -
  have "(regfile (cpu t))[0 := 0] = regfile (cpu t)"
    using assms by (metis list_update_id wf_emu_def)
  then show ?thesis by (simp add: abs_emu_def finish_def state_simps fun_eq_iff)
qed

section \<open>The instructions, class by class\<close>

definition refines :: "bool \<Rightarrow> insn \<Rightarrow> 'x::len emu \<Rightarrow> bool" where
  "refines m i s \<longleftrightarrow>
     (\<exists>s'. process_instr m (encode i) s = Some (fst (isa_exec i (abs_emu s)), s') \<and>
        abs_emu s' = snd (isa_exec i (abs_emu s)))"

lemma refines_put:
  fixes s :: "'x::len emu"
  assumes "wf_emu s"
    and "exec_opcode m (encode i) (pc (cpu s) + 4) s =
      Some (True, np, instr, set_reg (ucast rd) (word_of_int v) t)"
    and "abs_emu t = abs_emu s" "regfile (cpu t) = regfile (cpu s)"
    and "isa_exec i (abs_emu s) = (True, (isa_put rd v (abs_emu s))\<lparr>isa_pc := np\<rparr>)"
  shows "refines m i s"
  using assms abs_finish_put [OF assms(1,3), where np = np and instr = instr and rd = rd and v = v]
  by (simp add: refines_def process_instr_finish wf_emu_def isa_put_def)

lemma refines_keep:
  fixes s :: "'x::len emu"
  assumes "wf_emu s"
    and "exec_opcode m (encode i) (pc (cpu s) + 4) s = Some (c, np, instr, t)"
    and "regfile (cpu t) = regfile (cpu s)"
    and "isa_exec i (abs_emu s) = (c, (abs_emu t)\<lparr>isa_pc := np\<rparr>)"
  shows "refines m i s"
  using assms abs_finish [of t np instr]
  by (simp add: refines_def process_instr_finish wf_emu_def)

lemma isa_pc_abs: "isa_pc (abs_emu s) = pc (cpu s)"
  by (simp add: abs_emu_def)

lemma isa_next_abs: "isa_next (isa_put rd v (abs_emu s)) =
    (isa_put rd v (abs_emu s))\<lparr>isa_pc := pc (cpu s) + 4\<rparr>"
  by (simp add: isa_next_def isa_put_def isa_pc_abs)

lemma opcode_funct_enc:
  "GET_OPCODE (enc_I imm rs1 f3 rd op) = ucast op" "GET_FUNCT3 (enc_I imm rs1 f3 rd op) = ucast f3"
  "GET_RS1 (enc_I imm rs1 f3 rd op) = ucast rs1" "GET_RD (enc_I imm rs1 f3 rd op) = ucast rd"
  "GET_OPCODE (enc_S imm rs2 rs1 f3 op) = ucast op" "GET_FUNCT3 (enc_S imm rs2 rs1 f3 op) = ucast f3"
  "GET_RS1 (enc_S imm rs2 rs1 f3 op) = ucast rs1" "GET_RS2 (enc_S imm rs2 rs1 f3 op) = ucast rs2"
  "GET_OPCODE (enc_B imm rs2 rs1 f3 op) = ucast op" "GET_FUNCT3 (enc_B imm rs2 rs1 f3 op) = ucast f3"
  "GET_RS1 (enc_B imm rs2 rs1 f3 op) = ucast rs1" "GET_RS2 (enc_B imm rs2 rs1 f3 op) = ucast rs2"
  "GET_OPCODE (enc_U imm20 rd op) = ucast op" "GET_RD (enc_U imm20 rd op) = ucast rd"
  "GET_OPCODE (enc_J imm20 rd op) = ucast op" "GET_RD (enc_J imm20 rd op) = ucast rd"
  by (simp_all add: enc_I_def enc_S_def enc_B_def enc_U_def enc_J_def field_simps_riscv)

lemma imm_bit5_enc_I: "CHECK_FUNCT7_BIT5 (enc_I imm rs1 f3 rd op) \<longleftrightarrow> bit imm 10"
  by (simp add: enc_I_def field_simps_riscv bit_simps)

lemmas decode_simps = field_simps_riscv opcode_funct_enc imm_bit5_enc_I
lemmas opcode_defs = OP_RTYPE_def OP_IMM_def OP_RTYPEW_def OP_IMMW_def OP_LOAD_def OP_STORE_def
  OP_BRANCH_def OP_FENCE_def OP_AUIPC_def OP_LUI_def OP_JAL_def OP_JALR_def OP_SYS_def
lemmas exec_simps = exec_opcode_def Let_def opcode_defs instr_init_def store_result_def
  abs_get_reg state_simps isa_next_abs

lemma refines_Rop: "xlen_ok TYPE('x) \<Longrightarrow> wf_emu s \<Longrightarrow> refines m (Rop op rd rs1 rs2) s"
  for s :: "'x::len emu"
proof -
  assume ok: "xlen_ok TYPE('x)" and wf: "wf_emu s"
  have b0: "\<not> bit (rop_funct7 op) 0" by (simp add: rop_funct7_def)
  have code: "(if bit (rop_funct7 op) 5 then 8 else 0) OR ucast (rop_funct3 op) = rop_code op"
    by (simp add: rop_code_def)
  show ?thesis
    by (rule refines_put [OF wf, where t = "PERF_MODEL_HAZARD _ s"])
       (simp_all add: exec_simps exec_rtype_def decode_simps b0 code alu_op_correct [OF ok])
qed

lemma refines_Mop: "xlen_ok TYPE('x) \<Longrightarrow> wf_emu s \<Longrightarrow> m \<Longrightarrow> refines m (Mop op rd rs1 rs2) s"
  for s :: "'x::len emu"
  by (erule refines_put [where t = "PERF_MODEL_HAZARD _ s"])
     (simp_all add: exec_simps exec_rtype_def decode_simps m_op_correct)

lemma take_bit_shift_imm:
  fixes sh :: "'a::len word"
  assumes "n \<le> LENGTH('x::len)" "n \<le> 10"
  shows "take_bit n (scast (shift_imm op sh) :: 'x word) = take_bit n (ucast sh)"
proof (rule bit_word_eqI)
  fix k
  show "bit (take_bit n (scast (shift_imm op sh) :: 'x word)) k = bit (take_bit n (ucast sh :: 'x word)) k"
  proof (cases "k < n")
    case True
    moreover have "\<not> bit (0x400 :: 12 word) k"
      using True assms(2) bit_exp_iff [where 'a = "12 word" and m = 10 and n = k] by simp
    ultimately show ?thesis
      using assms by (auto simp: bit_simps shift_imm_def min_def)
  qed (simp add: bit_simps)
qed

lemma shift_imm_amount:
  fixes sh :: "'a::len word"
  assumes "n \<le> LENGTH('x::len)" "n \<le> 10"
  shows "unat (scast (shift_imm op sh) :: 'x word) mod 2 ^ n = unat (ucast sh :: 'x word) mod 2 ^ n"
  by (simp only: unat_take_bit [symmetric] take_bit_shift_imm [OF assms])

lemma ucast_scast_down:
  "LENGTH('c) \<le> LENGTH('b) \<Longrightarrow>
    (ucast (scast w :: 'b::len word) :: 'c::len word) = scast w" for w :: "'a::len word"
  by (intro bit_word_eqI) (auto simp: bit_simps)

lemma rop_int_shift_imm:
  fixes a :: "'x::len word" and sh :: "'a::len word"
  assumes ok: "xlen_ok TYPE('x)" and op: "op \<in> {SLL, SRL, SRA_R}"
  shows "rop_int op a (scast (shift_imm op sh)) = rop_int op a (ucast sh)"
proof -
  from ok have "unat (scast (shift_imm op sh) :: 'x word) mod LENGTH('x) =
      unat (ucast sh :: 'x word) mod LENGTH('x)"
    by (cases rule: xlen_cases)
       (use shift_imm_amount [of 5 op sh, where 'x = 'x] shift_imm_amount [of 6 op sh, where 'x = 'x]
         in simp_all)
  with op show ?thesis by auto
qed

lemma bit_shift_imm_10: "bit (shift_imm op (sh :: 'a::len word)) 10 \<longleftrightarrow> op = SRA_R" if "LENGTH('a) \<le> 10"
  using that by (auto simp: shift_imm_def bit_simps word_bit_beyond)

lemma refines_imm:
  fixes s :: "'x::len emu"
  assumes "xlen_ok TYPE('x)" and "wf_emu s" and i: "encode i = enc_I imm rs1 (rop_funct3 op) rd 0x13"
    and "op \<noteq> SUB" "op = SRL \<Longrightarrow> \<not> bit imm 10" "op = SRA_R \<Longrightarrow> bit imm 10"
    and "isa_exec i (abs_emu s) =
      (True, isa_next (isa_put rd (rop_int op (isa_regs (abs_emu s) rs1) (scast imm)) (abs_emu s)))"
  shows "refines m i s"
proof -
  have "imm_op (ucast (rop_funct3 op)) (bit imm 10) a b = Some (word_of_int (rop_int op a b))"
    for a b :: "'x word"
    using assms by (intro imm_op_correct) auto
  with assms(7) show ?thesis
    by (intro refines_put [OF assms(2), where t = "PERF_MODEL_HAZARD _ s"])
       (simp_all add: i exec_simps exec_imm_def decode_simps)
qed

lemma refines_Iop:
  fixes s :: "'x::len emu"
  assumes "xlen_ok TYPE('x)" "wf_emu s" "valid_insn TYPE('x) m (Iop op rd rs1 imm)"
  shows "refines m (Iop op rd rs1 imm) s"
  by (rule refines_imm [OF assms(1,2)]) (use assms(3) in \<open>auto simp: valid_insn_def\<close>)

lemma refines_Shift:
  fixes s :: "'x::len emu"
  assumes "xlen_ok TYPE('x)" "wf_emu s" "valid_insn TYPE('x) m (Shift op rd rs1 sh)"
  shows "refines m (Shift op rd rs1 sh) s"
proof (rule refines_imm [OF assms(1,2)])
  have "op \<in> {SLL, SRL, SRA_R}" using assms(3) by (simp add: valid_insn_def)
  then show "isa_exec (Shift op rd rs1 sh) (abs_emu s) = (True, isa_next (isa_put rd
      (rop_int op (isa_regs (abs_emu s) rs1) (scast (shift_imm op sh))) (abs_emu s)))"
    by (simp add: rop_int_shift_imm [OF assms(1)] del: rop_int.simps)
qed (use assms(3) in \<open>auto simp: valid_insn_def bit_shift_imm_10\<close>)

lemma simm20: "scast (push_bit 12 (ucast imm) :: u32) = word_of_int (sint imm * 2 ^ 12)"
  for imm :: "20 word"
proof -
  have "push_bit 12 (ucast imm :: u32) = push_bit 12 (scast imm)"
    by (rule bit_word_eqI) (auto simp: bit_simps)
  also have "\<dots> = word_of_int (sint imm * 2 ^ 12)"
    by (simp add: push_bit_eq_mult)
  finally have "scast (push_bit 12 (ucast imm) :: u32) = word_of_int (signed_take_bit 31 (sint imm * 2 ^ 12))"
    by (simp only: scast_word_of_int)
  moreover have "- (2 ^ 19) \<le> sint imm" "sint imm < 2 ^ 19"
    using sint_ge [of imm] sint_lt [of imm] by simp_all
  ultimately show ?thesis by (simp add: signed_take_bit_int_eq_self)
qed

lemma refines_Lui: "wf_emu s \<Longrightarrow> refines m (Lui rd imm) s"
  for s :: "'x::len emu"
  by (erule refines_put [where t = s])
     (simp_all add: exec_simps exec_lui_def decode_simps simm20)

lemma refines_Auipc: "wf_emu s \<Longrightarrow> refines m (Auipc rd imm) s"
  for s :: "'x::len emu"
  by (erule refines_put [where t = s])
     (simp_all add: exec_simps exec_auipc_def decode_simps simm20 isa_pc_abs)

lemma refines_Fence: "wf_emu s \<Longrightarrow> refines m (Fence rd rs1 imm) s"
  for s :: "'x::len emu"
  by (erule refines_keep [where t = s])
     (simp_all add: exec_simps decode_simps isa_next_def isa_pc_abs)

lemma jump_offset: "push_bit 1 (scast imm) = word_of_int (2 * sint imm)"
  by (simp add: push_bit_eq_mult)

lemma refines_Jal: "wf_emu s \<Longrightarrow> refines m (Jal rd imm) s"
  for s :: "'x::len emu"
  by (erule refines_put [where t = "PERF_MODEL_BRANCH_TAKEN s"])
     (simp_all add: exec_simps exec_jal_def decode_simps jump_offset isa_goto_def isa_put_def
       isa_pc_abs)

lemma and_not_1: "w AND NOT 1 = word_of_int (2 * (k div 2))"
  if "w = word_of_int k" for w :: "'x::len word"
proof (rule bit_word_eqI)
  fix n assume "n < LENGTH('x)"
  moreover have "bit (2 * (k div 2)) n \<longleftrightarrow> bit k n \<and> n \<noteq> 0"
    by (cases n) (simp_all add: bit_0 bit_Suc)
  ultimately show "bit (w AND NOT 1) n = bit (word_of_int (2 * (k div 2)) :: 'x word) n"
    by (simp only: bit_and_iff bit_not_iff bit_1_iff bit_word_of_int_iff that) auto
qed

lemma jalr_target:
  "(a + scast imm) AND NOT 1 = word_of_int (2 * ((sint a + sint imm) div 2))"
  for a :: "'x::len word"
  by (rule and_not_1) simp

lemma refines_Jalr: "wf_emu s \<Longrightarrow> refines m (Jalr rd rs1 imm) s"
  for s :: "'x::len emu"
  by (erule refines_put [where t = "PERF_MODEL_BRANCH_TAKEN (PERF_MODEL_BRANCH_HAZARD _ s)"])
     (simp_all add: exec_simps exec_jalr_def decode_simps jalr_target [simplified] isa_goto_def isa_put_def
       isa_pc_abs)

lemma refines_RopW:
  fixes s :: "'x::len emu"
  assumes ok: "xlen_ok TYPE('x)" and wf: "wf_emu s" and v: "valid_insn TYPE('x) m (RopW op rd rs1 rs2)"
  shows "refines m (RopW op rd rs1 rs2) s"
proof -
  have b0: "\<not> bit (rop_funct7 op) 0" by (simp add: rop_funct7_def)
  have code: "(if bit (rop_funct7 op) 5 then 8 else 0) OR ucast (rop_funct3 op) = rop_code op"
    by (simp add: rop_code_def)
  have op: "RV64 TYPE('x)" "op \<in> {ADD, SUB, SLL, SRL, SRA_R}"
    using v by (simp_all add: valid_insn_def)
  show ?thesis
    by (rule refines_put [OF wf, where t = "PERF_MODEL_HAZARD _ s"])
       (simp_all add: exec_simps exec_rtypew_def decode_simps b0 code op(1) aluw_op_correct [OF ok op(2)])
qed

lemma refines_MopW:
  fixes s :: "'x::len emu"
  assumes wf: "wf_emu s" and v: "valid_insn TYPE('x) m (MopW op rd rs1 rs2)"
  shows "refines m (MopW op rd rs1 rs2) s"
proof -
  have op: "RV64 TYPE('x)" "m" "op \<in> {MUL, DIV, DIVU, REM, REMU}"
    using v by (simp_all add: valid_insn_def)
  show ?thesis
    by (rule refines_put [OF wf, where t = "PERF_MODEL_HAZARD _ s"])
       (simp_all add: exec_simps exec_rtypew_def decode_simps op(1,2) mw_op_correct [OF op(3)])
qed


lemma refines_AddiW:
  fixes s :: "'x::len emu"
  assumes ok: "xlen_ok TYPE('x)" and wf: "wf_emu s" and v: "valid_insn TYPE('x) m (AddiW rd rs1 imm)"
  shows "refines m (AddiW rd rs1 imm) s"
proof -
  have add: "immw_op 0 b5 a (scast imm) = Some (word_of_int (signed_take_bit 31 (uint a + sint imm)))"
    for a :: "'x word" and b5
  proof -
    have "ucast a + ucast (scast imm :: 'x word) = (word_of_int (uint a + sint imm) :: u32)"
      by (simp add: ucast_scast_down xlen_ge_32 [OF ok])
    then have "scast (ucast a + ucast (scast imm :: 'x word) :: u32) =
        (word_of_int (signed_take_bit 31 (uint a + sint imm)) :: 'x word)"
      by (simp only: scast_word_of_int)
    then show ?thesis by (simp add: immw_op_def c_consts)
  qed
  have op: "RV64 TYPE('x)"
    using v by (simp add: valid_insn_def)
  show ?thesis
    by (rule refines_put [OF wf, where t = "PERF_MODEL_HAZARD _ s"])
       (simp_all add: exec_simps exec_immw_def decode_simps op add)
qed

lemma refines_ShiftW:
  fixes s :: "'x::len emu"
  assumes ok: "xlen_ok TYPE('x)" and wf: "wf_emu s" and v: "valid_insn TYPE('x) m (ShiftW op rd rs1 sh)"
  shows "refines m (ShiftW op rd rs1 sh) s"
proof -
  have op: "RV64 TYPE('x)" "op \<in> {ADD, SLL, SRL, SRA_R}" "op \<in> {SLL, SRL, SRA_R}"
    using v by (auto simp: valid_insn_def)
  have code: "immw_op (ucast (rop_funct3 op)) (bit (shift_imm op sh) 10) a (scast (shift_imm op sh)) =
      Some (word_of_int (signed_take_bit 31 (rop_int op (ucast a :: u32) (ucast sh))))" for a :: "'x word"
    using op(3) by (subst immw_op_correct [OF ok op(2)])
      (auto simp: bit_shift_imm_10 ucast_scast_down xlen_ge_32 [OF ok] rop_int_shift_imm
        simp del: rop_int.simps)
  show ?thesis
    by (rule refines_put [OF wf, where t = "PERF_MODEL_HAZARD _ s"])
       (simp_all add: exec_simps exec_immw_def decode_simps op(1) code)
qed

lemma refines_Branch: "wf_emu s \<Longrightarrow> refines m (Branch op rs1 rs2 imm) s"
  for s :: "'x::len emu"
proof (cases "bop_holds op (isa_regs (abs_emu s) rs1) (isa_regs (abs_emu s) rs2)")
  case True
  assume "wf_emu s"
  with True show ?thesis
    by (elim refines_keep [where t = "PERF_MODEL_BRANCH_TAKEN (PERF_MODEL_BRANCH_HAZARD _ s)"])
       (simp_all add: exec_simps exec_branch_def decode_simps branch_taken_correct jump_offset
         isa_goto_def isa_pc_abs)
next
  case False
  assume "wf_emu s"
  with False show ?thesis
    by (elim refines_keep [where t = "PERF_MODEL_BRANCH_HAZARD _ s"])
       (simp_all add: exec_simps exec_branch_def decode_simps branch_taken_correct
         isa_next_def isa_pc_abs)
qed

subsection \<open>Memory\<close>

lemma unat_isa_addr: "unat (isa_regs (abs_emu s) r + scast imm) = isa_addr (abs_emu s) r imm"
  for s :: "'x::len emu"
proof -
  let ?a = "isa_regs (abs_emu s) r"
  have "?a + scast imm = word_of_int (sint ?a + sint imm)" by simp
  then have "uint (?a + scast imm) = (sint ?a + sint imm) mod 2 ^ LENGTH('x)"
    by (simp only: uint_word_of_int_eq take_bit_eq_mod)
  then show ?thesis by (simp only: isa_addr_def) (metis nat_uint_eq)
qed

lemma isa_bytes_abs: "isa_bytes (abs_emu s) a k = mem_bytes s a k"
  by (simp add: isa_bytes_def mem_bytes_def abs_emu_def)

lemma lop_correct:
  fixes v :: "'x::len word"
  assumes "RV64 TYPE('x) \<or> op \<notin> {LD, LWU}"
  shows "op_size TYPE('x) (ucast (lop_funct3 op)) = lop_size op"
    and "load_value (ucast (lop_funct3 op)) bs v = word_of_int (lop_int op bs)"
  using assms
  by (cases op; simp add: op_size_def op_range_def load_value_def signed_load_def
      unsigned_load_def lop_int_def lop_signed_def c_consts)+

lemma isa_put_same: "wf_emu s \<Longrightarrow> isa_put rd (uint (isa_regs (abs_emu s) rd)) (abs_emu s) = abs_emu s"
  by (auto simp: isa_put_def abs_emu_def wf_emu_def fun_eq_iff)

lemma mem_bytes_hazard: "mem_bytes (PERF_MODEL_HAZARD instr s) a k = mem_bytes s a k"
  by (simp add: mem_bytes_def state_simps)

lemma abs_emit:
  "abs_emu (emit (Warn_unmapped_read a) s) = abs_emu s"
  "abs_emu (emit Info_exit s) = abs_emu s"
  "abs_emu (emit (Putchar c) s) = (abs_emu s)\<lparr>isa_out := isa_out (abs_emu s) @ [c]\<rparr>"
  by (simp_all add: abs_emu_def state_simps fun_eq_iff)

lemma refines_Load:
  fixes s :: "'x::len emu"
  assumes ok: "xlen_ok TYPE('x)" and wf: "wf_emu s" and v: "valid_insn TYPE('x) m (Load op rd rs1 imm)"
  shows "refines m (Load op rd rs1 imm) s"
proof -
  define i where "i = (instr_init :: 'x instr_t)\<lparr>i_rs1 := ucast rs1, i_rd := ucast rd,
    is_reg_write := True, is_mem_load := True, i_imm := scast imm\<rparr>"
  let ?s = "PERF_MODEL_HAZARD i s" and ?a = "isa_addr (abs_emu s) rs1 imm"
  have op: "RV64 TYPE('x) \<or> op \<notin> {LD, LWU}"
    using v by (simp add: valid_insn_def)
  have e: "exec_opcode m (encode (Load op rd rs1 imm)) (pc (cpu s) + 4) s =
      Some (True, pc (cpu s) + 4, i, case mem_bytes s ?a (lop_size op) of
        Some bs \<Rightarrow> set_reg (ucast rd) (word_of_int (lop_int op bs))
          (PERF_MODEL_MEMORY (of_nat (lop_size op)) (isa_regs (abs_emu s) rs1 + scast imm) ?s)
      | None \<Rightarrow> set_reg (ucast rd) (word_of_int (uint (isa_regs (abs_emu s) rd)))
          (emit (Warn_unmapped_read (ucast (isa_regs (abs_emu s) rs1 + scast imm))) ?s))"
    by (simp add: exec_opcode_def opcode_defs exec_load_def decode_simps Let_def i_def [symmetric]
        split del: if_split)
       (simp add: i_def instr_init_def bus_read_eq [OF ok] abs_get_reg state_simps unat_isa_addr
        lop_correct [OF op] mem_bytes_hazard split: option.split)
  show ?thesis
  proof (cases "mem_bytes s ?a (lop_size op)")
    case None
    with e show ?thesis
      by (intro refines_put [OF wf, where rd = rd and v = "uint (isa_regs (abs_emu s) rd)" and instr = i
            and t = "emit (Warn_unmapped_read (ucast (isa_regs (abs_emu s) rs1 + scast imm))) ?s"])
         (auto simp: isa_put_same [OF wf] isa_bytes_abs isa_next_def isa_pc_abs state_simps abs_emit)
  next
    case (Some bs)
    with e show ?thesis
      by (intro refines_put [OF wf, where rd = rd and v = "lop_int op bs" and instr = i
            and t = "PERF_MODEL_MEMORY (of_nat (lop_size op)) (isa_regs (abs_emu s) rs1 + scast imm) ?s"])
         (auto simp: isa_bytes_abs isa_next_abs state_simps)
  qed
qed

text \<open>A store.\<close>

lemma sop_correct:
  assumes "RV64 TYPE('x::len) \<or> op \<noteq> SD"
  shows "op_size TYPE('x) (ucast (sop_funct3 op)) = sop_size op"
    and "is_store TYPE('x) (ucast (sop_funct3 op))"
  using assms
  by (cases op; simp add: op_size_def op_range_def is_store_def c_consts)+

lemma ram_range_store:
  assumes "RV64 TYPE('x::len) \<or> op \<noteq> SD"
  shows "ram_range TYPE('x) a (ucast (sop_funct3 op)) \<longleftrightarrow> (\<forall>i < sop_size op. in_ram_addr (a + i))"
proof -
  have "0 < sop_size op" by (cases op) simp_all
  then show ?thesis
    by (auto simp: ram_range_def sop_correct [OF assms] in_ram_addr_def c_consts
        dest: spec [of _ 0] spec [of _ "sop_size op - 1"])
qed

lemma abs_bus_write:
  fixes addr :: "'x::len word"
  assumes ok: "xlen_ok TYPE('x)" and w: "bus_write addr (ucast (sop_funct3 op)) v s = Some s'"
    and op: "RV64 TYPE('x) \<or> op \<noteq> SD"
  shows "abs_emu s' = isa_store (unat addr) (sop_size op) v (abs_emu s)"
proof -
  note ram = ram_range_store [OF op]
  have byte: "ucast (drop_bit (8 * i) v) = (word_of_int (uint v div 256 ^ i) :: u8)" for i
    by (simp only: ucast_eq uint_drop_bit) (simp add: power_mult)
  have "outputs (console s') = outputs (console s)"
    using w by (auto simp: bus_write_eq [OF ok] state_simps split: if_splits)
  then show ?thesis
    using bus_write_frame [OF ok w]
    by (cases "\<forall>i < sop_size op. in_ram_addr (unat addr + i)")
       (auto simp: abs_emu_def isa_store_def fun_eq_iff bus_write_mem_byte [OF ok w] ram
        sop_correct [OF op] byte)
qed

lemma refines_Store:
  fixes s :: "'x::len emu"
  assumes ok: "xlen_ok TYPE('x)" and wf: "wf_emu s" and v: "valid_insn TYPE('x) m (Store op rs1 rs2 imm)"
  shows "refines m (Store op rs1 rs2 imm) s"
proof -
  define i where "i = (instr_init :: 'x instr_t)\<lparr>i_rs1 := ucast rs1, i_rs2 := ucast rs2, i_imm := scast imm\<rparr>"
  have op: "RV64 TYPE('x) \<or> op \<noteq> SD" using v by (simp add: valid_insn_def)
  obtain t where t: "bus_write (isa_regs (abs_emu s) rs1 + scast imm) (ucast (sop_funct3 op))
      (isa_regs (abs_emu s) rs2) (PERF_MODEL_HAZARD i s) = Some t"
    using bus_total(2) [OF ok] by blast
  have e: "exec_opcode m (encode (Store op rs1 rs2 imm)) (pc (cpu s) + 4) s =
      Some (True, pc (cpu s) + 4, i, t)"
    using t by (simp add: exec_opcode_def opcode_defs exec_store_def decode_simps Let_def
        i_def [symmetric]) (simp add: i_def instr_init_def abs_get_reg state_simps)
  have a: "abs_emu t = isa_store (isa_addr (abs_emu s) rs1 imm) (sop_size op)
      (isa_regs (abs_emu s) rs2) (abs_emu s)"
    using abs_bus_write [OF ok t op] by (simp add: unat_isa_addr state_simps)
  show ?thesis
    by (rule refines_keep [OF wf e])
       (use bus_write_frame [OF ok t] in \<open>simp_all add: a state_simps isa_next_def isa_store_def
         isa_pc_abs\<close>)
qed

subsection \<open>Environment calls\<close>

lemma abs_get_A: "get_reg s A0 = isa_regs (abs_emu s) 10" "get_reg s A1 = isa_regs (abs_emu s) 11"
  using abs_get_reg [of s 10] abs_get_reg [of s 11] by (simp_all add: c_consts)

lemmas sys_simps = exec_simps exec_sys_def exec_esys_def decode_simps ESYS_def CSR_IMM_def EBREAK_def
  abs_get_A E_EXIT_def E_CHAR_def isa_next_def isa_pc_abs

lemma refines_Ebreak: "wf_emu s \<Longrightarrow> refines m Ebreak s"
  for s :: "'x::len emu"
  by (erule refines_keep [where t = "emit Err_ebreak (PERF_MODEL_HAZARD _ s)" and c = False])
     (simp_all add: sys_simps abs_emu_def fun_eq_iff)

lemma refines_Ecall:
  fixes s :: "'x::len emu"
  assumes wf: "wf_emu s"
  shows "refines m Ecall s"
proof -
  define i where "i = (instr_init :: 'x instr_t)"
  let ?s = "PERF_MODEL_HAZARD i s" and ?a0 = "isa_regs (abs_emu s) 10"
  have e: "exec_opcode m (encode Ecall) (pc (cpu s) + 4) s =
      Some (?a0 \<noteq> 10, pc (cpu s) + 4, i,
        if ?a0 = 10 then emit Info_exit ?s
        else if ?a0 = 11 then emit (Putchar (ucast (isa_regs (abs_emu s) 11))) ?s else ?s)"
    by (simp add: sys_simps i_def)
  show ?thesis
    by (rule refines_keep [OF wf e])
       (auto simp: state_simps isa_next_def isa_pc_abs abs_emit)
qed

section \<open>The refinement theorem\<close>

lemma process_instr_refines:
  fixes s :: "'x::len emu"
  assumes "xlen_ok TYPE('x)" "wf_emu s" "valid_insn TYPE('x) m i"
  shows "refines m i s"
  using assms
  by (cases i) (simp_all add: refines_Rop refines_Mop refines_Iop refines_Shift refines_RopW
      refines_MopW refines_AddiW refines_ShiftW refines_Load refines_Store refines_Branch
      refines_Lui refines_Auipc refines_Jal refines_Jalr refines_Fence refines_Ecall refines_Ebreak
      valid_insn_def [of _ m "Mop _ _ _ _"])

section \<open>Properties\<close>

lemma mcycle_store_result: "mcycle (store_result rd v s) = mcycle s"
  by (simp add: store_result_def state_simps split: option.split)

lemma process_Rop_cycles:
  assumes "process_instr m (encode (Rop op rd rs1 rs2)) s = Some (c, s')"
  shows "mcycle s' = mcycle s + 1 + of_bool (hazard_stall (perf_model s) (ucast rs1) (ucast rs2))"
  using assms unfolding process_instr_finish exec_opcode_def Let_def opcode_defs
  by (auto simp: exec_rtype_def decode_simps Let_def finish_def mcycle_store_result
      instr_init_def mcycle_simps mcycle_hazard)

lemma process_Load_hazard:
  fixes s :: "'x::len emu"
  assumes p: "process_instr m (encode (Load op rd rs1 imm)) s = Some (c, s')"
  shows "prev_mem_load (perf_model s')" "prev_rd (perf_model s') = ucast rd"
  using p unfolding process_instr_finish exec_opcode_def Let_def opcode_defs
  by (auto simp: exec_load_def decode_simps Let_def bind_eq_Some_conv
      finish_def PERF_MODEL_CYCLE_def set_reg_def set_pc_def instr_init_def)

lemma abs_init: "isa_regs (abs_emu init_emu) r = 0" "isa_pc (abs_emu init_emu) = 0"
  by (simp_all add: abs_emu_def unat_regno)

text \<open>C2. The emulator implements the instruction set: executing the encoding of a valid
  instruction has on the abstract state exactly the effect the specification gives it, and continues
  exactly when the specification does.\<close>

theorem process_instr_implements_isa:
  fixes s :: "'x::len emu"
  assumes "xlen_ok TYPE('x)" and "wf_emu s" and "valid_insn TYPE('x) m i"
  shows "\<exists>s'. process_instr m (encode i) s = Some (fst (isa_exec i (abs_emu s)), s') \<and>
    abs_emu s' = snd (isa_exec i (abs_emu s))"
  using process_instr_refines [OF assms] by (simp add: refines_def)

theorem process_instr_implements_isa_witness:
  "\<exists>s'. process_instr True (encode (Iop ADD 10 0 42)) (init_emu :: 32 emu) = Some (True, s') \<and>
     isa_regs (abs_emu s') 10 = 42 \<and> isa_pc (abs_emu s') = 4"
proof -
  have "valid_insn TYPE(32) True (Iop ADD 10 0 42)" by (simp add: valid_insn_def)
  from process_instr_implements_isa [OF xlen_ok_simps(1) wf_init_emu this] obtain s' where
    "process_instr True (encode (Iop ADD 10 0 42)) (init_emu :: 32 emu) = Some (True, s')"
    "abs_emu s' = isa_next (isa_put 10 42 (abs_emu init_emu))"
    by (auto simp: abs_init)
  then show ?thesis by (auto simp: isa_next_def isa_put_def abs_init)
qed

text \<open>An operation right after a load takes one cycle more when it reads the register
  the load wrote, and a single cycle otherwise.\<close>

lemma load_use_stall:
  assumes l: "process_instr m (encode (Load lop rd r imm)) s = Some (c1, s1)" and "rd \<noteq> 0"
    and p: "process_instr m (encode (Rop op rd2 rs1 rs2)) s1 = Some (c2, s2)"
  shows "mcycle s2 = mcycle s1 + (if rs1 = rd \<or> rs2 = rd then 2 else 1)"
proof -
  have "hazard_stall (perf_model s1) (ucast rs1) (ucast rs2) \<longleftrightarrow> rs1 = rd \<or> rs2 = rd"
    using process_Load_hazard [OF l] \<open>rd \<noteq> 0\<close> by (auto simp: hazard_stall_def ucast_regno)
  then show ?thesis by (simp add: process_Rop_cycles [OF p])
qed

end
