(* ===== verification/Emulator.thy ===== *)
theory Emulator
  imports Isa_Refine
begin

text \<open>
  \<^verbatim>\<open>src/main.c\<close>: loading the ROM image, the fetch-and-execute loop and the exit
  codes of the program.

  The environment is passed in: the command line's length, the contents of the file the
  argument names (\<open>None\<close> when it cannot be opened), and the difference of the two
  \<open>clock()\<close> values, in ticks.
\<close>

section \<open>The program\<close>

definition load_rom_binary :: "u8 list option \<Rightarrow> 'x::len emu \<Rightarrow> bool \<times> 'x emu" where
  "load_rom_binary file s = (case file of
     None \<Rightarrow> (False, emit Err_open s)
   | Some bytes \<Rightarrow>
       let bytes_read = min (length bytes) (unat ROM_SIZE);
           image = (\<lambda>i. if i < bytes_read then bytes ! i else rom (cpu s) i);
           s = s\<lparr>cpu := (cpu s)\<lparr>rom := image\<rparr>\<rparr>
       in (True, emit (Info_loaded (of_nat bytes_read)) s))"

text \<open>
  The loop of \<open>main\<close>; the result says whether it left \<open>main\<close> with code 1 because the
  fetched word was 0.
\<close>

partial_function (option) main_loop ::
  "bool \<Rightarrow> bool \<Rightarrow> 'x::len emu \<Rightarrow> (bool \<times> 'x emu) option" where
  "main_loop m_ext instr_loop s =
     (if instr_loop \<and> mcycle s < MAX_CYCLES then do {
        (bus_val, s) \<leftarrow> bus_read (pc (cpu s)) MEM_W 0 s;
        let instr = (ucast bus_val :: u32);
        if instr = 0 then Some (True, s)
        else do {
          (instr_loop, s) \<leftarrow> process_instr m_ext instr s;
          main_loop m_ext instr_loop s } }
      else Some (False, s))"

definition main :: "bool \<Rightarrow> nat \<Rightarrow> u8 list option \<Rightarrow> int \<Rightarrow> 'x::len emu \<Rightarrow> (nat \<times> 'x emu) option" where
  "main m_ext argc file elapsed s =
     (if argc \<noteq> 2 then Some (1, emit Usage s)
      else let (loaded, s) = load_rom_binary file s in
        if \<not> loaded then Some (1, s)
        else do {
          (zero_instr, s) \<leftarrow> main_loop m_ext True s;
          if zero_instr then Some (1, s)
          else if mcycle s < MAX_CYCLES then
            let s = emit (Info_cycles (mcycle s)) s in
            if elapsed > 0 then Some (0, emit (Info_frequency (mcycle s) (nat elapsed)) s)
            else Some (0, emit Info_frequency_inf s)
          else Some (0, emit Info_cycle_limit s) })"

section \<open>The contract of a clocked loop\<close>

text \<open>
  A loop that runs until its body says so or a clock reaches a limit.  The body
  succeeds in every state of the invariant and moves the clock forward.
\<close>

locale clocked_loop =
  fixes body :: "'s \<Rightarrow> (('r \<times> 's) + 's) option"
    and loop :: "'s \<Rightarrow> ('r \<times> 's) option"
    and timeout :: 'r
    and clock :: "'s \<Rightarrow> nat"
    and inv :: "'s \<Rightarrow> bool"
    and limit :: nat
  assumes loop_unfold: "loop s = (if clock s < limit
      then case body s of None \<Rightarrow> None | Some (Inl r) \<Rightarrow> Some r | Some (Inr t) \<Rightarrow> loop t
      else Some (timeout, s))"
    and body_total: "inv s \<Longrightarrow> clock s < limit \<Longrightarrow> body s \<noteq> None"
    and body_inv: "inv s \<Longrightarrow> clock s < limit \<Longrightarrow> body s = Some (Inr t) \<Longrightarrow> inv t \<and> clock s < clock t"
begin

text \<open>The states at the head of the loop.\<close>

definition heads :: "'s \<Rightarrow> 's \<Rightarrow> bool" where
  "heads = (\<lambda>s t. clock s < limit \<and> body s = Some (Inr t))\<^sup>*\<^sup>*"

lemma heads_inv: "heads s t \<Longrightarrow> inv s \<Longrightarrow> inv t"
  unfolding heads_def by (induction rule: rtranclp_induct) (auto dest: body_inv)

text \<open>The loop ends, and it ends in the way its last iteration says.\<close>

lemma loop_ends:
  assumes "inv s"
  obtains r u t where "loop s = Some (r, u)" "heads s t" "inv t"
    "clock t < limit \<and> body t = Some (Inl (r, u)) \<or> limit \<le> clock t \<and> r = timeout \<and> u = t"
  using assms
proof (induction "limit - clock s" arbitrary: s thesis rule: less_induct)
  case less
  show ?case
  proof (cases "clock s < limit")
    case False
    then show ?thesis
      using less.prems(1) [of timeout s s] less.prems(2) by (simp add: loop_unfold heads_def)
  next
    case True
    from body_total [OF less.prems(2) True] obtain x where x: "body s = Some x" by blast
    show ?thesis
    proof (cases x)
      case (Inl r)
      then show ?thesis
        using less.prems x True
        by (cases r) (auto simp: loop_unfold heads_def)
    next
      case (Inr t)
      with body_inv [OF less.prems(2) True] x have t: "inv t" "clock s < clock t" by simp_all
      then have "limit - clock t < limit - clock s" using True by simp
      from less.hyps [OF this _ t(1)] obtain r u v where
        ih: "loop t = Some (r, u)" "heads t v" "inv v"
          "clock v < limit \<and> body v = Some (Inl (r, u)) \<or> limit \<le> clock v \<and> r = timeout \<and> u = v"
        by blast
      moreover have "heads s v"
        using ih(2) x Inr True unfolding heads_def by (simp add: converse_rtranclp_into_rtranclp)
      moreover have "loop s = loop t"
        using x Inr True by (subst loop_unfold) simp
      ultimately show ?thesis using less.prems(1) by metis
    qed
  qed
qed

end

section \<open>Iterations\<close>

text \<open>One iteration of the loop as a function, and the iterations that execute an instruction as a relation.\<close>

definition loop_body :: "bool \<Rightarrow> 'x::len emu \<Rightarrow> ((bool \<times> 'x emu) + 'x emu) option" where
  "loop_body m_ext s = do {
     (bus_val, s) \<leftarrow> bus_read (pc (cpu s)) MEM_W 0 s;
     if (ucast bus_val :: u32) = 0 then Some (Inl (True, s))
     else do {
       (instr_loop, s) \<leftarrow> process_instr m_ext (ucast bus_val) s;
       Some (if instr_loop then Inr s else Inl (False, s)) } }"

inductive emu_step :: "bool \<Rightarrow> 'x::len emu \<Rightarrow> bool \<Rightarrow> 'x emu \<Rightarrow> bool" for m_ext where
  emu_step: "mcycle s < MAX_CYCLES \<Longrightarrow> bus_read (pc (cpu s)) MEM_W 0 s = Some (v, t) \<Longrightarrow>
    (ucast v :: u32) \<noteq> 0 \<Longrightarrow> process_instr m_ext (ucast v) t = Some (c, s') \<Longrightarrow>
    emu_step m_ext s c s'"

inductive_cases emu_stepE: "emu_step m_ext s c s'"
inductive_simps emu_step_iff: "emu_step m_ext s c s'"

inductive emu_reach :: "bool \<Rightarrow> 'x::len emu \<Rightarrow> 'x emu \<Rightarrow> bool" for m_ext s where
  start: "emu_reach m_ext s s"
| step: "emu_reach m_ext s t \<Longrightarrow> emu_step m_ext t True u \<Longrightarrow> emu_reach m_ext s u"

lemma emu_step_frame:
  fixes s :: "'x::len emu"
  assumes ok: "xlen_ok TYPE('x)" and st: "emu_step m s c s'"
  shows "rom (cpu s') = rom (cpu s)" "minstret s' = minstret s + 1"
    "\<exists>d. 1 \<le> d \<and> d \<le> 6 \<and> unat (mcycle s') = unat (mcycle s) + d"
    "wf_emu s \<Longrightarrow> wf_emu s'"
proof -
  from st obtain v t where m: "mcycle s < MAX_CYCLES"
    and f: "bus_read (pc (cpu s)) MEM_W 0 s = Some (v, t)"
    and p: "process_instr m (ucast v) t = Some (c, s')"
    by (rule emu_stepE)
  note ff = bus_read_frame [OF ok f] and pf = process_instr_frame [OF ok p]
  show "rom (cpu s') = rom (cpu s)" "minstret s' = minstret s + 1"
    using ff pf by simp_all
  obtain d e where "d \<le> 1" "1 \<le> e" "e \<le> 5" "mcycle s' = mcycle s + of_nat (d + e)"
    using ff(4) pf(4) by (auto simp: ac_simps)
  moreover have "unat (mcycle s) < unat MAX_CYCLES" using m by (simp add: word_less_nat_alt)
  ultimately have "unat (mcycle s') = unat (mcycle s) + (d + e)"
    by (simp only:) (rule unat_plus_of_nat, simp add: c_consts)
  with \<open>d \<le> 1\<close> \<open>1 \<le> e\<close> \<open>e \<le> 5\<close>
  show "\<exists>d. 1 \<le> d \<and> d \<le> 6 \<and> unat (mcycle s') = unat (mcycle s) + d"
    by (intro exI [of _ "d + e"]) simp
  show "wf_emu s'" if "wf_emu s"
    using process_instr_wf [OF ok _ p] ff(1) that by (simp add: wf_emu_def)
qed

lemma loop_body_step:
  "mcycle s < MAX_CYCLES \<Longrightarrow> loop_body m s = Some (Inr t) \<longleftrightarrow> emu_step m s True t"
  by (auto simp: loop_body_def emu_step_iff bind_eq_Some_conv split: if_splits)

lemma loop_body_total:
  fixes s :: "'x::len emu"
  assumes "xlen_ok TYPE('x)"
  shows "loop_body m s \<noteq> None"
proof -
  obtain v t where "bus_read (pc (cpu s)) MEM_W 0 s = Some (v, t)"
    using bus_total(1) [OF assms] by blast
  moreover obtain c u where "process_instr m (ucast v) t = Some (c, u)"
    by (rule process_instr_total [OF assms])
  ultimately show ?thesis by (simp add: loop_body_def)
qed

lemma main_loop_unfold:
  "main_loop m True s = (if unat (mcycle s) < unat MAX_CYCLES
     then case loop_body m s of None \<Rightarrow> None | Some (Inl r) \<Rightarrow> Some r | Some (Inr t) \<Rightarrow> main_loop m True t
     else Some (False, s))"
proof -
  have stop: "main_loop m False t = Some (False, t)" for t :: "'a emu"
    by (subst main_loop.simps) simp
  show ?thesis
    by (subst main_loop.simps)
      (auto simp: loop_body_def word_less_nat_alt stop Let_def bind_eq_None_conv
        split: option.splits bind_splits)
qed

interpretation emu: clocked_loop "loop_body m" "main_loop m True" False "\<lambda>s. unat (mcycle s)"
    "\<lambda>s :: 'x::len emu. xlen_ok TYPE('x) \<and> wf_emu s" "unat MAX_CYCLES" for m
proof unfold_locales
  fix s t :: "'x emu"
  show "main_loop m True s = (if unat (mcycle s) < unat MAX_CYCLES
      then case loop_body m s of None \<Rightarrow> None | Some (Inl r) \<Rightarrow> Some r | Some (Inr t) \<Rightarrow> main_loop m True t
      else Some (False, s))"
    by (rule main_loop_unfold)
  assume inv: "xlen_ok TYPE('x) \<and> wf_emu s" and lt: "unat (mcycle s) < unat MAX_CYCLES"
  then show "loop_body m s \<noteq> None" by (simp add: loop_body_total)
  assume "loop_body m s = Some (Inr t)"
  with lt have "emu_step m s True t" by (simp add: loop_body_step word_less_nat_alt)
  from emu_step_frame(3,4) [OF _ this] inv
  show "(xlen_ok TYPE('x) \<and> wf_emu t) \<and> unat (mcycle s) < unat (mcycle t)" by force
qed

lemma emu_heads: "emu.heads m s t \<longleftrightarrow> emu_reach m s t"
proof
  have eq: "(\<lambda>s t. unat (mcycle s) < unat MAX_CYCLES \<and> loop_body m s = Some (Inr t)) =
      (\<lambda>s t. emu_step m s True t)"
    by (auto simp: fun_eq_iff loop_body_step word_less_nat_alt) (auto simp: emu_step_iff word_less_nat_alt loop_body_def)
  show "emu_reach m s t" if "emu.heads m s t"
    using that unfolding emu.heads_def eq
    by (induction rule: rtranclp_induct) (auto intro: emu_reach.intros)
  show "emu.heads m s t" if "emu_reach m s t"
    using that unfolding emu.heads_def eq
    by induction (auto intro: rtranclp.rtrancl_into_rtrancl)
qed

lemma main_loop_ends:
  fixes s :: "'x::len emu"
  assumes "xlen_ok TYPE('x)" "wf_emu s"
  obtains z u t where "main_loop m True s = Some (z, u)" "emu_reach m s t" "wf_emu t"
    "mcycle t < MAX_CYCLES \<and> loop_body m t = Some (Inl (z, u)) \<or>
     MAX_CYCLES \<le> mcycle t \<and> \<not> z \<and> u = t"
  using emu.loop_ends [where m = m and s = s] assms
  by (auto simp: emu_heads word_less_nat_alt word_le_nat_alt)

section \<open>Invariants of the reachable states\<close>

lemma emu_reach_invariant:
  fixes s :: "'x::len emu"
  assumes ok: "xlen_ok TYPE('x)" and r: "emu_reach m s t"
  shows "rom (cpu t) = rom (cpu s)" "wf_emu s \<Longrightarrow> wf_emu t"
    "\<exists>n. minstret t = minstret s + of_nat n \<and>
       unat (mcycle s) + n \<le> unat (mcycle t) \<and> unat (mcycle t) \<le> unat (mcycle s) + 6 * n"
  using r
proof (induction)
  case start
  { case 1 show ?case by simp }
  { case 2 then show ?case by simp }
  { case 3 show ?case by (intro exI [of _ 0]) simp }
next
  case (step t u)
  note f = emu_step_frame [OF ok step.hyps(2)]
  { case 1 show ?case using step.IH f by simp }
  { case 2 then show ?case using step.IH f by simp }
  { case 3
    from step.IH(3) obtain n where "minstret t = minstret s + of_nat n"
      "unat (mcycle s) + n \<le> unat (mcycle t)" "unat (mcycle t) \<le> unat (mcycle s) + 6 * n" by blast
    with f show ?case by (intro exI [of _ "Suc n"]) auto }
qed

lemma emu_reach_limit:
  fixes s :: "'x::len emu"
  assumes ok: "xlen_ok TYPE('x)" and r: "emu_reach m s t" "s \<noteq> t"
  shows "unat (mcycle t) < unat MAX_CYCLES + 6"
  using r
proof (cases rule: emu_reach.cases)
  case (step u)
  then have "unat (mcycle u) < unat MAX_CYCLES"
    by (auto simp: emu_step_iff word_less_nat_alt)
  with emu_step_frame(3) [OF ok step(2)] show ?thesis by auto
qed simp

lemma load_rom_binary_simps:
  "wf_emu (snd (load_rom_binary file s)) = wf_emu s"
  "fst (load_rom_binary file s) \<longleftrightarrow> file \<noteq> None"
  "mcycle (snd (load_rom_binary file s)) = mcycle s"
  "minstret (snd (load_rom_binary file s)) = minstret s"
  by (auto simp: load_rom_binary_def wf_emu_def state_simps Let_def split: option.splits)

lemma loop_body_wf:
  fixes s :: "'x::len emu"
  assumes ok: "xlen_ok TYPE('x)" and wf: "wf_emu s" and b: "loop_body m s = Some (Inl (z, u))"
  shows "wf_emu u"
proof -
  from b obtain v t where f: "bus_read (pc (cpu s)) MEM_W 0 s = Some (v, t)"
    and u: "u = t \<or> process_instr m (ucast v) t = Some (False, u)"
    by (auto simp: loop_body_def bind_eq_Some_conv split: if_splits)
  have "wf_emu t" using bus_read_frame(1) [OF ok f] wf by (simp add: wf_emu_def)
  with u show ?thesis using process_instr_wf [OF ok] by blast
qed

lemma main_total:
  fixes s :: "'x::len emu"
  assumes ok: "xlen_ok TYPE('x)" and wf: "wf_emu s"
  shows "\<exists>code u. main m argc file elapsed s = Some (code, u) \<and> code \<le> 1 \<and> wf_emu u"
proof -
  define t where "t = snd (load_rom_binary file s)"
  have l: "load_rom_binary file s = (file \<noteq> None, t)"
    by (rule prod_eqI) (simp_all add: load_rom_binary_simps t_def)
  have "wf_emu t" using wf by (simp add: t_def load_rom_binary_simps)
  from main_loop_ends [OF ok this] obtain z u v where
    r: "main_loop m True t = Some (z, u)" and "wf_emu v"
      "loop_body m v = Some (Inl (z, u)) \<or> u = v"
    by metis
  then have "wf_emu u" using loop_body_wf [OF ok] by blast
  with r \<open>wf_emu t\<close> wf show ?thesis
    by (auto simp: main_def l wf_emu_def state_simps Let_def)
qed

section \<open>Running a program\<close>

text \<open>
  The abstract processor fetches the four bytes at the program counter; it has a step when
  they are the encoding of a valid instruction.  \<open>isa_run m n s t\<close> is \<open>n\<close> such steps.
\<close>

inductive isa_step :: "bool \<Rightarrow> 'x::len isa \<Rightarrow> bool \<Rightarrow> 'x isa \<Rightarrow> bool" for m_ext where
  isa_step: "isa_bytes s (unat (isa_pc s)) 4 = Some bs \<Longrightarrow> le_int bs = uint (encode i) \<Longrightarrow>
    valid_insn TYPE('x) m_ext i \<Longrightarrow> isa_exec i s = (c, t) \<Longrightarrow> isa_step m_ext s c t"

inductive_cases isa_stepE: "isa_step m_ext s c t"

inductive isa_run :: "bool \<Rightarrow> nat \<Rightarrow> 'x::len isa \<Rightarrow> 'x isa \<Rightarrow> bool" for m_ext where
  run_0: "isa_run m_ext 0 s s"
| run_Suc: "isa_run m_ext n s t \<Longrightarrow> isa_step m_ext t True u \<Longrightarrow> isa_run m_ext (Suc n) s u"

inductive_cases isa_run_SucE: "isa_run m_ext (Suc n) s u"

lemma GET_OPCODE_encode: "GET_OPCODE (encode i) \<noteq> 0"
  by (cases i) (simp_all add: decode_simps)

lemma encode_nonzero: "encode i \<noteq> 0"
proof
  assume "encode i = 0"
  then have "GET_OPCODE (encode i) = 0" by (simp add: GET_OPCODE_def)
  with GET_OPCODE_encode show False by blast
qed

lemma length_those: "those xs = Some ys \<Longrightarrow> length ys = length xs"
  by (induction xs arbitrary: ys) (auto split: option.splits)

lemma ucast_sign_extended:
  assumes "32 \<le> LENGTH('x::len)"
  shows "ucast (word_of_int (signed_take_bit 31 k) :: 'x word) = (word_of_int k :: u32)"
proof -
  have "(ucast (scast (word_of_int k :: u32) :: 'x word) :: u32) = scast (word_of_int k :: u32)"
    using assms by (intro ucast_scast_down) simp
  then show ?thesis by (simp add: scast_word_of_int)
qed

lemma fetch:
  fixes s :: "'x::len emu"
  assumes ok: "xlen_ok TYPE('x)" and b: "mem_bytes s (unat (pc (cpu s))) 4 = Some bs"
    and raw: "le_int bs = uint raw"
  obtains v where "bus_read (pc (cpu s)) MEM_W 0 s = Some (v, PERF_MODEL_MEMORY 4 (pc (cpu s)) s)"
    "(ucast v :: u32) = raw"
proof -
  have "length bs = 4"
    using b length_those by (fastforce simp: mem_bytes_def)
  then have "load_value MEM_W bs 0 = (word_of_int (signed_take_bit 31 (uint raw)) :: 'x word)"
    by (simp add: load_value_def signed_load_def raw)
  then have "bus_read (pc (cpu s)) MEM_W 0 s = Some (word_of_int (signed_take_bit 31 (uint raw)),
      PERF_MODEL_MEMORY 4 (pc (cpu s)) s)"
    by (simp add: bus_read_eq [OF ok] op_size_simps b)
  then show thesis
    by (rule that) (simp add: ucast_sign_extended [OF xlen_ge_32 [OF ok]])
qed

lemma step_simulation:
  fixes s :: "'x::len emu"
  assumes ok: "xlen_ok TYPE('x)" and wf: "wf_emu s" and lt: "mcycle s < MAX_CYCLES"
    and st: "isa_step m (abs_emu s) c t"
  obtains s' where "emu_step m s c s'" "abs_emu s' = t" "wf_emu s'"
proof -
  from st obtain bs i where b: "mem_bytes s (unat (pc (cpu s))) 4 = Some bs"
    and i: "le_int bs = uint (encode i)" "valid_insn TYPE('x) m i"
      "isa_exec i (abs_emu s) = (c, t)"
    by (auto elim!: isa_stepE simp: isa_bytes_abs isa_pc_abs)
  let ?u = "PERF_MODEL_MEMORY 4 (pc (cpu s)) s"
  from fetch [OF ok b i(1)] obtain v where f: "bus_read (pc (cpu s)) MEM_W 0 s = Some (v, ?u)"
    and v: "(ucast v :: u32) = encode i" by blast
  have "wf_emu ?u" using wf by (simp add: wf_emu_def state_simps)
  from process_instr_refines [OF ok this i(2)] obtain s' where
    p: "process_instr m (encode i) ?u = Some (c, s')" "abs_emu s' = t"
    by (auto simp: refines_def state_simps i(3))
  have "emu_step m s c s'"
    by (rule emu_step [OF lt f]) (simp_all only: v p(1) encode_nonzero not_False_eq_True)
  with p(2) emu_step_frame(4) [OF ok this wf] show thesis using that by blast
qed

lemma run_simulation:
  fixes s :: "'x::len emu"
  assumes ok: "xlen_ok TYPE('x)" and wf: "wf_emu s"
    and run: "isa_run m n (abs_emu s) t" and lt: "unat (mcycle s) + 6 * n \<le> unat MAX_CYCLES"
  shows "\<exists>s'. emu_reach m s s' \<and> abs_emu s' = t \<and> wf_emu s' \<and> unat (mcycle s') \<le> unat (mcycle s) + 6 * n"
  using run lt
proof (induction n arbitrary: t)
  case 0
  then have "t = abs_emu s" by (auto elim: isa_run.cases)
  with wf show ?case by (intro exI [of _ s]) (simp add: start)
next
  case (Suc n)
  from Suc.prems(1) obtain v where v: "isa_run m n (abs_emu s) v" "isa_step m v True t"
    by (rule isa_run_SucE)
  with Suc obtain u where u: "emu_reach m s u" "abs_emu u = v" "wf_emu u"
    "unat (mcycle u) \<le> unat (mcycle s) + 6 * n" by force
  have "mcycle u < MAX_CYCLES"
    using u(4) Suc.prems(2) by (simp add: word_less_nat_alt)
  from step_simulation [OF ok u(3) this] v(2) u(2) obtain s' where
    s': "emu_step m u True s'" "abs_emu s' = t" "wf_emu s'" by metis
  have "unat (mcycle s') \<le> unat (mcycle u) + 6"
    using emu_step_frame(3) [OF ok s'(1)] by auto
  with u s' show ?case by (intro exI [of _ s']) (auto intro: emu_reach.step)
qed

lemma main_loop_reach: "emu_reach m s t \<Longrightarrow> main_loop m True s = main_loop m True t"
proof (induction rule: emu_reach.induct)
  case (step t u)
  then have "mcycle t < MAX_CYCLES" by (simp add: emu_step_iff)
  with step have "main_loop m True t = main_loop m True u"
    by (subst main_loop_unfold) (simp add: word_less_nat_alt loop_body_step [symmetric])
  with step.IH show ?case by simp
qed simp

text \<open>The abstract processor with an image in its ROM.\<close>

definition isa_init :: "u8 list \<Rightarrow> 'x::len isa" where
  "isa_init img = \<lparr>isa_regs = \<lambda>_. 0, isa_pc = 0,
     isa_mem = \<lambda>a. if in_ram_addr a then Some 0
       else if a < 0x80000 then Some (if a < length img then img ! a else 0) else None,
     isa_out = []\<rparr>"

lemma abs_load_rom:
  "abs_emu (snd (load_rom_binary (Some img) init_emu)) = isa_init img"
proof -
  have "unat ROM_SIZE = 0x80000" "unat RAM_START = 0x20000000" "unat RAM_SIZE = 0x10000"
    by (simp_all add: c_consts)
  then show ?thesis
    using unat_regno
    by (auto simp: abs_emu_def isa_init_def load_rom_binary_def init_emu_def mem_byte_def emit_def
        in_ram_addr_def fun_eq_iff Let_def outputs_def map_filter_def XRF_SIZE_def)
qed

lemma outputs_info [simp]:
  "outputs (Info_loaded n # es) = outputs es" "outputs (Info_cycles c # es) = outputs es"
  "outputs (Info_frequency c k # es) = outputs es" "outputs (Info_frequency_inf # es) = outputs es"
  "outputs (Info_cycle_limit # es) = outputs es"
  by (simp_all add: outputs_def map_filter_def)

lemma main_runs_program:
  assumes ok: "xlen_ok TYPE('x::len)"
    and run: "isa_run m n (isa_init img :: 'x isa) t" and stop: "isa_step m t False u"
    and lt: "4 + 6 * n < unat MAX_CYCLES"
  shows "\<exists>s'. main m 2 (Some img) elapsed (init_emu :: 'x emu) = Some (0, s') \<and>
    outputs (console s') = isa_out u"
proof -
  define s :: "'x emu" where "s = snd (load_rom_binary (Some img) init_emu)"
  have l: "load_rom_binary (Some img) init_emu = (True, s)"
    by (rule prod_eqI) (simp_all add: load_rom_binary_simps s_def)
  have wf: "wf_emu s" by (simp add: s_def load_rom_binary_simps wf_init_emu)
  have mc: "unat (mcycle s) = 4" by (simp add: s_def load_rom_binary_simps init_emu_def)
  have "isa_run m n (abs_emu s) t" using run by (simp add: s_def abs_load_rom)
  from run_simulation [OF ok wf this] lt mc obtain v where
    v: "emu_reach m s v" "abs_emu v = t" "wf_emu v" "unat (mcycle v) \<le> 4 + 6 * n" by auto
  have "mcycle v < MAX_CYCLES" using v(4) lt by (simp add: word_less_nat_alt)
  from step_simulation [OF ok v(3) this] stop v(2) obtain w where
    w: "emu_step m v False w" "abs_emu w = u" by metis
  have "loop_body m v = Some (Inl (False, w))"
    using w(1) by (auto simp: loop_body_def emu_step_iff)
  then have "main_loop m True v = Some (False, w)"
    using \<open>mcycle v < MAX_CYCLES\<close> by (subst main_loop_unfold) (simp add: word_less_nat_alt)
  then have "main_loop m True s = Some (False, w)"
    by (simp add: main_loop_reach [OF v(1)])
  moreover have "outputs (console w) = isa_out u"
    using w(2) by (auto simp: abs_emu_def)
  ultimately show ?thesis
    by (auto simp: main_def l state_simps Let_def)
qed

section \<open>Properties\<close>



text \<open>C6. In every state the loop reaches, the ROM is the loaded image, register 0 is zero, the
  cycle counter is at most five beyond the limit, and the cycles are between one and six per retired
  instruction, counted from 4.\<close>

theorem reachable_counters:
  fixes t :: "'x::len emu"
  assumes ok: "xlen_ok TYPE('x)" and r: "emu_reach m (snd (load_rom_binary file init_emu)) t"
  shows "wf_emu t \<and> rom (cpu t) = rom (cpu (snd (load_rom_binary file (init_emu :: 'x emu)))) \<and>
    unat (mcycle t) < unat MAX_CYCLES + 6 \<and> 
    4 + unat (minstret t) \<le> unat (mcycle t) \<and> unat (mcycle t) \<le> 4 + 6 * unat (minstret t)"
proof -
  let ?s = "snd (load_rom_binary file (init_emu :: 'x emu))"
  have s: "mcycle ?s = 4" "minstret ?s = 0" "wf_emu ?s"
    by (simp_all add: load_rom_binary_simps wf_init_emu)
  note inv = emu_reach_invariant [OF ok r]
  have lt: "unat (mcycle t) < unat MAX_CYCLES + 6"
  proof (cases "t = ?s")
    case True
    then show ?thesis using s(1) by (simp add: c_consts)
  next
    case False
    with emu_reach_limit [OF ok r] show ?thesis by metis
  qed
  from inv(3) s obtain n where n: "minstret t = of_nat n" "4 + n \<le> unat (mcycle t)"
    "unat (mcycle t) \<le> 4 + 6 * n" by auto
  then have "n < 2 ^ 64" using lt by (simp add: c_consts)
  then have "unat (minstret t) = n" using n(1) by (simp add: unat_of_nat)
  with inv(1) inv(2) [OF s(3)] n lt show ?thesis by simp
qed

theorem reachable_counters_witness:
  "4 + unat (minstret (snd (load_rom_binary (Some [1]) init_emu) :: 32 emu)) \<le> 4"
  using reachable_counters [OF xlen_ok_simps(1) emu_reach.start [of True "snd (load_rom_binary (Some [1]) init_emu)"]]
  by (simp add: load_rom_binary_simps)

text \<open>C14. With a ROM image that loads, \<open>main\<close> returns 1 exactly when the loop reaches, before
  the cycle limit, a state whose next instruction word is 0.\<close>

theorem main_exit_code:
  fixes s :: "'x::len emu"
  assumes ok: "xlen_ok TYPE('x)" and wf: "wf_emu s" and r: "main m 2 (Some img) elapsed s = Some (code, u)"
  shows "code = 1 \<longleftrightarrow> (\<exists>t v w. emu_reach m (snd (load_rom_binary (Some img) s)) t \<and> mcycle t < MAX_CYCLES \<and>
    bus_read (pc (cpu t)) MEM_W 0 t = Some (v, w) \<and> (ucast v :: u32) = 0)"
proof -
  define t0 where "t0 = snd (load_rom_binary (Some img) s)"
  have l: "load_rom_binary (Some img) s = (True, t0)"
    by (rule prod_eqI) (simp_all add: load_rom_binary_simps t0_def)
  have wf0: "wf_emu t0" using wf by (simp add: t0_def load_rom_binary_simps)
  from main_loop_ends [OF ok wf0, of m] obtain z v t where
    e: "main_loop m True t0 = Some (z, v)" "emu_reach m t0 t"
      "mcycle t < MAX_CYCLES \<and> loop_body m t = Some (Inl (z, v)) \<or> MAX_CYCLES \<le> mcycle t \<and> \<not> z \<and> v = t"
    by metis
  have code: "code = 1 \<longleftrightarrow> z"
    using r e(1) by (auto simp: main_def l Let_def split: if_splits)
  have zero: "z" if "emu_reach m t0 t'" "mcycle t' < MAX_CYCLES"
      "bus_read (pc (cpu t')) MEM_W 0 t' = Some (x, w)" "(ucast x :: u32) = 0" for t' x w
  proof -
    have "main_loop m True t' = Some (True, w)"
      using that by (subst main_loop_unfold) (simp add: loop_body_def word_less_nat_alt)
    then show z using main_loop_reach [OF that(1)] e(1) by simp
  qed
  have "\<exists>x. bus_read (pc (cpu t)) MEM_W 0 t = Some (x, v) \<and> (ucast x :: u32) = 0 \<and> mcycle t < MAX_CYCLES" if z
    using e(3) that by (auto simp: loop_body_def bind_eq_Some_conv split: if_splits)
  with zero e(2) show ?thesis unfolding code t0_def [symmetric] by blast
qed

theorem main_exit_code_witness:
  "\<exists>u. main True 2 (Some []) 0 (init_emu :: 32 emu) = Some (1, u)"
proof -
  obtain code u where r: "main True 2 (Some []) 0 (init_emu :: 32 emu) = Some (code, u)"
    using main_total [OF xlen_ok_simps(1) wf_init_emu] by metis
  let ?s = "snd (load_rom_binary (Some []) (init_emu :: 32 emu))"
  have "pc (cpu ?s) = 0" "mcycle ?s = 4"
    by (simp_all add: load_rom_binary_def Let_def state_simps)
  have "mem_bytes ?s 0 4 = Some [0,0,0,0]"
    by (simp add: mem_bytes_def mem_byte_def load_rom_binary_def Let_def state_simps upt_small c_consts)
  from fetch [OF xlen_ok_simps(1), of ?s "[0,0,0,0]" 0] this \<open>pc (cpu ?s) = 0\<close> obtain v where
    "bus_read (pc (cpu ?s)) MEM_W 0 ?s = Some (v, PERF_MODEL_MEMORY 4 (pc (cpu ?s)) ?s)"
      "(ucast v :: u32) = 0" by auto
  then have "code = 1"
    using main_exit_code [OF xlen_ok_simps(1) wf_init_emu r] emu_reach.start \<open>mcycle ?s = 4\<close>
    by (force simp: c_consts)
  with r show ?thesis by simp
qed

end
