(* ===== verification/Emulator_Runs.thy ===== *)
theory Emulator_Runs
  imports Emulator
begin

text \<open>
  Whole runs of the emulator: the loop of \<^verbatim>\<open>src/main.c\<close> in lockstep with the abstract
  processor, for programs that reach the cycle limit.
\<close>

section \<open>Lockstep\<close>

lemma isa_run_front:
  "isa_run m (Suc n) s t \<Longrightarrow> \<exists>u. isa_step m s True u \<and> isa_run m n u t"
proof (induction n arbitrary: t)
  case 0
  then obtain v where "isa_run m 0 s v" "isa_step m v True t" by (rule isa_run_SucE)
  then show ?case by (auto elim: isa_run.cases intro: isa_run.intros)
next
  case (Suc n)
  from Suc.prems obtain v where v: "isa_run m (Suc n) s v" "isa_step m v True t" by (rule isa_run_SucE)
  with Suc.IH [OF v(1)] show ?case by (blast intro: run_Suc)
qed

lemma emu_step_deterministic: "emu_step m s c t \<Longrightarrow> emu_step m s c' t' \<Longrightarrow> c = c' \<and> t = t'"
  by (auto simp: emu_step_iff)

text \<open>
  While the abstract processor has steps left, every iteration of the emulator is its next step.
\<close>

lemma lockstep:
  fixes s :: "'x::len emu"
  assumes ok: "xlen_ok TYPE('x)" and wf: "wf_emu s" and r: "emu_reach m s v"
    and run: "isa_run m n (abs_emu s) t" and n: "unat (mcycle v) - unat (mcycle s) \<le> n"
  shows "\<exists>k. isa_run m k (abs_emu s) (abs_emu v) \<and> isa_run m (n - k) (abs_emu v) t \<and>
    unat (mcycle s) + k \<le> unat (mcycle v)"
  using r n
proof (induction)
  case start
  show ?case using run by (intro exI [of _ 0]) (simp add: run_0)
next
  case (step u v)
  note f = emu_step_frame [OF ok step.hyps(2)]
  then have "unat (mcycle u) < unat (mcycle v)" by auto
  then have "unat (mcycle u) - unat (mcycle s) \<le> n" using step.prems by linarith
  from step.IH [OF this] obtain k where k: "isa_run m k (abs_emu s) (abs_emu u)"
    "isa_run m (n - k) (abs_emu u) t" "unat (mcycle s) + k \<le> unat (mcycle u)" by auto
  with step.prems \<open>unat (mcycle u) < unat (mcycle v)\<close> obtain j where j: "n - k = Suc j"
    by (cases "n - k") auto
  from isa_run_front [OF k(2) [unfolded j]] obtain w where
    w: "isa_step m (abs_emu u) True w" "isa_run m j w t" by blast
  have lt: "mcycle u < MAX_CYCLES" using step.hyps(2) by (simp add: emu_step_iff)
  have "wf_emu u" using emu_reach_invariant(2) [OF ok step.hyps(1) wf] .
  from step_simulation [OF ok this lt w(1)] obtain v' where "emu_step m u True v'" "abs_emu v' = w"
    by blast
  with step.hyps(2) have "abs_emu v = w" using emu_step_deterministic by blast
  moreover have "n - Suc k = j" using j by simp
  ultimately show ?case using w k \<open>unat (mcycle u) < unat (mcycle v)\<close>
    by (intro exI [of _ "Suc k"]) (auto intro: run_Suc)
qed

section \<open>A program that does not stop\<close>

lemma isa_bytes_init:
  assumes "isa_mem s = isa_mem (isa_init img :: 'x::len isa)" "a + 4 \<le> length img" "length img \<le> 0x80000"
  shows "isa_bytes (s :: 'x isa) a 4 = Some [img ! a, img ! (a + 1), img ! (a + 2), img ! (a + 3)]"
  using assms by (simp add: isa_bytes_def isa_init_def upt_small in_ram_addr_def)

text \<open>The image of a program that jumps to itself.\<close>

definition halt_rom :: "u8 list" where
  "halt_rom = [0x6F, 0, 0, 0]"

lemma halt_step: "isa_step m (isa_init halt_rom :: 32 isa) True (isa_init halt_rom)"
proof -
  let ?s = "isa_init halt_rom :: 32 isa"
  have "isa_bytes ?s (unat (isa_pc ?s)) 4 = Some [0x6F, 0, 0, 0]"
    using isa_bytes_init [OF refl, where 'x = 32, of 0 halt_rom] by (simp add: halt_rom_def isa_init_def)
  moreover have "encode (Jal 0 0) = 0x6F" by (simp add: enc_J_def enc_R_def)
  moreover have "isa_exec (Jal 0 0) ?s = (True, ?s)"
    by (simp add: isa_goto_def isa_put_def isa_init_def fun_eq_iff)
  ultimately show ?thesis
    by (intro isa_step [where i = "Jal 0 0" and bs = "[0x6F, 0, 0, 0]"]) (simp_all add: valid_insn_def del: encode.simps isa_exec.simps)
qed

lemma halt_run: "isa_run m n (isa_init halt_rom :: 32 isa) (isa_init halt_rom)"
  by (induction n) (auto intro: isa_run.intros halt_step)

section \<open>Properties\<close>

text \<open>C4. A program the abstract processor runs for more than the cycle limit is stopped there:
  \<open>main\<close> returns 0, its last message says that the limit was reached, and up to then it has printed
  exactly what the abstract processor has after some number of instructions.\<close>

theorem main_cycle_limit:
  assumes ok: "xlen_ok TYPE('x::len)"
    and run: "isa_run m n (isa_init img :: 'x isa) t" and n: "unat MAX_CYCLES < n"
  shows "\<exists>s' k u. main m 2 (Some img) elapsed (init_emu :: 'x emu) = Some (0, s') \<and>
    hd (console s') = Info_cycle_limit \<and>
    isa_run m k (isa_init img :: 'x isa) u \<and> k \<le> unat MAX_CYCLES + 1 \<and> outputs (console s') = isa_out u"
proof -
  define s :: "'x emu" where "s = snd (load_rom_binary (Some img) init_emu)"
  have l: "load_rom_binary (Some img) init_emu = (True, s)"
    by (rule prod_eqI) (simp_all add: load_rom_binary_simps s_def)
  have wf: "wf_emu s" by (simp add: s_def load_rom_binary_simps wf_init_emu)
  have mc: "unat (mcycle s) = 4" by (simp add: s_def load_rom_binary_simps)
  have init: "isa_init img = abs_emu s" by (simp add: s_def abs_load_rom)
  from main_loop_ends [OF ok wf, of m] obtain z w v where
    e: "main_loop m True s = Some (z, w)" "emu_reach m s v" "wf_emu v"
      "mcycle v < MAX_CYCLES \<and> loop_body m v = Some (Inl (z, w)) \<or>
       MAX_CYCLES \<le> mcycle v \<and> \<not> z \<and> w = v" by metis
  have "unat (mcycle v) < unat MAX_CYCLES + 6"
    using emu_reach_limit [OF ok e(2)] mc by (cases "s = v") (auto simp: c_consts)
  then have "unat (mcycle v) - unat (mcycle s) \<le> n" using n mc by simp
  from lockstep [OF ok wf e(2) run [unfolded init] this] obtain k where
    k: "isa_run m k (abs_emu s) (abs_emu v)" "isa_run m (n - k) (abs_emu v) t" "4 + k \<le> unat (mcycle v)"
    by (auto simp: mc)
  have "MAX_CYCLES \<le> mcycle v"
  proof (rule ccontr)
    assume "\<not> MAX_CYCLES \<le> mcycle v"
    then have lt: "mcycle v < MAX_CYCLES" by simp
    then have "unat (mcycle v) < unat MAX_CYCLES" by (simp add: word_less_nat_alt)
    with k(3) n obtain j where "n - k = Suc j" by (cases "n - k") auto
    with k(2) isa_run_front obtain u where "isa_step m (abs_emu v) True u" by metis
    from step_simulation [OF ok e(3) lt this] obtain v' where "emu_step m v True v'" by blast
    then have "loop_body m v = Some (Inr v')" using lt by (simp add: loop_body_step)
    with e(4) lt show False by (auto dest: leD)
  qed
  with e(4) have w: "\<not> z" "w = v" "\<not> mcycle v < MAX_CYCLES" by auto
  have "k \<le> unat MAX_CYCLES + 1" using k(3) \<open>unat (mcycle v) < _\<close> by simp
  moreover have "main m 2 (Some img) elapsed (init_emu :: 'x emu) = Some (0, emit Info_cycle_limit v)"
    using e(1) w by (simp add: main_def l Let_def)
  moreover have "outputs (console v) = isa_out (abs_emu v)" by (simp add: abs_emu_def)
  ultimately show ?thesis
    using k(1) by (intro exI [of _ "emit Info_cycle_limit v"] exI [of _ k] exI [of _ "abs_emu v"])
      (simp add: init state_simps)
qed


theorem main_cycle_limit_witness:
  "\<exists>s'. main True 2 (Some halt_rom) 1 (init_emu :: 32 emu) = Some (0, s') \<and> hd (console s') = Info_cycle_limit"
  using main_cycle_limit [OF xlen_ok_simps(1) halt_run [of True "unat MAX_CYCLES + 1"]] by (simp, blast)



end
