(* ===== verification/Cycles.thy ===== *)
theory Cycles
  imports Emulator_Runs
begin

text \<open>
  The performance model of \<^verbatim>\<open>inc/perf.h\<close> as a five-stage pipeline sees it: the cycles an
  instruction takes as a function of the instruction itself and the two before it, and the
  cycle count the emulator reports for a whole program.
\<close>

section \<open>The pipeline\<close>

text \<open>The register an instruction writes, 0 for none, and the registers it reads.\<close>

fun dest :: "insn \<Rightarrow> regno" where
  "dest (Rop _ rd _ _) = rd" | "dest (Mop _ rd _ _) = rd" | "dest (Iop _ rd _ _) = rd"
| "dest (Shift _ rd _ _) = rd" | "dest (RopW _ rd _ _) = rd" | "dest (MopW _ rd _ _) = rd"
| "dest (AddiW rd _ _) = rd" | "dest (ShiftW _ rd _ _) = rd" | "dest (Load _ rd _ _) = rd"
| "dest (Lui rd _) = rd" | "dest (Auipc rd _) = rd" | "dest (Jal rd _) = rd" | "dest (Jalr rd _ _) = rd"
| "dest _ = 0"

fun sources :: "insn \<Rightarrow> regno set" where
  "sources (Rop _ _ a b) = {a, b}" | "sources (Mop _ _ a b) = {a, b}" | "sources (Iop _ _ a _) = {a}"
| "sources (Shift _ _ a _) = {a}" | "sources (RopW _ _ a b) = {a, b}" | "sources (MopW _ _ a b) = {a, b}"
| "sources (AddiW _ a _) = {a}" | "sources (ShiftW _ _ a _) = {a}" | "sources (Load _ _ a _) = {a}"
| "sources (Store _ a b _) = {a, b}" | "sources (Branch _ a b _) = {a, b}" | "sources (Jalr _ a _) = {a}"
| "sources _ = {}"

definition is_load :: "insn \<Rightarrow> bool" where
  "is_load i \<longleftrightarrow> (case i of Load _ _ _ _ \<Rightarrow> True | _ \<Rightarrow> False)"

text \<open>Branches and indirect jumps read their registers one stage earlier.\<close>

definition early :: "insn \<Rightarrow> bool" where
  "early i \<longleftrightarrow> (case i of Branch _ _ _ _ \<Rightarrow> True | Jalr _ _ _ \<Rightarrow> True | _ \<Rightarrow> False)"

definition needs :: "insn \<Rightarrow> insn \<Rightarrow> bool" where
  "needs i p \<longleftrightarrow> dest p \<noteq> 0 \<and> dest p \<in> sources i"

fun taken :: "insn \<Rightarrow> 'x::len isa \<Rightarrow> bool" where
  "taken (Branch op a b _) s = bop_holds op (isa_regs s a) (isa_regs s b)"
| "taken (Jal _ _) s = True" | "taken (Jalr _ _ _) s = True"
| "taken _ s = False"

fun unaligned :: "insn \<Rightarrow> 'x::len isa \<Rightarrow> bool" where
  "unaligned (Load op _ a imm) s \<longleftrightarrow> isa_bytes s (isa_addr s a imm) (lop_size op) \<noteq> None \<and>
     isa_addr s a imm mod lop_size op \<noteq> 0"
| "unaligned (Store op a _ imm) s \<longleftrightarrow> (\<forall>i < sop_size op. in_ram_addr (isa_addr s a imm + i)) \<and>
     isa_addr s a imm mod sop_size op \<noteq> 0"
| "unaligned _ s = False"

text \<open>The cycles of \<open>i\<close> after \<open>p\<close>, which came after \<open>q\<close>.\<close>

definition insn_cost :: "insn \<Rightarrow> insn \<Rightarrow> insn \<Rightarrow> 'x::len isa \<Rightarrow> nat" where
  "insn_cost p q i s = 1 + of_bool (is_load p \<and> needs i p) + of_bool (early i \<and> needs i p) +
     of_bool (early i \<and> is_load q \<and> needs i q) + of_bool (taken i s) + of_bool (unaligned i s)"

definition pipeline :: "insn \<Rightarrow> insn \<Rightarrow> perf_model_t \<Rightarrow> bool" where
  "pipeline p q m \<longleftrightarrow> prev_rd m = ucast (dest p) \<and> prev2_rd m = ucast (dest q) \<and>
     prev_mem_load m = is_load p \<and> prev2_mem_load m = is_load q \<and> (dest p \<noteq> 0 \<longrightarrow> prev_reg_write m)"

section \<open>One instruction\<close>

lemma pipeline_stalls:
  assumes "pipeline p q m"
  shows "hazard_stall m (ucast a) (ucast b) \<longleftrightarrow> is_load p \<and> dest p \<noteq> 0 \<and> (dest p = a \<or> dest p = b)"
    "hazard_stall m (ucast a) 0 \<longleftrightarrow> is_load p \<and> dest p \<noteq> 0 \<and> dest p = a"
    "\<not> hazard_stall m 0 0"
    "branch_stalls m (ucast a) (ucast b) = of_bool (dest p \<noteq> 0 \<and> (dest p = a \<or> dest p = b)) +
      of_bool (is_load q \<and> dest q \<noteq> 0 \<and> (dest q = a \<or> dest q = b)) +
      of_bool (is_load p \<and> dest p \<noteq> 0 \<and> (dest p = a \<or> dest p = b))"
    "branch_stalls m (ucast a) 0 = of_bool (dest p \<noteq> 0 \<and> dest p = a) +
      of_bool (is_load q \<and> dest q \<noteq> 0 \<and> dest q = a) + of_bool (is_load p \<and> dest p \<noteq> 0 \<and> dest p = a)"
  using assms by (auto simp: pipeline_def hazard_stall_def branch_stalls_def ucast_regno)

lemma process_instr_finish_cycles:
  assumes "exec_opcode m raw (pc (cpu s) + 4) s = Some (c, np, instr, t)" "perf_model t = perf_model s"
    and "process_instr m raw s = Some (c', s')"
  shows "mcycle s' = mcycle t + 1" "perf_model s' = perf_model (PERF_MODEL_CYCLE instr s)"
  using assms by (auto simp: process_instr_finish finish_def state_simps PERF_MODEL_CYCLE_def Let_def tick_def)

lemma unaligned_word:
  fixes a :: "'x::len word"
  assumes "k = 2 ^ n" "n < LENGTH('x)"
  shows "a AND (of_nat k - 1) = 0 \<longleftrightarrow> unat a mod k = 0"
proof -
  have "a AND (of_nat k - 1) = take_bit n a"
    using assms by (simp add: take_bit_eq_mask mask_eq_exp_minus_1)
  moreover have "unat (take_bit n a) = unat a mod k" using assms by (simp add: unat_take_bit)
  ultimately show ?thesis by (metis unat_eq_zero)
qed

lemma access_size_power:
  assumes "xlen_ok TYPE('x::len)"
  shows "\<exists>n < LENGTH('x). lop_size op = 2 ^ n" "\<exists>n < LENGTH('x). sop_size sop = 2 ^ n"
proof -
  have "\<exists>n < 4. lop_size op = 2 ^ n" "\<exists>n < 4. sop_size sop = 2 ^ n"
    by (cases op; auto intro: exI [of _ 0] exI [of _ 1] exI [of _ 2] exI [of _ 3])
      (cases sop; auto intro: exI [of _ 0] exI [of _ 1] exI [of _ 2] exI [of _ 3])
  moreover have "4 \<le> LENGTH('x)" using xlen_ge_32 [OF assms] by simp
  ultimately show "\<exists>n < LENGTH('x). lop_size op = 2 ^ n" "\<exists>n < LENGTH('x). sop_size sop = 2 ^ n"
    by (meson less_le_trans)+
qed

text \<open>What the case of the switch leaves for \<open>PERF_MODEL_CYCLE\<close>.\<close>

definition accounts :: "insn \<Rightarrow> bool \<Rightarrow> nat \<Rightarrow> 'x::len emu \<Rightarrow> bool" where
  "accounts i m n s \<longleftrightarrow> (\<exists>c np instr t. exec_opcode m (encode i) (pc (cpu s) + 4) s = Some (c, np, instr, t) \<and>
     i_rd instr = ucast (dest i) \<and> is_mem_load instr = is_load i \<and>
     (dest i \<noteq> 0 \<longrightarrow> is_reg_write instr) \<and> mcycle t + 1 = mcycle s + of_nat n)"

lemmas account_simps = exec_opcode_def Let_def opcode_defs instr_init_def decode_simps mcycle_store_result
  accounts_def insn_cost_def is_load_def early_def needs_def mcycle_hazard mcycle_branch_hazard mcycle_simps ex_bool_eq

lemma accounts_Rop:
  assumes "pipeline p q (perf_model s)"
  shows "accounts (Rop op rd a b) m (insn_cost p q (Rop op rd a b) (abs_emu s)) s"
    "accounts (Mop mop rd a b) m (insn_cost p q (Mop mop rd a b) (abs_emu s)) s"
  using pipeline_stalls [OF assms] by (auto simp: account_simps exec_rtype_def)

lemma accounts_RopW:
  fixes s :: "'x::len emu"
  assumes "pipeline p q (perf_model s)" "RV64 TYPE('x)"
  shows "accounts (RopW op rd a b) m (insn_cost p q (RopW op rd a b) (abs_emu s)) s"
    "accounts (MopW mop rd a b) m (insn_cost p q (MopW mop rd a b) (abs_emu s)) s"
  using pipeline_stalls [OF assms(1)] assms(2) by (auto simp: account_simps exec_rtypew_def)

lemma accounts_imm:
  assumes "pipeline p q (perf_model s)"
  shows "accounts (Iop op rd a imm) m (insn_cost p q (Iop op rd a imm) (abs_emu s)) s"
    "accounts (Shift op rd a sh) m (insn_cost p q (Shift op rd a sh) (abs_emu s)) s"
  using pipeline_stalls [OF assms] by (auto simp: account_simps exec_imm_def)

lemma accounts_immw:
  fixes s :: "'x::len emu"
  assumes "pipeline p q (perf_model s)" "RV64 TYPE('x)"
  shows "accounts (AddiW rd a imm) m (insn_cost p q (AddiW rd a imm) (abs_emu s)) s"
    "accounts (ShiftW op rd a shw) m (insn_cost p q (ShiftW op rd a shw) (abs_emu s)) s"
  using pipeline_stalls [OF assms(1)] assms(2) by (auto simp: account_simps exec_immw_def)

lemma accounts_jump:
  assumes "pipeline p q (perf_model s)"
  shows "accounts (Jal rd imm20) m (insn_cost p q (Jal rd imm20) (abs_emu s)) s"
    "accounts (Jalr rd a imm) m (insn_cost p q (Jalr rd a imm) (abs_emu s)) s"
  using pipeline_stalls [OF assms] by (auto simp: account_simps exec_jal_def exec_jalr_def)

lemma accounts_rest:
  assumes "pipeline p q (perf_model s)"
  shows "accounts (Lui rd imm20) m (insn_cost p q (Lui rd imm20) (abs_emu s)) s"
    "accounts (Auipc rd imm20) m (insn_cost p q (Auipc rd imm20) (abs_emu s)) s"
    "accounts (Fence rd a imm) m (insn_cost p q (Fence rd a imm) (abs_emu s)) s"
  by (simp_all add: account_simps exec_lui_def exec_auipc_def)

lemma accounts_sys:
  assumes "pipeline p q (perf_model s)"
  shows "accounts Ecall m (insn_cost p q Ecall (abs_emu s)) s"
    "accounts Ebreak m (insn_cost p q Ebreak (abs_emu s)) s"
  using pipeline_stalls(3) [OF assms]
  by (simp_all add: account_simps exec_sys_def exec_esys_def CSR_IMM_def ESYS_def EBREAK_def)

lemma accounts_Branch:
  assumes "pipeline p q (perf_model s)"
  shows "accounts (Branch op a b imm) m (insn_cost p q (Branch op a b imm) (abs_emu s)) s"
  using pipeline_stalls [OF assms]
  by (auto simp: account_simps exec_branch_def state_simps abs_get_reg branch_taken_correct)

lemma unaligned_tick:
  fixes a :: "'x::len word"
  assumes "xlen_ok TYPE('x)"
  shows "a AND (of_nat (lop_size op) - 1) = 0 \<longleftrightarrow> unat a mod lop_size op = 0"
    "a AND (of_nat (sop_size sop) - 1) = 0 \<longleftrightarrow> unat a mod sop_size sop = 0"
proof -
  from access_size_power [OF assms] obtain n k where
    "n < LENGTH('x)" "lop_size op = 2 ^ n" "k < LENGTH('x)" "sop_size sop = 2 ^ k" by blast
  then show "a AND (of_nat (lop_size op) - 1) = 0 \<longleftrightarrow> unat a mod lop_size op = 0"
    "a AND (of_nat (sop_size sop) - 1) = 0 \<longleftrightarrow> unat a mod sop_size sop = 0"
    by (metis unaligned_word)+
qed

lemma accounts_Load:
  fixes s :: "'x::len emu"
  assumes ok: "xlen_ok TYPE('x)" and v: "valid_insn TYPE('x) m (Load op rd a imm)"
    and pl: "pipeline p q (perf_model s)"
  shows "accounts (Load op rd a imm) m (insn_cost p q (Load op rd a imm) (abs_emu s)) s"
proof -
  have op: "RV64 TYPE('x) \<or> op \<notin> {LD, LWU}" using v by (simp add: valid_insn_def)
  show ?thesis
    using pipeline_stalls [OF pl]
    by (auto simp: account_simps exec_load_def bus_read_eq [OF ok] abs_get_reg state_simps unat_isa_addr
        lop_correct [OF op] mem_bytes_hazard isa_bytes_abs unaligned_tick(1) [OF ok] split: option.split)
qed

lemma accounts_Store:
  fixes s :: "'x::len emu"
  assumes ok: "xlen_ok TYPE('x)" and v: "valid_insn TYPE('x) m (Store op a b imm)"
    and pl: "pipeline p q (perf_model s)"
  shows "accounts (Store op a b imm) m (insn_cost p q (Store op a b imm) (abs_emu s)) s"
proof -
  have op: "RV64 TYPE('x) \<or> op \<noteq> SD" using v by (simp add: valid_insn_def)
  have "mcycle (set_ram f s) = mcycle s" for f and s :: "'x emu" by (simp add: set_ram_def)
  then show ?thesis
    using pipeline_stalls [OF pl]
    by (auto simp: account_simps exec_store_def bus_write_eq [OF ok] abs_get_reg state_simps unat_isa_addr
        sop_correct [OF op] ram_range_store [OF op] unaligned_tick(2) [OF ok])
qed

lemma accounts_all:
  fixes s :: "'x::len emu"
  assumes "xlen_ok TYPE('x)" "valid_insn TYPE('x) m i" "pipeline p q (perf_model s)"
  shows "accounts i m (insn_cost p q i (abs_emu s)) s"
  using assms
  by (cases i) (auto intro: accounts_Rop accounts_RopW accounts_imm accounts_immw accounts_jump accounts_rest
      accounts_sys accounts_Branch accounts_Load accounts_Store simp: valid_insn_def [of _ m "RopW _ _ _ _"]
      valid_insn_def [of _ m "MopW _ _ _ _"] valid_insn_def [of _ m "AddiW _ _ _"] valid_insn_def [of _ m "ShiftW _ _ _ _"])

lemma process_instr_cost:
  fixes s :: "'x::len emu"
  assumes ok: "xlen_ok TYPE('x)" and v: "valid_insn TYPE('x) m i" and pl: "pipeline p q (perf_model s)"
    and pr: "process_instr m (encode i) s = Some (c, s')"
  shows "mcycle s' = mcycle s + of_nat (insn_cost p q i (abs_emu s))" "pipeline i p (perf_model s')"
proof -
  from accounts_all [OF ok v pl] obtain c' np instr t where
    e: "exec_opcode m (encode i) (pc (cpu s) + 4) s = Some (c', np, instr, t)" and
    a: "i_rd instr = ucast (dest i)" "is_mem_load instr = is_load i" "dest i \<noteq> 0 \<longrightarrow> is_reg_write instr"
      "mcycle t + 1 = mcycle s + of_nat (insn_cost p q i (abs_emu s))"
    by (auto simp: accounts_def)
  have pm: "perf_model t = perf_model s" using exec_opcode_frame [OF ok e] by (simp add: exec_frame_def)
  note f = process_instr_finish_cycles [OF e pm pr]
  show "mcycle s' = mcycle s + of_nat (insn_cost p q i (abs_emu s))"
    by (simp add: f(1) a(4))
  show "pipeline i p (perf_model s')"
    using a pl by (simp add: f(2) PERF_MODEL_CYCLE_def Let_def pipeline_def tick_def)
qed

section \<open>Whole programs\<close>

text \<open>
  The instructions executed so far, the last one first; before the first instruction the
  pipeline holds instructions without effect.
\<close>

definition bubble :: insn where
  "bubble = Fence 0 0 0"

fun latest :: "insn list \<Rightarrow> insn" where
  "latest [] = bubble" | "latest (i # is) = i"

definition fetched :: "bool \<Rightarrow> 'x::len isa \<Rightarrow> insn \<Rightarrow> bool" where
  "fetched m_ext s i \<longleftrightarrow> valid_insn TYPE('x) m_ext i \<and>
     map_option le_int (isa_bytes s (unat (isa_pc s)) 4) = Some (uint (encode i))"

lemma fetched_step: "fetched m s i \<Longrightarrow> isa_exec i s = (c, t) \<Longrightarrow> isa_step m s c t"
  by (auto simp: fetched_def intro: isa_step)

text \<open>Fetching from an address that is not a multiple of four takes another cycle.\<close>

definition step_cost :: "insn list \<Rightarrow> insn \<Rightarrow> 'x::len isa \<Rightarrow> nat" where
  "step_cost is i s = insn_cost (latest is) (latest (tl is)) i s + of_bool (unat (isa_pc s) mod 4 \<noteq> 0)"

inductive timed_run :: "bool \<Rightarrow> insn list \<Rightarrow> nat \<Rightarrow> 'x::len isa \<Rightarrow> 'x isa \<Rightarrow> bool" for m_ext where
  timed_start: "timed_run m_ext [] 0 s s"
| timed_step: "timed_run m_ext is n s t \<Longrightarrow> fetched m_ext t i \<Longrightarrow> isa_exec i t = (True, u) \<Longrightarrow>
    timed_run m_ext (i # is) (n + step_cost is i t) s u"

lemma step_cost_bounds: "1 \<le> step_cost is i s" "step_cost is i s \<le> 7"
  by (simp_all add: step_cost_def insn_cost_def of_bool_def)

lemma timed_step_simulation:
  fixes s :: "'x::len emu"
  assumes ok: "xlen_ok TYPE('x)" and wf: "wf_emu s" and lt: "mcycle s < MAX_CYCLES"
    and pl: "pipeline (latest is) (latest (tl is)) (perf_model s)"
    and f: "fetched m (abs_emu s) i" and x: "isa_exec i (abs_emu s) = (c, t)"
  shows "\<exists>s'. emu_step m s c s' \<and> abs_emu s' = t \<and> wf_emu s' \<and> minstret s' = minstret s + 1 \<and>
    unat (mcycle s') = unat (mcycle s) + step_cost is i (abs_emu s) \<and> pipeline i (latest is) (perf_model s')"
proof -
  from f obtain bs where b: "mem_bytes s (unat (pc (cpu s))) 4 = Some bs"
    and i: "le_int bs = uint (encode i)" "valid_insn TYPE('x) m i"
    by (auto simp: fetched_def isa_bytes_abs isa_pc_abs)
  let ?u = "PERF_MODEL_MEMORY 4 (pc (cpu s)) s"
  from fetch [OF ok b i(1)] obtain v where fe: "bus_read (pc (cpu s)) MEM_W 0 s = Some (v, ?u)"
    and v: "(ucast v :: u32) = encode i" by blast
  have wfu: "wf_emu ?u" using wf by (simp add: wf_emu_def state_simps)
  from process_instr_refines [OF ok wfu i(2)] obtain s' where
    p: "process_instr m (encode i) ?u = Some (c, s')" "abs_emu s' = t"
    by (auto simp: refines_def state_simps x)
  have st: "emu_step m s c s'"
    by (rule emu_step [OF lt fe]) (simp_all only: v p(1) encode_nonzero not_False_eq_True)
  note frame = emu_step_frame [OF ok st]
  have "pipeline (latest is) (latest (tl is)) (perf_model ?u)" using pl by (simp add: state_simps)
  note cost = process_instr_cost [OF ok i(2) this p(1)]
  have "2 < LENGTH('x)" using xlen_ge_32 [OF ok] by simp
  then have "pc (cpu s) AND (of_nat 4 - 1) = 0 \<longleftrightarrow> unat (pc (cpu s)) mod 4 = 0"
    by (intro unaligned_word [of _ 2]) simp_all
  then have "mcycle s' = mcycle s + of_nat (step_cost is i (abs_emu s))"
    using cost(1) by (simp add: step_cost_def isa_pc_abs state_simps del: diff_numeral_special)
  moreover have "unat (mcycle s) < unat MAX_CYCLES" using lt by (simp add: word_less_nat_alt)
  ultimately have "unat (mcycle s') = unat (mcycle s) + step_cost is i (abs_emu s)"
    using step_cost_bounds(2) [of "is" i "abs_emu s"]
    by (simp only:) (rule unat_plus_of_nat, simp add: c_consts)
  with st p(2) frame(2) frame(4) [OF wf] cost(2) show ?thesis by blast
qed

lemma timed_run_simulation:
  fixes s :: "'x::len emu"
  assumes ok: "xlen_ok TYPE('x)" and wf: "wf_emu s" and pl: "pipeline bubble bubble (perf_model s)"
    and run: "timed_run m is n (abs_emu s) t" and lt: "unat (mcycle s) + n \<le> unat MAX_CYCLES"
  shows "\<exists>s'. emu_reach m s s' \<and> abs_emu s' = t \<and> wf_emu s' \<and> minstret s' = minstret s + of_nat (length is) \<and>
    unat (mcycle s') = unat (mcycle s) + n \<and> pipeline (latest is) (latest (tl is)) (perf_model s')"
  using run lt
proof (induction "is" n "abs_emu s" t)
  case timed_start
  with wf pl show ?case by (intro exI [of _ s]) (simp add: start)
next
  case (timed_step "is" n t i u)
  have b: "1 \<le> step_cost is i t" by (rule step_cost_bounds)
  with timed_step obtain v where v: "emu_reach m s v" "abs_emu v = t" "wf_emu v"
    "minstret v = minstret s + of_nat (length is)" "unat (mcycle v) = unat (mcycle s) + n"
    "pipeline (latest is) (latest (tl is)) (perf_model v)" by auto
  have "mcycle v < MAX_CYCLES" using v(5) b timed_step.prems by (simp add: word_less_nat_alt)
  from timed_step_simulation [OF ok v(3) this v(6), unfolded v(2), OF timed_step.hyps(3,4)] obtain s' where
    "emu_step m v True s'" "abs_emu s' = u" "wf_emu s'" "minstret s' = minstret v + 1"
    "unat (mcycle s') = unat (mcycle v) + step_cost is i t" "pipeline i (latest is) (perf_model s')" by blast
  with v show ?case by (intro exI [of _ s']) (auto intro: emu_reach.step)
qed

lemma main_stops:
  fixes s v w :: "'x::len emu"
  assumes l: "load_rom_binary file init_emu = (True, s)" and r: "emu_reach m s v"
    and st: "emu_step m v False w" and lt: "mcycle w < MAX_CYCLES"
  shows "main m 2 file elapsed init_emu = Some (0,
    emit (if elapsed > 0 then Info_frequency (mcycle w) (nat elapsed) else Info_frequency_inf)
      (emit (Info_cycles (mcycle w)) w))"
proof -
  have "loop_body m v = Some (Inl (False, w))" "mcycle v < MAX_CYCLES"
    using st by (auto simp: loop_body_def emu_step_iff)
  then have "main_loop m True v = Some (False, w)"
    by (subst main_loop_unfold) (simp add: word_less_nat_alt)
  then have "main_loop m True s = Some (False, w)" by (simp add: main_loop_reach [OF r])
  with l lt show ?thesis by (simp add: main_def Let_def state_simps)
qed

lemma main_cycle_report:
  assumes ok: "xlen_ok TYPE('x::len)"
    and run: "timed_run m is n (isa_init img :: 'x isa) t" and f: "fetched m t i" and x: "isa_exec i t = (False, u)"
    and lt: "4 + n + step_cost is i t < unat MAX_CYCLES"
  shows "\<exists>s' e cs. main m 2 (Some img) elapsed (init_emu :: 'x emu) = Some (0, s') \<and>
    console s' = e # Info_cycles (of_nat (4 + n + step_cost is i t)) # cs \<and>
    minstret s' = of_nat (length is + 1) \<and> outputs (console s') = isa_out u"
proof -
  define s :: "'x emu" where "s = snd (load_rom_binary (Some img) init_emu)"
  have l: "load_rom_binary (Some img) init_emu = (True, s)"
    by (rule prod_eqI) (simp_all add: load_rom_binary_simps s_def)
  have wf: "wf_emu s" by (simp add: s_def load_rom_binary_simps wf_init_emu)
  have mc: "unat (mcycle s) = 4" "minstret s = 0" by (simp_all add: s_def load_rom_binary_simps)
  have pl: "pipeline bubble bubble (perf_model s)"
    by (simp add: s_def load_rom_binary_def Let_def state_simps init_emu_def PERF_MODEL_INIT_def pipeline_def
        bubble_def is_load_def)
  have "timed_run m is n (abs_emu s) t" using run by (simp add: s_def abs_load_rom)
  from timed_run_simulation [OF ok wf pl this] mc lt obtain v where
    v: "emu_reach m s v" "abs_emu v = t" "wf_emu v" "minstret v = of_nat (length is)"
      "unat (mcycle v) = 4 + n" "pipeline (latest is) (latest (tl is)) (perf_model v)" by auto
  have "mcycle v < MAX_CYCLES" using v(5) lt by (simp add: word_less_nat_alt)
  from timed_step_simulation [OF ok v(3) this v(6), unfolded v(2), OF f x] obtain w where
    w: "emu_step m v False w" "abs_emu w = u" "minstret w = minstret v + 1"
      "unat (mcycle w) = unat (mcycle v) + step_cost is i t" by blast
  have "mcycle w < MAX_CYCLES" using w(4) v(5) lt by (simp add: word_less_nat_alt)
  note main_stops [OF l v(1) w(1) this, of elapsed]
  moreover have "mcycle w = of_nat (4 + n + step_cost is i t)" proof -
    have "mcycle w = of_nat (unat (mcycle w))" by simp
    then show ?thesis by (simp only: w(4) v(5))
  qed
  moreover have "isa_out u = outputs (console w)" using w(2) by (auto simp: abs_emu_def)
  moreover have "minstret w = of_nat (length is + 1)" using w(3) v(4) by simp
  ultimately show ?thesis by (simp add: state_simps)
qed

section \<open>Properties\<close>

text \<open>C10. The cycles an instruction takes are one, and one more for each of: a load just before it
  whose register it reads; for a branch or an indirect jump any instruction just before it that writes a
  register it reads, and a load two instructions before; a jump or a taken branch; an unaligned access.\<close>

theorem process_instr_cycles:
  fixes s :: "'x::len emu"
  assumes "xlen_ok TYPE('x)" and "valid_insn TYPE('x) m i" and "pipeline p q (perf_model s)"
    and "process_instr m (encode i) s = Some (c, s')"
  shows "mcycle s' = mcycle s + of_nat (insn_cost p q i (abs_emu s)) \<and> pipeline i p (perf_model s')"
  using process_instr_cost [OF assms] by blast

theorem process_instr_cycles_witness:
  "\<exists>c s c' s'. process_instr True (encode (Load LW 5 0 2)) (init_emu :: 32 emu) = Some (c, s) \<and>
     process_instr True (encode (Branch BNE 5 6 8)) s = Some (c', s') \<and>
     mcycle s' = mcycle s + (if sint (isa_regs (abs_emu s) 5) = sint (isa_regs (abs_emu s) 6) then 3 else 4)"
proof -
  obtain c s where l: "process_instr True (encode (Load LW 5 0 2)) (init_emu :: 32 emu) = Some (c, s)"
    by (rule process_instr_total [OF xlen_ok_simps(1)])
  obtain c' s' where p: "process_instr True (encode (Branch BNE 5 6 8)) s = Some (c', s')"
    by (rule process_instr_total [OF xlen_ok_simps(1)])
  have v: "valid_insn TYPE(32) True (Load LW 5 0 2)" "valid_insn TYPE(32) True (Branch BNE 5 6 8)"
    by (simp_all add: valid_insn_def)
  have "pipeline bubble bubble (perf_model (init_emu :: 32 emu))"
    by (simp add: init_emu_def PERF_MODEL_INIT_def pipeline_def bubble_def is_load_def)
  from process_instr_cycles [OF xlen_ok_simps(1) v(1) this l] have "pipeline (Load LW 5 0 2) bubble (perf_model s)"
    by blast
  from process_instr_cycles [OF xlen_ok_simps(1) v(2) this p]
  have "mcycle s' = mcycle s + (if sint (isa_regs (abs_emu s) 5) = sint (isa_regs (abs_emu s) 6) then 3 else 4)"
    by (simp add: insn_cost_def needs_def is_load_def early_def bubble_def)
  with l p show ?thesis by blast
qed

end
