(* ===== verification/Printf_Gadget.thy ===== *)
theory Printf_Gadget
  imports C_Prelude
begin

text \<open>
  The output side of \<^verbatim>\<open>sdk/librv/printf.c\<close>, the formatted output of the guest
  programs: the output gadget, the functions that put one character or the terminator
  through it, and the padding loops.

  A character is a byte.  A gadget writes either into a buffer, a list whose length is the
  size of the array the caller passed, or to a callback, whose calls are recorded newest
  first.  A write outside the buffer, or through a null buffer, returns \<open>None\<close>.
  The callback's extra argument is passed on unchanged and left out.  Besides the fields of the
  C structure the record has what is written through the pointers: the calls of the callback,
  the contents of the buffer, and the objects that \<^verbatim>\<open>%n\<close> stores to, each write with its
  location and bytes, newest first.
\<close>

section \<open>The gadget\<close>

record output_gadget_t =
  g_function :: bool
  g_calls :: "u8 list"
  g_buffer :: "u8 list option"
  g_pos :: u32
  g_max_chars :: u32
  g_stores :: "(nat \<times> u8 list) list"

definition PRINTF_MAX_POSSIBLE_BUFFER_SIZE :: u32 where [c_consts]:
  "PRINTF_MAX_POSSIBLE_BUFFER_SIZE = 0x7FFFFFFF"

definition putchar_via_gadget :: "output_gadget_t \<Rightarrow> u8 \<Rightarrow> output_gadget_t option" where
  "putchar_via_gadget gadget c =
     (let write_pos = g_pos gadget;
          gadget = gadget\<lparr>g_pos := g_pos gadget + 1\<rparr>
      in if g_max_chars gadget \<le> write_pos then Some gadget
         else if g_function gadget then Some (gadget\<lparr>g_calls := c # g_calls gadget\<rparr>)
         else case g_buffer gadget of
             None \<Rightarrow> None
           | Some buf \<Rightarrow> if unat write_pos < length buf
               then Some (gadget\<lparr>g_buffer := Some (buf[unat write_pos := c])\<rparr>) else None)"

definition append_termination_with_gadget :: "output_gadget_t \<Rightarrow> output_gadget_t option" where
  "append_termination_with_gadget gadget =
     (if g_function gadget \<or> g_max_chars gadget = 0 then Some gadget
      else case g_buffer gadget of
          None \<Rightarrow> Some gadget
        | Some buf \<Rightarrow>
            let null_char_pos = (if g_pos gadget < g_max_chars gadget then g_pos gadget
              else g_max_chars gadget - 1)
            in if unat null_char_pos < length buf
               then Some (gadget\<lparr>g_buffer := Some (buf[unat null_char_pos := 0])\<rparr>) else None)"

definition discarding_gadget :: output_gadget_t where
  "discarding_gadget = \<lparr>g_function = False, g_calls = [], g_buffer = None, g_pos = 0, g_max_chars = 0,
     g_stores = []\<rparr>"

text \<open>The buffer size is a \<open>size_t\<close> of either width, here a natural number.\<close>

definition buffer_gadget :: "u8 list option \<Rightarrow> nat \<Rightarrow> output_gadget_t" where
  "buffer_gadget buffer buffer_size =
     (let usable_buffer_size = (if unat PRINTF_MAX_POSSIBLE_BUFFER_SIZE < buffer_size
            then PRINTF_MAX_POSSIBLE_BUFFER_SIZE else of_nat buffer_size);
          result = discarding_gadget
      in case buffer of None \<Rightarrow> result
         | Some buf \<Rightarrow> result\<lparr>g_buffer := Some buf, g_max_chars := usable_buffer_size\<rparr>)"

text \<open>The callback is not null.\<close>

definition function_gadget :: output_gadget_t where
  "function_gadget = discarding_gadget\<lparr>g_function := True,
     g_max_chars := PRINTF_MAX_POSSIBLE_BUFFER_SIZE\<rparr>"

definition extern_putchar_gadget :: output_gadget_t where
  "extern_putchar_gadget = function_gadget"

section \<open>Sequences of characters\<close>

fun fold_option :: "('s \<Rightarrow> 'a \<Rightarrow> 's option) \<Rightarrow> 'a list \<Rightarrow> 's \<Rightarrow> 's option" where
  "fold_option f [] s = Some s"
| "fold_option f (x # xs) s = do { s \<leftarrow> f s x; fold_option f xs s }"

lemma fold_option_Nil: "fold_option f [] = Some"
  by (simp add: fun_eq_iff)

lemma fold_option_append:
  "fold_option f (xs @ ys) s = do { s \<leftarrow> fold_option f xs s; fold_option f ys s }"
  by (induction xs arbitrary: s) (simp_all split: bind_split)

abbreviation put_all :: "u8 list \<Rightarrow> output_gadget_t \<Rightarrow> output_gadget_t option" where
  "put_all \<equiv> fold_option putchar_via_gadget"

lemma putchar_pos: "putchar_via_gadget g c = Some g' \<Longrightarrow> g_pos g' = g_pos g + 1"
  by (auto simp: putchar_via_gadget_def Let_def split: if_splits option.splits)

lemma put_all_pos: "put_all xs g = Some g' \<Longrightarrow> g_pos g' = g_pos g + of_nat (length xs)"
  by (induction xs arbitrary: g) (auto simp: bind_eq_Some_conv dest!: putchar_pos)

section \<open>The padding loops\<close>

lemma unat_less_step:
  fixes i n :: "'a::len word"
  assumes "i < n"
  shows "unat (i + 1) = Suc (unat i)" "unat i < unat n"
  using assms unat_plus_of_nat [of i 1] unat_less [of n]
  by (simp_all add: word_less_nat_alt)

lemma distance_decreases: "i < n \<Longrightarrow> unat n - unat (i + 1) < unat n - unat i"
  for i n :: "'a::len word"
  using unat_less_step [of i n] by linarith

text \<open>The loops \<open>for (i = l; i < width; i++)\<close> and \<open>while (l++ < width)\<close> over a space.\<close>

function pad_spaces :: "u32 \<Rightarrow> u32 \<Rightarrow> output_gadget_t \<Rightarrow> output_gadget_t option" where
  "pad_spaces i width output =
     (if i < width then do {
        output \<leftarrow> putchar_via_gadget output 0x20;
        pad_spaces (i + 1) width output }
      else Some output)"
  by pat_completeness auto

termination
  by (relation "measure (\<lambda>(i, width, _). unat width - unat i)") (simp_all add: distance_decreases)

declare pad_spaces.simps [simp del]

text \<open>The padding of \<open>out_rev\<close> on the right, which counts with the position of the gadget.\<close>

function pad_right :: "u32 \<Rightarrow> u32 \<Rightarrow> output_gadget_t \<Rightarrow> output_gadget_t option" where
  "pad_right start_pos width output =
     (if g_pos output - start_pos < width then do {
        output \<leftarrow> putchar_via_gadget output 0x20;
        pad_right start_pos width output }
      else Some output)"
  by pat_completeness auto

termination
proof (relation "measure (\<lambda>(start, width, g). unat width - unat (g_pos g - start))")
  fix start width :: u32 and g g'
  assume lt: "g_pos g - start < width" and "putchar_via_gadget g 0x20 = Some g'"
  then have "g_pos g' = g_pos g + 1" by (simp add: putchar_pos)
  with distance_decreases [OF lt] show "((start, width, g'), (start, width, g)) \<in>
      measure (\<lambda>(start, width, g). unat width - unat (g_pos g - start))"
    by (simp add: diff_add_eq)
qed simp

declare pad_right.simps [simp del]

lemma pad_spaces_eq: "pad_spaces i width g = put_all (replicate (unat width - unat i) 0x20) g"
proof (induction i width g rule: pad_spaces.induct)
  case (1 i width g)
  show ?case
  proof (cases "i < width")
    case True
    then have "unat width - unat i = Suc (unat width - unat (i + 1))"
      using unat_less_step [OF True] by simp
    with 1 True show ?thesis by (subst pad_spaces.simps) (simp cong: Option.bind_cong)
  next
    case False
    then show ?thesis by (subst pad_spaces.simps) (simp add: word_less_nat_alt)
  qed
qed

lemma pad_right_eq:
  "pad_right start width g = put_all (replicate (unat width - unat (g_pos g - start)) 0x20) g"
proof (induction start width g rule: pad_right.induct)
  case (1 start width g)
  show ?case
  proof (cases "g_pos g - start < width")
    case True
    have "g_pos g' = g_pos g + 1" if "putchar_via_gadget g 0x20 = Some g'" for g'
      using that by (simp add: putchar_pos)
    moreover have "unat width - unat (g_pos g - start) = Suc (unat width - unat (g_pos g - start + 1))"
      using unat_less_step [OF True] by simp
    ultimately show ?thesis
      using 1 True by (subst pad_right.simps) (simp add: diff_add_eq cong: Option.bind_cong)
  next
    case False
    then show ?thesis by (subst pad_right.simps) (simp add: word_less_nat_alt)
  qed
qed

section \<open>The contract of a character sink\<close>

text \<open>
  What printing needs of a destination: \<open>received s xs\<close> says that \<open>s\<close> is the
  destination after the characters \<open>xs\<close>, and one more character always succeeds, up to a
  limit on their number.
\<close>

locale char_sink =
  fixes put :: "'s \<Rightarrow> u8 \<Rightarrow> 's option"
    and received :: "'s \<Rightarrow> u8 list \<Rightarrow> bool"
    and limit :: nat
  assumes put_received: "received s xs \<Longrightarrow> length xs < limit \<Longrightarrow>
    \<exists>s'. put s c = Some s' \<and> received s' (xs @ [c])"
begin

lemma fold_received:
  "received s xs \<Longrightarrow> length xs + length ys \<le> limit \<Longrightarrow>
    \<exists>s'. fold_option put ys s = Some s' \<and> received s' (xs @ ys)"
proof (induction ys arbitrary: s xs)
  case (Cons y ys)
  from put_received [OF Cons.prems(1), of y] Cons.prems(2) obtain t where
    t: "put s y = Some t" "received t (xs @ [y])" by auto
  from Cons.IH [OF t(2)] Cons.prems(2) t(1) show ?case by simp
qed simp

end

text \<open>
  A buffer of which the first \<open>n\<close> cells may be written keeps the first \<open>n\<close>
  characters; a callback gets the characters up to the limit of the library; the discarding
  gadget, and a buffer of size 0, only count.
\<close>

definition char_limit :: nat where
  "char_limit = 2 ^ 32 - 1"

definition buffer_received :: "u8 list \<Rightarrow> nat \<Rightarrow> output_gadget_t \<Rightarrow> u8 list \<Rightarrow> bool" where
  "buffer_received buf n g xs \<longleftrightarrow>
     n \<le> length buf \<and> n \<le> unat PRINTF_MAX_POSSIBLE_BUFFER_SIZE \<and>
     g = \<lparr>g_function = False, g_calls = [], g_buffer = Some (take n xs @ drop (min n (length xs)) buf),
       g_pos = of_nat (length xs), g_max_chars = of_nat n, g_stores = []\<rparr>"

definition function_received :: "output_gadget_t \<Rightarrow> u8 list \<Rightarrow> bool" where
  "function_received g xs \<longleftrightarrow>
     g = \<lparr>g_function = True, g_calls = rev (take (unat PRINTF_MAX_POSSIBLE_BUFFER_SIZE) xs),
       g_buffer = None, g_pos = of_nat (length xs), g_max_chars = PRINTF_MAX_POSSIBLE_BUFFER_SIZE, g_stores = []\<rparr>"

definition discard_received :: "u8 list option \<Rightarrow> output_gadget_t \<Rightarrow> u8 list \<Rightarrow> bool" where
  "discard_received buf g xs \<longleftrightarrow>
     g = discarding_gadget\<lparr>g_buffer := buf, g_pos := of_nat (length xs)\<rparr>"

lemma pos_count:
  "length xs < char_limit \<Longrightarrow> unat (of_nat (length xs) :: u32) = length xs"
  by (simp add: char_limit_def unat_of_nat)

interpretation buffer_sink: char_sink putchar_via_gadget "buffer_received buf n" char_limit for buf n
proof
  fix g xs c
  assume r: "buffer_received buf n g xs" and lt: "length xs < char_limit"
  have n: "unat (of_nat n :: u32) = n" "n \<le> length buf"
    using r by (simp_all add: buffer_received_def unat_of_nat c_consts)
  note pos = pos_count [OF lt]
  show "\<exists>g'. putchar_via_gadget g c = Some g' \<and> buffer_received buf n g' (xs @ [c])"
  proof (cases "n \<le> length xs")
    case True
    with r n pos show ?thesis
      by (auto simp: buffer_received_def putchar_via_gadget_def word_le_nat_alt Let_def)
  next
    case False
    with n have "(xs @ drop (length xs) buf)[length xs := c] = xs @ c # drop (Suc (length xs)) buf"
      by (subst Cons_nth_drop_Suc [symmetric]) (simp_all add: list_update_append)
    moreover have "min n (length xs) = length xs" "min n (Suc (length xs)) = Suc (length xs)"
      using False by simp_all
    ultimately show ?thesis
      using False r n pos
      by (simp add: buffer_received_def putchar_via_gadget_def word_le_nat_alt Let_def)
  qed
qed

interpretation function_sink: char_sink putchar_via_gadget function_received char_limit
proof
  fix g xs c
  assume r: "function_received g xs" and lt: "length xs < char_limit"
  note pos = pos_count [OF lt]
  show "\<exists>g'. putchar_via_gadget g c = Some g' \<and> function_received g' (xs @ [c])"
    using r pos by (simp add: function_received_def putchar_via_gadget_def word_le_nat_alt Let_def)
qed

interpretation discard_sink: char_sink putchar_via_gadget "discard_received buf" limit for buf limit
  by unfold_locales
     (simp add: discard_received_def discarding_gadget_def putchar_via_gadget_def Let_def)

text \<open>The gadgets the entry points start with.\<close>

lemma buffer_gadget_received:
  "n \<le> length buf \<Longrightarrow>
    buffer_received buf (min n (unat PRINTF_MAX_POSSIBLE_BUFFER_SIZE)) (buffer_gadget (Some buf) n) []"
  by (auto simp: buffer_received_def buffer_gadget_def discarding_gadget_def Let_def min_def)

lemma function_gadget_received: "function_received function_gadget []"
  by (simp add: function_received_def function_gadget_def discarding_gadget_def)

lemma discard_gadget_received:
  "discard_received None (buffer_gadget None n) []"
  "discard_received (Some buf) (buffer_gadget (Some buf) 0) []"
  by (simp_all add: discard_received_def buffer_gadget_def discarding_gadget_def)

lemma append_termination_received:
  assumes "buffer_received buf n g xs" "length xs < char_limit" "0 < n"
  shows "\<exists>g'. append_termination_with_gadget g = Some g' \<and>
    g_buffer g' = Some (take (n - 1) xs @ 0 # drop (Suc (min (n - 1) (length xs))) buf) \<and>
    g_pos g' = g_pos g"
proof -
  have n: "unat (of_nat n :: u32) = n" "n \<le> length buf"
    using assms(1) by (simp_all add: buffer_received_def unat_of_nat c_consts)
  note pos = pos_count [OF assms(2)]
  show ?thesis
  proof (cases "n \<le> length xs")
    case True
    have "unat (of_nat n - 1 :: u32) = n - 1" using n assms(3) by (simp add: unat_sub_if')
    moreover have "(take n xs @ drop n buf)[n - 1 := 0] = take (n - 1) xs @ 0 # drop n buf"
      using True assms(3) by (cases n) (simp_all add: list_update_append take_Suc_conv_app_nth)
    ultimately show ?thesis
      using assms n pos True
      by (auto simp: buffer_received_def append_termination_with_gadget_def Let_def word_less_nat_alt
          unat_eq_zero [symmetric] min_def)
  next
    case False
    then have "(xs @ drop (length xs) buf)[length xs := 0] = xs @ 0 # drop (Suc (length xs)) buf"
      using n by (subst Cons_nth_drop_Suc [symmetric]) (simp_all add: list_update_append)
    moreover have "min n (length xs) = length xs" "min (n - 1) (length xs) = length xs"
      using False by simp_all
    ultimately show ?thesis
      using False assms n pos
      by (auto simp: buffer_received_def append_termination_with_gadget_def Let_def word_less_nat_alt
          unat_eq_zero [symmetric])
  qed
qed

section \<open>Functions that emit a fixed text\<close>

definition emits :: "(output_gadget_t \<Rightarrow> output_gadget_t option) \<Rightarrow> u8 list \<Rightarrow> bool" where
  "emits f xs \<longleftrightarrow> (\<forall>g. f g = put_all xs g)"

lemma emits_put: "emits (\<lambda>g. putchar_via_gadget g c) [c]"
  by (simp add: emits_def fold_option_Nil)

lemma emits_Some: "emits Some []"
  by (simp add: emits_def)

lemma emits_bind: "emits f xs \<Longrightarrow> emits h ys \<Longrightarrow> emits (\<lambda>g. do { g \<leftarrow> f g; h g }) (xs @ ys)"
  by (simp add: emits_def fold_option_append cong: Option.bind_cong)

lemma emits_pad_spaces: "emits (pad_spaces i width) (replicate (unat width - unat i) 0x20)"
  by (simp add: emits_def pad_spaces_eq)

end
