(* ===== verification/Printf_Integer.thy ===== *)
theory Printf_Integer
  imports Printf_Gadget
begin

text \<open>
  Integer conversion of \<^verbatim>\<open>sdk/librv/printf.c\<close>: \<open>out_rev\<close>,
  \<open>print_integer_finalization\<close> and \<open>print_integer\<close>.

  The 32-byte buffer \<open>buf\<close> and its length \<open>len\<close> are one list, the first \<open>len\<close> bytes
  of the buffer: the source writes only at \<open>buf[len++]\<close> and reads only below
  \<open>len\<close>.  A write beyond the 32 bytes returns \<open>None\<close>.
\<close>

section \<open>Flags and bases\<close>

definition FLAGS_ZEROPAD :: u32 where [c_consts]: "FLAGS_ZEROPAD = 1"
definition FLAGS_LEFT :: u32 where [c_consts]: "FLAGS_LEFT = 2"
definition FLAGS_PLUS :: u32 where [c_consts]: "FLAGS_PLUS = 4"
definition FLAGS_SPACE :: u32 where [c_consts]: "FLAGS_SPACE = 8"
definition FLAGS_HASH :: u32 where [c_consts]: "FLAGS_HASH = 16"
definition FLAGS_UPPERCASE :: u32 where [c_consts]: "FLAGS_UPPERCASE = 32"
definition FLAGS_CHAR :: u32 where [c_consts]: "FLAGS_CHAR = 64"
definition FLAGS_SHORT :: u32 where [c_consts]: "FLAGS_SHORT = 128"
definition FLAGS_INT :: u32 where [c_consts]: "FLAGS_INT = 256"
definition FLAGS_LONG :: u32 where [c_consts]: "FLAGS_LONG = 512"
definition FLAGS_LONG_LONG :: u32 where [c_consts]: "FLAGS_LONG_LONG = 1024"
definition FLAGS_PRECISION :: u32 where [c_consts]: "FLAGS_PRECISION = 2048"
definition FLAGS_POINTER :: u32 where [c_consts]: "FLAGS_POINTER = 8192"
definition FLAGS_SIGNED :: u32 where [c_consts]: "FLAGS_SIGNED = 16384"
definition FLAGS_LONG_DOUBLE :: u32 where [c_consts]: "FLAGS_LONG_DOUBLE = 32768"

definition BASE_BINARY :: u8 where [c_consts]: "BASE_BINARY = 2"
definition BASE_OCTAL :: u8 where [c_consts]: "BASE_OCTAL = 8"
definition BASE_DECIMAL :: u8 where [c_consts]: "BASE_DECIMAL = 10"
definition BASE_HEX :: u8 where [c_consts]: "BASE_HEX = 16"

definition PRINTF_INTEGER_BUFFER_SIZE :: nat where [c_consts]: "PRINTF_INTEGER_BUFFER_SIZE = 32"

text \<open>\<open>flags & bits\<close> as a condition.\<close>

definition flag :: "u32 \<Rightarrow> u32 \<Rightarrow> bool" where
  "flag flags bits \<longleftrightarrow> flags AND bits \<noteq> 0"

section \<open>Definitions\<close>

text \<open>The loop \<open>while (len) putchar_via_gadget(output, buf[--len])\<close>.\<close>

fun put_reversed :: "u8 list \<Rightarrow> nat \<Rightarrow> output_gadget_t \<Rightarrow> output_gadget_t option" where
  "put_reversed buf 0 output = Some output"
| "put_reversed buf (Suc len) output =
     (if len < length buf then do {
        output \<leftarrow> putchar_via_gadget output (buf ! len);
        put_reversed buf len output }
      else None)"

definition out_rev ::
  "output_gadget_t \<Rightarrow> u8 list \<Rightarrow> u32 \<Rightarrow> u32 \<Rightarrow> u32 \<Rightarrow> output_gadget_t option" where
  "out_rev output buf len width flags =
     (let start_pos = g_pos output in do {
        output \<leftarrow> (if \<not> flag flags FLAGS_LEFT \<and> \<not> flag flags FLAGS_ZEROPAD
          then pad_spaces len width output else Some output);
        output \<leftarrow> put_reversed buf (unat len) output;
        if flag flags FLAGS_LEFT then pad_right start_pos width output else Some output })"

text \<open>\<open>buf[len++] = c\<close>\<close>

definition push :: "u8 list \<Rightarrow> u8 \<Rightarrow> u8 list option" where
  "push buf c = (if length buf < PRINTF_INTEGER_BUFFER_SIZE then Some (buf @ [c]) else None)"

text \<open>The loops that append zeros while \<open>len\<close> is below a limit and the buffer size.\<close>

function pad_zeros :: "u32 \<Rightarrow> u8 list \<Rightarrow> u8 list option" where
  "pad_zeros limit buf =
     (if length buf < unat limit \<and> length buf < PRINTF_INTEGER_BUFFER_SIZE then do {
        buf \<leftarrow> push buf 0x30;
        pad_zeros limit buf }
      else Some buf)"
  by pat_completeness auto

termination
  by (relation "measure (\<lambda>(_, buf). PRINTF_INTEGER_BUFFER_SIZE - length buf)")
     (auto simp: push_def split: if_splits)

declare pad_zeros.simps [simp del]

text \<open>The block that handles \<open>FLAGS_HASH\<close> and \<open>FLAGS_POINTER\<close>.\<close>

definition add_prefix :: "u8 list \<Rightarrow> nat \<Rightarrow> u8 \<Rightarrow> u32 \<Rightarrow> u32 \<Rightarrow> u32 \<Rightarrow> u8 list option" where
  "add_prefix buf unpadded_len base precision width flags =
     (let buf =
        (if \<not> flag flags FLAGS_PRECISION \<and> length buf \<noteq> 0 \<and>
            (length buf = unat precision \<or> length buf = unat width)
         then let buf = (if unpadded_len < length buf then butlast buf else buf)
              in if length buf \<noteq> 0 \<and> (base = BASE_HEX \<or> base = BASE_BINARY) \<and>
                    unpadded_len < length buf
                 then butlast buf else buf
         else buf)
      in do {
        buf \<leftarrow> (if base = BASE_HEX \<and> \<not> flag flags FLAGS_UPPERCASE \<and>
              length buf < PRINTF_INTEGER_BUFFER_SIZE then push buf 0x78
           else if base = BASE_HEX \<and> flag flags FLAGS_UPPERCASE \<and>
              length buf < PRINTF_INTEGER_BUFFER_SIZE then push buf 0x58
           else if base = BASE_BINARY \<and> length buf < PRINTF_INTEGER_BUFFER_SIZE then push buf 0x62
           else Some buf);
        if length buf < PRINTF_INTEGER_BUFFER_SIZE then push buf 0x30 else Some buf })"

definition add_sign :: "u8 list \<Rightarrow> bool \<Rightarrow> u32 \<Rightarrow> u8 list option" where
  "add_sign buf negative flags =
     (if length buf < PRINTF_INTEGER_BUFFER_SIZE then
        if negative then push buf 0x2D
        else if flag flags FLAGS_PLUS then push buf 0x2B
        else if flag flags FLAGS_SPACE then push buf 0x20
        else Some buf
      else Some buf)"

definition print_integer_finalization ::
  "output_gadget_t \<Rightarrow> u8 list \<Rightarrow> bool \<Rightarrow> u8 \<Rightarrow> u32 \<Rightarrow> u32 \<Rightarrow> u32 \<Rightarrow> output_gadget_t option" where
  "print_integer_finalization output buf negative base precision width flags =
     (let unpadded_len = length buf;
          width = (if \<not> flag flags FLAGS_LEFT \<and> width \<noteq> 0 \<and> flag flags FLAGS_ZEROPAD \<and>
            (negative \<or> flag flags (FLAGS_PLUS OR FLAGS_SPACE)) then width - 1 else width)
      in do {
        buf \<leftarrow> (if \<not> flag flags FLAGS_LEFT \<and> flag flags FLAGS_ZEROPAD
          then pad_zeros width buf else Some buf);
        buf \<leftarrow> pad_zeros precision buf;
        let flags = (if base = BASE_OCTAL \<and> unpadded_len < length buf
          then flags AND NOT FLAGS_HASH else flags);
        buf \<leftarrow> (if flag flags (FLAGS_HASH OR FLAGS_POINTER)
          then add_prefix buf unpadded_len base precision width flags else Some buf);
        buf \<leftarrow> add_sign buf negative flags;
        out_rev output buf (of_nat (length buf)) width flags })"

definition digit_char :: "u32 \<Rightarrow> u8 \<Rightarrow> u8" where
  "digit_char flags digit =
     (if digit < 10 then 0x30 + digit
      else (if flag flags FLAGS_UPPERCASE then 0x41 else 0x61) + digit - 10)"

text \<open>The loop \<open>do { ... } while (value && (len < PRINTF_INTEGER_BUFFER_SIZE))\<close>.\<close>

function digit_loop :: "u32 \<Rightarrow> u8 \<Rightarrow> u64 \<Rightarrow> u8 list \<Rightarrow> u8 list option" where
  "digit_loop flags base value buf = do {
     let digit = ucast (value mod ucast base);
     buf \<leftarrow> push buf (digit_char flags digit);
     let value = value div ucast base;
     if value \<noteq> 0 \<and> length buf < PRINTF_INTEGER_BUFFER_SIZE
     then digit_loop flags base value buf else Some buf }"
  by pat_completeness auto

termination
  by (relation "measure (\<lambda>(_, _, _, buf). PRINTF_INTEGER_BUFFER_SIZE - length buf)")
     (auto simp: push_def split: if_splits)

declare digit_loop.simps [simp del]

definition print_integer ::
  "output_gadget_t \<Rightarrow> u64 \<Rightarrow> bool \<Rightarrow> u8 \<Rightarrow> u32 \<Rightarrow> u32 \<Rightarrow> u32 \<Rightarrow> output_gadget_t option" where
  "print_integer output value negative base precision width flags = do {
     (buf, flags) \<leftarrow>
       (if value = 0 then
          if \<not> flag flags FLAGS_PRECISION then do {
            buf \<leftarrow> push [] 0x30; Some (buf, flags AND NOT FLAGS_HASH) }
          else if base = BASE_HEX then Some ([], flags AND NOT FLAGS_HASH)
          else Some ([], flags)
        else do { buf \<leftarrow> digit_loop flags base value []; Some (buf, flags) });
     print_integer_finalization output buf negative base precision width flags }"

text \<open>A signed value of any width, sign-extended to \<open>printf_signed_value_t\<close>.\<close>

definition ABS_FOR_PRINTING :: "u64 \<Rightarrow> u64" where
  "ABS_FOR_PRINTING x = (if 0 <s x then x else - x)"

section \<open>The buffer never overflows\<close>

lemma push_Some: "push buf c = Some buf' \<longleftrightarrow> length buf < 32 \<and> buf' = buf @ [c]"
  by (auto simp: push_def c_consts)

lemma pad_zeros_eq:
  "length buf \<le> 32 \<Longrightarrow> pad_zeros limit buf = Some (buf @ replicate (min (unat limit) 32 - length buf) 0x30)"
proof (induction limit buf rule: pad_zeros.induct)
  case (1 limit buf)
  show ?case
  proof (cases "length buf < unat limit \<and> length buf < 32")
    case True
    then have "min (unat limit) 32 - length buf = Suc (min (unat limit) 32 - Suc (length buf))"
      by linarith
    with 1 True show ?thesis
      by (subst pad_zeros.simps) (simp add: push_def c_consts)
  next
    case False
    with 1 show ?thesis by (subst pad_zeros.simps) (auto simp: c_consts min_def)
  qed
qed

definition try_push :: "u8 list \<Rightarrow> u8 \<Rightarrow> u8 list" where
  "try_push buf c = (if length buf < 32 then buf @ [c] else buf)"

lemma length_try_push: "length buf \<le> 32 \<Longrightarrow> length (try_push buf c) \<le> 32"
  by (simp add: try_push_def)

definition trim_zeros :: "u8 list \<Rightarrow> nat \<Rightarrow> u8 \<Rightarrow> u32 \<Rightarrow> u32 \<Rightarrow> u32 \<Rightarrow> u8 list" where
  "trim_zeros buf k base precision width flags =
     (if \<not> flag flags FLAGS_PRECISION \<and> length buf \<noteq> 0 \<and>
          (length buf = unat precision \<or> length buf = unat width)
      then let buf = (if k < length buf then butlast buf else buf)
        in if length buf \<noteq> 0 \<and> (base = BASE_HEX \<or> base = BASE_BINARY) \<and> k < length buf
           then butlast buf else buf
      else buf)"

definition prefixed :: "u8 list \<Rightarrow> u8 \<Rightarrow> u32 \<Rightarrow> u8 list" where
  "prefixed b base flags = try_push
     (if base = BASE_HEX then try_push b (if flag flags FLAGS_UPPERCASE then 0x58 else 0x78)
      else if base = BASE_BINARY then try_push b 0x62 else b) 0x30"

lemma add_prefix_eq:
  "add_prefix buf k base precision width flags =
    Some (prefixed (trim_zeros buf k base precision width flags) base flags)"
  unfolding add_prefix_def trim_zeros_def [symmetric] Let_def [of "trim_zeros _ _ _ _ _ _"]
  by (simp add: prefixed_def try_push_def push_def PRINTF_INTEGER_BUFFER_SIZE_def)

lemma length_trim_zeros: "length (trim_zeros buf k base precision width flags) \<le> length buf"
  by (simp add: trim_zeros_def Let_def)

lemma length_prefixed: "length b \<le> 32 \<Longrightarrow> length (prefixed b base flags) \<le> 32"
  by (simp add: prefixed_def length_try_push)

definition signed_text :: "u8 list \<Rightarrow> bool \<Rightarrow> u32 \<Rightarrow> u8 list" where
  "signed_text buf negative flags =
     (if negative then try_push buf 0x2D
      else if flag flags FLAGS_PLUS then try_push buf 0x2B
      else if flag flags FLAGS_SPACE then try_push buf 0x20
      else buf)"

lemma add_sign_eq: "add_sign buf negative flags = Some (signed_text buf negative flags)"
  by (simp add: add_sign_def signed_text_def try_push_def push_def PRINTF_INTEGER_BUFFER_SIZE_def)

lemma length_signed_text: "length buf \<le> 32 \<Longrightarrow> length (signed_text buf negative flags) \<le> 32"
  by (simp add: signed_text_def length_try_push)

lemma digit_loop_total:
  "length buf < 32 \<Longrightarrow> \<exists>buf'. digit_loop flags base v buf = Some buf' \<and> length buf' \<le> 32"
proof (induction flags base v buf rule: digit_loop.induct)
  case (1 flags base v buf)
  then show ?case
    by (subst digit_loop.simps) (auto simp: push_def Let_def PRINTF_INTEGER_BUFFER_SIZE_def)
qed

section \<open>The text a conversion prints\<close>

text \<open>Output of a reversed buffer padded to a width.\<close>

definition rev_text :: "u8 list \<Rightarrow> u32 \<Rightarrow> u32 \<Rightarrow> u8 list" where
  "rev_text buf width flags =
     (if \<not> flag flags FLAGS_LEFT \<and> \<not> flag flags FLAGS_ZEROPAD
      then replicate (unat width - length buf) 0x20 else []) @
     rev buf @
     (if flag flags FLAGS_LEFT then replicate (unat width - length buf) 0x20 else [])"

lemma put_reversed_eq: "n \<le> length buf \<Longrightarrow> put_reversed buf n g = put_all (rev (take n buf)) g"
proof (induction n arbitrary: g)
  case (Suc n)
  then have "rev (take (Suc n) buf) = buf ! n # rev (take n buf)"
    by (simp add: take_Suc_conv_app_nth)
  with Suc show ?case by (simp cong: Option.bind_cong)
qed simp

lemma out_rev_eq:
  assumes "length buf < 2 ^ 32"
  shows "out_rev g buf (of_nat (length buf)) width flags = put_all (rev_text buf width flags) g"
proof -
  have len: "unat (of_nat (length buf) :: u32) = length buf"
    using assms by (simp add: unat_of_nat)
  show ?thesis
  proof (cases "flag flags FLAGS_LEFT")
    case True
    have "pad_right (g_pos g) width g' = put_all (replicate (unat width - length buf) 0x20) g'"
      if "put_all (rev buf) g = Some g'" for g'
      using put_all_pos [OF that] len by (simp add: pad_right_eq)
    then show ?thesis
      using True len by (simp add: out_rev_def rev_text_def put_reversed_eq fold_option_append
          cong: Option.bind_cong)
  next
    case False
    then show ?thesis
      using len by (simp add: out_rev_def rev_text_def put_reversed_eq pad_spaces_eq
          fold_option_append cong: Option.bind_cong)
  qed
qed

text \<open>The buffer \<open>print_integer_finalization\<close> prints, and the width it pads to.\<close>

definition final_width :: "bool \<Rightarrow> u32 \<Rightarrow> u32 \<Rightarrow> u32" where
  "final_width negative width flags =
     (if \<not> flag flags FLAGS_LEFT \<and> width \<noteq> 0 \<and> flag flags FLAGS_ZEROPAD \<and>
        (negative \<or> flag flags (FLAGS_PLUS OR FLAGS_SPACE)) then width - 1 else width)"

definition zero_padded :: "u8 list \<Rightarrow> u32 \<Rightarrow> u32 \<Rightarrow> u32 \<Rightarrow> u8 list" where
  "zero_padded buf precision width flags = buf @ replicate
     (min (max (unat precision)
        (if \<not> flag flags FLAGS_LEFT \<and> flag flags FLAGS_ZEROPAD then unat width else 0)) 32
      - length buf) 0x30"

definition final_buffer :: "u8 list \<Rightarrow> bool \<Rightarrow> u8 \<Rightarrow> u32 \<Rightarrow> u32 \<Rightarrow> u32 \<Rightarrow> u8 list" where
  "final_buffer buf negative base precision width flags =
     (let b = zero_padded buf precision width flags;
          flags = (if base = BASE_OCTAL \<and> length buf < length b then flags AND NOT FLAGS_HASH else flags);
          b = (if flag flags (FLAGS_HASH OR FLAGS_POINTER)
            then prefixed (trim_zeros b (length buf) base precision width flags) base flags else b)
      in signed_text b negative flags)"

lemma length_zero_padded: "length buf \<le> 32 \<Longrightarrow> length (zero_padded buf p w flags) \<le> 32"
  by (simp add: zero_padded_def)

lemma length_final_buffer:
  assumes "length buf \<le> 32"
  shows "length (final_buffer buf negative base precision width flags) \<le> 32"
  unfolding final_buffer_def Let_def
  using assms length_zero_padded le_trans [OF length_trim_zeros length_zero_padded]
  by (intro length_signed_text) (simp add: length_prefixed)

lemma flag_clear_other:
  "flag (flags AND NOT FLAGS_HASH) FLAGS_LEFT = flag flags FLAGS_LEFT"
  "flag (flags AND NOT FLAGS_HASH) FLAGS_ZEROPAD = flag flags FLAGS_ZEROPAD"
  "flag (flags AND NOT FLAGS_HASH) FLAGS_PRECISION = flag flags FLAGS_PRECISION"
  by (simp_all add: flag_def c_consts and.assoc)

lemma print_integer_finalization_eq:
  assumes "length buf \<le> 32"
  shows "print_integer_finalization g buf negative base precision width flags =
    put_all (rev_text
      (final_buffer buf negative base precision (final_width negative width flags) flags)
      (final_width negative width flags) flags) g"
proof -
  let ?w = "final_width negative width flags"
  have zeros: "(do { b \<leftarrow> (if \<not> flag flags FLAGS_LEFT \<and> flag flags FLAGS_ZEROPAD
        then pad_zeros ?w buf else Some buf); pad_zeros precision b }) =
      Some (zero_padded buf precision ?w flags)"
    using assms by (auto simp: pad_zeros_eq zero_padded_def replicate_add [symmetric] max_def min_def)
  let ?z = "zero_padded buf precision ?w flags"
  from zeros obtain b1 where b1: "(if \<not> flag flags FLAGS_LEFT \<and> flag flags FLAGS_ZEROPAD
      then pad_zeros ?w buf else Some buf) = Some b1" and z: "pad_zeros precision b1 = Some ?z"
    by (auto simp: bind_eq_Some_conv)
  define fl where "fl = (if base = BASE_OCTAL \<and> length buf < length ?z
    then flags AND NOT FLAGS_HASH else flags)"
  define b2 where "b2 = (if flag fl (FLAGS_HASH OR FLAGS_POINTER)
    then prefixed (trim_zeros ?z (length buf) base precision ?w fl) base fl else ?z)"
  have prefix: "(if flag fl (FLAGS_HASH OR FLAGS_POINTER)
      then add_prefix ?z (length buf) base precision ?w fl else Some ?z) = Some b2"
    by (simp add: b2_def add_prefix_eq)
  have final: "final_buffer buf negative base precision ?w flags = signed_text b2 negative fl"
    by (simp add: final_buffer_def Let_def b2_def fl_def)
  have "print_integer_finalization g buf negative base precision width flags =
      out_rev g (signed_text b2 negative fl) (of_nat (length (signed_text b2 negative fl))) ?w fl"
    unfolding print_integer_finalization_def Let_def final_width_def [symmetric]
    by (simp only: b1 z bind.bind_lunit fl_def [symmetric] prefix add_sign_eq)
  moreover have "rev_text b w fl = rev_text b w flags" for b w
    by (simp add: fl_def rev_text_def flag_clear_other)
  ultimately show ?thesis
    using length_final_buffer [OF assms, of negative base precision ?w flags]
    by (simp add: out_rev_eq final)
qed

section \<open>The digits of a number\<close>

text \<open>At most \<open>k\<close> digits of \<open>n\<close>, least significant first, at least one.\<close>

fun digits :: "nat \<Rightarrow> nat \<Rightarrow> nat \<Rightarrow> nat list" where
  "digits 0 b n = []"
| "digits (Suc k) b n = n mod b # (if n div b = 0 then [] else digits k b (n div b))"

fun digits_value :: "nat \<Rightarrow> nat list \<Rightarrow> nat" where
  "digits_value b [] = 0"
| "digits_value b (d # ds) = d + b * digits_value b ds"

text \<open>The reference: all digits of \<open>n\<close>, most significant first.\<close>

function radix_digits :: "nat \<Rightarrow> nat \<Rightarrow> nat list" where
  "radix_digits b n = (if b < 2 \<or> n < b then [n] else radix_digits b (n div b) @ [n mod b])"
  by pat_completeness auto
termination by (relation "measure snd") auto

declare radix_digits.simps [simp del]

definition digit_ascii :: "bool \<Rightarrow> nat \<Rightarrow> u8" where
  "digit_ascii upper d =
     (if d < 10 then of_nat (48 + d) else of_nat ((if upper then 55 else 87) + d))"

definition ascii_digit :: "u8 \<Rightarrow> nat" where
  "ascii_digit c = (if c < 58 then unat c - 48 else if c < 97 then unat c - 55 else unat c - 87)"

lemma ascii_digit_ascii: "d < 16 \<Longrightarrow> ascii_digit (digit_ascii upper d) = d"
  by (drule less_16_cases, elim insertE emptyE)
     (simp_all add: ascii_digit_def digit_ascii_def)

lemma digits_value_digits: "0 < b \<Longrightarrow> digits_value b (digits k b n) = n mod b ^ k"
proof (induction k arbitrary: n)
  case (Suc k)
  have "digits_value b (if n div b = 0 then [] else digits k b (n div b)) = n div b mod b ^ k"
    using Suc by simp
  then show ?case by (simp add: mod_mult2_eq)
qed simp

lemma digits_less: "0 < b \<Longrightarrow> d \<in> set (digits k b n) \<Longrightarrow> d < b"
  by (induction k arbitrary: n) (auto split: if_splits)

lemma length_digits: "length (digits k b n) \<le> k"
  by (induction k arbitrary: n) auto

lemma length_digits_bound: "n < b ^ j \<Longrightarrow> 0 < j \<Longrightarrow> 1 < b \<Longrightarrow> length (digits k b n) \<le> j"
proof (induction k arbitrary: n j)
  case (Suc k)
  show ?case
  proof (cases "n div b = 0")
    case False
    with Suc.prems obtain i where j: "j = Suc i" "0 < i"
      by (cases j; cases "j - 1") auto
    have "n div b < b ^ i" using Suc.prems(1,3) j(1)
      by (simp add: div_less_iff_less_mult mult.commute)
    from Suc.IH [OF this j(2) Suc.prems(3)] j(1) False show ?thesis by simp
  qed (use Suc.prems in simp)
qed simp

lemma radix_digits_eq: "1 < b \<Longrightarrow> n < b ^ k \<Longrightarrow> 0 < k \<Longrightarrow> radix_digits b n = rev (digits k b n)"
proof (induction k arbitrary: n)
  case (Suc k)
  show ?case
  proof (cases "n < b")
    case True
    with Suc.prems show ?thesis by (simp add: radix_digits.simps [of b n])
  next
    case False
    then have "n div b \<noteq> 0" using Suc.prems(1) by (simp add: div_eq_0_iff)
    moreover have "n div b < b ^ k" using Suc.prems(1,2)
      by (simp add: div_less_iff_less_mult mult.commute)
    moreover have "0 < k" using False Suc.prems(2) by (cases k) auto
    ultimately show ?thesis using Suc False by (simp add: radix_digits.simps [of b n])
  qed
qed simp

lemma digit_char_eq:
  assumes "d < 16"
  shows "digit_char flags (of_nat d) = digit_ascii (flag flags FLAGS_UPPERCASE) d"
  using less_16_cases [OF assms]
  by (elim insertE emptyE) (simp_all add: digit_char_def digit_ascii_def)

lemma unat_ucast_mod: "unat (ucast (v mod ucast base) :: u8) = unat v mod unat base" 
  if "base \<noteq> 0" for v :: u64 and base :: u8
proof -
  have b: "unat (ucast base :: u64) = unat base" by (rule unat_ucast_up) simp
  have "unat base < 256" using unat_less [of base] by simp
  moreover have "0 < unat base" using that by (simp add: unat_gt_0)
  ultimately have "unat v mod unat base < 256" by (meson mod_less_divisor order_less_trans)
  moreover have "unat (v mod ucast base) = unat v mod unat base" by (simp only: unat_mod b)
  ultimately show ?thesis by (simp only: unsigned_ucast_eq take_bit_eq_mod) simp
qed

lemma digit_loop_eq:
  assumes "2 \<le> unat base" "unat base \<le> 16" "length buf < 32"
  shows "digit_loop flags base v buf = Some (buf @
    map (digit_ascii (flag flags FLAGS_UPPERCASE)) (digits (32 - length buf) (unat base) (unat v)))"
  using assms
proof (induction flags base v buf rule: digit_loop.induct)
  case (1 flags base v buf)
  have base: "base \<noteq> 0" "unat (ucast base :: u64) = unat base"
    using 1(2) by (auto simp: unat_ucast_up)
  let ?d = "unat v mod unat base" and ?v = "v div ucast base"
  have d: "ucast (v mod ucast base) = (of_nat ?d :: u8)"
    by (simp only: unat_ucast_mod [OF base(1), of v, symmetric] of_nat_unat) simp
  have v: "unat ?v = unat v div unat base" by (simp add: unat_div base(2))
  have "?d < 16" using 1(2,3) mod_less_divisor [of "unat base" "unat v"] by linarith
  then have c: "digit_char flags (of_nat ?d) = digit_ascii (flag flags FLAGS_UPPERCASE) ?d"
    by (rule digit_char_eq)
  have len: "length (buf @ [x]) < 32 \<longleftrightarrow> 32 - length buf - 1 \<noteq> 0" for x :: u8
    using 1(4) by auto
  obtain k where k: "32 - length buf = Suc k" using 1(4) by (cases "32 - length buf") auto
  have nz: "?v \<noteq> 0 \<longleftrightarrow> unat v div unat base \<noteq> 0"
    using v by (metis unsigned_0 unat_eq_zero)
  have push: "push buf x = Some (buf @ [x])" for x using 1(4) by (simp add: push_Some)
  show ?case
  proof (cases "?v \<noteq> 0 \<and> k \<noteq> 0")
    case True
    then have "0 < k" by simp
    with k have "length buf < 31" "31 - length buf = k" by linarith+
    moreover from this have "length (buf @ [x]) < 32" for x :: u8 by simp
    ultimately show ?thesis
      using 1(1) [OF refl push refl] True 1(2,3) nz k v d c
      by (subst digit_loop.simps) (simp add: push Let_def PRINTF_INTEGER_BUFFER_SIZE_def)
  next
    case False
    then have "k = 0 \<or> unat v div unat base = 0" using nz by blast
    then show ?thesis
      using k d c nz
      by (subst digit_loop.simps) (auto simp: push Let_def PRINTF_INTEGER_BUFFER_SIZE_def)
  qed
qed

section \<open>What \<open>print_integer\<close> prints\<close>

definition number_buffer :: "u64 \<Rightarrow> u8 \<Rightarrow> u32 \<Rightarrow> u8 list" where
  "number_buffer v base flags =
     (if v = 0 then if flag flags FLAGS_PRECISION then [] else [0x30]
      else map (digit_ascii (flag flags FLAGS_UPPERCASE)) (digits 32 (unat base) (unat v)))"

definition number_flags :: "u64 \<Rightarrow> u8 \<Rightarrow> u32 \<Rightarrow> u32" where
  "number_flags v base flags =
     (if v = 0 \<and> (\<not> flag flags FLAGS_PRECISION \<or> base = BASE_HEX)
      then flags AND NOT FLAGS_HASH else flags)"

definition integer_text :: "u64 \<Rightarrow> bool \<Rightarrow> u8 \<Rightarrow> u32 \<Rightarrow> u32 \<Rightarrow> u32 \<Rightarrow> u8 list" where
  "integer_text v negative base precision width flags =
     (let fl = number_flags v base flags; w = final_width negative width fl
      in rev_text (final_buffer (number_buffer v base flags) negative base precision w fl) w fl)"

lemma length_number_buffer: "length (number_buffer v base flags) \<le> 32"
  using length_digits [of 32] by (simp add: number_buffer_def)

lemma print_integer_eq:
  assumes "2 \<le> unat base" "unat base \<le> 16"
  shows "print_integer g v negative base precision width flags =
    put_all (integer_text v negative base precision width flags) g"
proof -
  have "(if v = 0 then
          if \<not> flag flags FLAGS_PRECISION then do {
            buf \<leftarrow> push [] 0x30; Some (buf, flags AND NOT FLAGS_HASH) }
          else if base = BASE_HEX then Some ([], flags AND NOT FLAGS_HASH)
          else Some ([], flags)
        else do { buf \<leftarrow> digit_loop flags base v []; Some (buf, flags) }) =
      Some (number_buffer v base flags, number_flags v base flags)"
    using digit_loop_eq [OF assms, of "[]" flags v]
    by (simp add: number_buffer_def number_flags_def push_Some [THEN iffD2])
  then show ?thesis
    unfolding print_integer_def
    by (simp only: bind.bind_lunit case_prod_conv print_integer_finalization_eq [OF length_number_buffer]
        integer_text_def Let_def)
qed

lemma number_flags_other:
  "flag (number_flags v base flags) FLAGS_LEFT = flag flags FLAGS_LEFT"
  "flag (number_flags v base flags) FLAGS_ZEROPAD = flag flags FLAGS_ZEROPAD"
  by (simp_all add: number_flags_def flag_clear_other)

text \<open>
  Without \<open>-\<close>, \<open>+\<close>, \<open>#\<close>, blank and precision: the sign and all digits behind a padding.
\<close>

lemma flag_subset: "f AND m = 0 \<Longrightarrow> b AND m = b \<Longrightarrow> \<not> flag f b"
proof -
  assume m: "f AND m = 0" and b: "b AND m = b"
  have "f AND b = (f AND m) AND b" by (subst b [symmetric]) (simp add: and.assoc and.commute and.left_commute)
  with m show "\<not> flag f b" by (simp add: flag_def)
qed

lemma no_flags:
  assumes "flags AND 0x281E = 0"
  shows "\<not> flag flags FLAGS_LEFT" "\<not> flag flags FLAGS_PLUS" "\<not> flag flags FLAGS_SPACE"
    "\<not> flag flags FLAGS_HASH" "\<not> flag flags FLAGS_PRECISION" "\<not> flag flags FLAGS_POINTER"
    "\<not> flag flags (FLAGS_PLUS OR FLAGS_SPACE)" "\<not> flag flags (FLAGS_HASH OR FLAGS_POINTER)"
  by (rule flag_subset [OF assms], simp add: c_consts)+

lemma integer_text_padded:
  assumes "8 \<le> unat base" "unat base \<le> 16" "flags AND 0x281E = 0"
    and "\<not> negative \<or> \<not> flag flags FLAGS_ZEROPAD"
  shows "integer_text v negative base 0 width flags =
    (let ds = (if negative then [0x2D] else []) @
         map (digit_ascii (flag flags FLAGS_UPPERCASE)) (radix_digits (unat base) (unat v))
     in if flag flags FLAGS_ZEROPAD then replicate (min (unat width) 32 - length ds) 0x30 @ ds
        else replicate (unat width - length ds) 0x20 @ ds)"
proof -
  have b: "unat v < unat base ^ 22" 
  proof -
    have "unat v < 2 ^ 64" using unat_less [of v] by simp
    also have "\<dots> \<le> 8 ^ 22" by simp
    also have "\<dots> \<le> unat base ^ 22" using assms(1) by (rule power_mono) simp
    finally show ?thesis .
  qed
  have len: "length (digits 32 (unat base) (unat v)) \<le> 22"
    by (rule length_digits_bound [OF b]) (use assms in simp_all)
  have "unat base ^ 22 \<le> unat base ^ 32" using assms(1) by (intro power_increasing) simp_all
  with b have "unat v < unat base ^ 32" by linarith
  then have radix: "radix_digits (unat base) (unat v) = rev (digits 32 (unat base) (unat v))"
    by (intro radix_digits_eq) (use assms in simp_all)
  note no = no_flags [OF assms(3)]
  have buf: "number_buffer v base flags =
      map (digit_ascii (flag flags FLAGS_UPPERCASE)) (digits 32 (unat base) (unat v))"
    using assms(1) no by (simp add: number_buffer_def digit_ascii_def numeral_eq_Suc)
  obtain fl where fl: "number_flags v base flags = fl" "fl AND 0x281E = 0"
      "flag fl FLAGS_ZEROPAD = flag flags FLAGS_ZEROPAD"
  proof
    show "(number_flags v base flags) AND 0x281E = 0"
      using assms(3) by (simp add: number_flags_def and.assoc and.left_commute [of _ "NOT FLAGS_HASH"])
    show "flag (number_flags v base flags) FLAGS_ZEROPAD = flag flags FLAGS_ZEROPAD"
      by (rule number_flags_other)
  qed simp
  note no_fl = no_flags [OF fl(2)]
  have clear: "(fl AND NOT FLAGS_HASH) AND 0x281E = 0"
    using fl(2) by (simp add: and.assoc and.left_commute [of _ "NOT FLAGS_HASH"])
  note no_cl = no_flags [OF clear]
  show ?thesis
    using len assms(4) no_fl no_cl
    by (auto simp: integer_text_def fl(1,3) buf final_width_def rev_text_def final_buffer_def Let_def
        zero_padded_def signed_text_def try_push_def radix rev_map)
qed

lemma integer_text_plain:
  assumes "8 \<le> unat base" "unat base \<le> 16"
  shows "integer_text v negative base 0 0 0 =
    (if negative then [0x2D] else []) @ map (digit_ascii False) (radix_digits (unat base) (unat v))"
  using integer_text_padded [OF assms, of 0 negative v 0] by (simp add: flag_def)

section \<open>Properties of integer conversion\<close>

definition parse_digits :: "nat \<Rightarrow> u8 list \<Rightarrow> nat" where
  "parse_digits b cs = foldl (\<lambda>n c. n * b + ascii_digit c) 0 cs"

lemma parse_rev_digits:
  assumes "\<And>d. d \<in> set ds \<Longrightarrow> d < 16"
  shows "parse_digits b (rev (map (digit_ascii upper) ds)) = digits_value b ds"
  using assms unfolding parse_digits_def
  by (induction ds) (simp_all add: ascii_digit_ascii)

lemma parse_number:
  assumes "2 \<le> unat base" "unat base \<le> 16" "v \<noteq> 0"
  shows "parse_digits (unat base) (rev (number_buffer v base flags)) = unat v mod unat base ^ 32"
proof -
  have "parse_digits (unat base) (rev (number_buffer v base flags)) =
      digits_value (unat base) (digits 32 (unat base) (unat v))"
    using assms digits_less [of "unat base" _ 32 "unat v"]
    by (simp add: number_buffer_def) (fastforce intro: parse_rev_digits)
  with assms(1) show ?thesis by (simp add: digits_value_digits)
qed

lemma length_rev_text:
  "length (rev_text buf width flags) =
    (if flag flags FLAGS_LEFT \<or> \<not> flag flags FLAGS_ZEROPAD
     then max (unat width) (length buf) else length buf)"
  by (auto simp: rev_text_def max_def)

text \<open>Without flags, width and precision \<open>print_integer\<close> writes the sign and exactly
  the digits of the value in octal, decimal or hexadecimal, most significant first.\<close>

lemma print_integer_decimal:
  assumes "base = BASE_OCTAL \<or> base = BASE_DECIMAL \<or> base = BASE_HEX"
  shows "print_integer g v negative base 0 0 0 =
    put_all ((if negative then [0x2D] else []) @
      map (digit_ascii False) (radix_digits (unat base) (unat v))) g"
proof -
  have "8 \<le> unat base" "unat base \<le> 16" using assms by (auto simp: c_consts)
  then show ?thesis by (simp add: print_integer_eq integer_text_plain)
qed

lemma print_integer_decimal_example:
  "put_all [0x2D, 0x34, 0x32] function_gadget = print_integer function_gadget 42 True BASE_DECIMAL 0 0 0"
proof -
  have "radix_digits 10 42 = [4, 2]" by (simp add: radix_digits.simps)
  then show ?thesis
    using print_integer_decimal [of BASE_DECIMAL function_gadget 42 True]
    by (simp add: c_consts digit_ascii_def)
qed

text \<open>C20. The digits \<open>print_integer\<close> writes denote the value again, in every base from 2 to 16,
  as long as 32 digits are enough: of a longer binary number it writes the low 32 digits only.\<close>

theorem print_integer_roundtrip:
  assumes "2 \<le> unat base" "unat base \<le> 16" "v \<noteq> 0"
    and "flags = 0 \<or> flags = FLAGS_UPPERCASE"
  shows "\<exists>txt. (\<forall>g. print_integer g v False base 0 0 flags = put_all txt g) \<and>
    parse_digits (unat base) txt = unat v mod unat base ^ 32"
proof -
  have "integer_text v False base 0 0 flags = rev (number_buffer v base flags)"
    using assms(3,4) by (auto simp: integer_text_def number_flags_def final_width_def flag_def c_consts
        rev_text_def final_buffer_def Let_def zero_padded_def signed_text_def)
  then show ?thesis
    using parse_number [OF assms(1-3), of flags] print_integer_eq [OF assms(1,2)] by metis
qed

theorem print_integer_roundtrip_witness:
  "\<exists>txt. (\<forall>g. print_integer g 0x100000003 False BASE_BINARY 0 0 0 = put_all txt g) \<and>
    parse_digits 2 txt = 3"
  using print_integer_roundtrip [of BASE_BINARY "0x100000003" 0] by (simp add: c_consts)

text \<open>C19. No value, precision, width or flag overflows the buffer of \<open>print_integer\<close>: it writes
  at least \<open>width\<close> characters and at most that many or 32, except that zero padding stops
  at the 32 characters of the buffer.\<close>

theorem print_integer_length:
  assumes "2 \<le> unat base" "unat base \<le> 16"
  shows "\<exists>txt. (\<forall>g. print_integer g v negative base precision width flags = put_all txt g) \<and>
    length txt \<le> max (unat width) 32 \<and>
    (if flag flags FLAGS_LEFT \<or> \<not> flag flags FLAGS_ZEROPAD
     then unat width \<le> length txt else length txt \<le> 32)"
proof -
  let ?fl = "number_flags v base flags"
  let ?w = "final_width negative width ?fl"
  have "length (final_buffer (number_buffer v base flags) negative base precision ?w ?fl) \<le> 32"
    by (rule length_final_buffer [OF length_number_buffer])
  moreover have "?w = width" if "flag flags FLAGS_LEFT \<or> \<not> flag flags FLAGS_ZEROPAD"
    using that by (auto simp: final_width_def number_flags_other)
  moreover have "print_integer g v negative base precision width flags =
      put_all (integer_text v negative base precision width flags) g" for g
    by (rule print_integer_eq [OF assms])
  ultimately show ?thesis
    by (intro exI [of _ "integer_text v negative base precision width flags"])
       (auto simp: integer_text_def Let_def length_rev_text number_flags_other)
qed

theorem print_integer_length_witness:
  "\<exists>txt. (\<forall>g. print_integer g 255 False BASE_DECIMAL 0 40 FLAGS_ZEROPAD = put_all txt g) \<and>
    length txt \<le> 32"
  using print_integer_length [of BASE_DECIMAL 255 False 0 40 FLAGS_ZEROPAD]
  by (fastforce simp: c_consts flag_def)

end
