(* ===== verification/Ieee.thy ===== *)
theory Ieee
  imports C_Prelude Complex_Main
begin

text \<open>
  Binary floating point as the C types \<open>float\<close> and \<open>double\<close> have it: IEEE 754 numbers with
  rounding to the nearest, ties to even.  A finite number is a sign, an integer mantissa and an
  exponent, so that all operations compute on integers; \<open>fp_real\<close> is its value as a real number,
  \<open>fp_bits\<close> its representation in memory.
\<close>

section \<open>Numbers\<close>

datatype fp_type = Float | Double

fun MANT_DIG :: "fp_type \<Rightarrow> int" where
  "MANT_DIG Float = 24" | "MANT_DIG Double = 53"

fun BASE_EXPONENT :: "fp_type \<Rightarrow> int" where
  "BASE_EXPONENT Float = 127" | "BASE_EXPONENT Double = 1023"

text \<open>The least and the greatest exponent of the last bit of a mantissa.\<close>

definition emin :: "fp_type \<Rightarrow> int" where
  "emin t = 2 - BASE_EXPONENT t - MANT_DIG t"

definition emax :: "fp_type \<Rightarrow> int" where
  "emax t = BASE_EXPONENT t + 1 - MANT_DIG t"

text \<open>Powers of two and the number of binary digits.\<close>

function pow2 :: "int \<Rightarrow> int" where
  "pow2 n = (if n \<le> 0 then 1 else 2 * pow2 (n - 1))"
  by pat_completeness auto
termination by (relation "measure nat") auto

function bit_length :: "int \<Rightarrow> int" where
  "bit_length n = (if n \<le> 0 then 0 else 1 + bit_length (n div 2))"
  by pat_completeness auto
termination by (relation "measure nat") auto

declare pow2.simps [simp del] bit_length.simps [simp del]

datatype fp = Fin bool int int | Inf bool | NaN

text \<open>A finite number is normal or has the least exponent.\<close>

fun canonical :: "fp_type \<Rightarrow> fp \<Rightarrow> bool" where
  "canonical t (Fin s m e) \<longleftrightarrow> 0 \<le> m \<and> m < pow2 (MANT_DIG t) \<and> emin t \<le> e \<and> e \<le> emax t \<and>
     (e = emin t \<or> pow2 (MANT_DIG t - 1) \<le> m)"
| "canonical t _ \<longleftrightarrow> True"

fun fp_real :: "fp \<Rightarrow> real" where
  "fp_real (Fin s m e) = (if s then - 1 else 1) * real_of_int m * 2 powi e"
| "fp_real _ = 0"

fun finite_fp :: "fp \<Rightarrow> bool" where
  "finite_fp (Fin _ _ _) = True" | "finite_fp _ = False"

section \<open>Rounding\<close>

text \<open>The integer nearest to \<open>n / d\<close>, the even one of two.\<close>

definition round_even :: "int \<Rightarrow> int \<Rightarrow> int" where
  "round_even n d = (let q = n div d; r = n mod d in
     if d < 2 * r \<or> d = 2 * r \<and> odd q then q + 1 else q)"

text \<open>The number nearest to \<open>n / d\<close>, with a sign.\<close>

definition round_fp :: "fp_type \<Rightarrow> bool \<Rightarrow> int \<Rightarrow> int \<Rightarrow> fp" where
  "round_fp t s n d =
     (if n = 0 then Fin s 0 (emin t)
      else let p = MANT_DIG t;
        e = max (emin t) (bit_length n - bit_length d - p);
        e = (if d * pow2 e * pow2 p \<le> n * pow2 (- e) then e + 1 else e);
        q = round_even (n * pow2 (- e)) (d * pow2 e);
        (q, e) = (if q = pow2 p then (pow2 (p - 1), e + 1) else (q, e))
      in if emax t < e then Inf s else Fin s q e)"

section \<open>Operations\<close>

fun fp_neg :: "fp \<Rightarrow> fp" where
  "fp_neg (Fin s m e) = Fin (\<not> s) m e" | "fp_neg (Inf s) = Inf (\<not> s)" | "fp_neg NaN = NaN"

text \<open>A finite number as an integer multiple of a smaller power of two.\<close>

definition scaled :: "bool \<Rightarrow> int \<Rightarrow> int \<Rightarrow> int \<Rightarrow> int" where
  "scaled s m e' e = (if s then - m else m) * pow2 (e' - e)"

fun fp_add :: "fp_type \<Rightarrow> fp \<Rightarrow> fp \<Rightarrow> fp" where
  "fp_add t (Fin s m e) (Fin s' m' e') =
     (let l = min e e'; i = scaled s m e l + scaled s' m' e' l in
      if i = 0 then Fin (s \<and> s') 0 (emin t) else round_fp t (i < 0) (\<bar>i\<bar> * pow2 l) (pow2 (- l)))"
| "fp_add t (Inf s) (Inf s') = (if s = s' then Inf s else NaN)"
| "fp_add t (Inf s) (Fin _ _ _) = Inf s"
| "fp_add t (Fin _ _ _) (Inf s) = Inf s"
| "fp_add t _ _ = NaN"

definition fp_sub :: "fp_type \<Rightarrow> fp \<Rightarrow> fp \<Rightarrow> fp" where
  "fp_sub t x y = fp_add t x (fp_neg y)"

fun fp_mul :: "fp_type \<Rightarrow> fp \<Rightarrow> fp \<Rightarrow> fp" where
  "fp_mul t (Fin s m e) (Fin s' m' e') =
     round_fp t (s \<noteq> s') (m * m' * pow2 (e + e')) (pow2 (- (e + e')))"
| "fp_mul t (Inf s) (Inf s') = Inf (s \<noteq> s')"
| "fp_mul t (Inf s) (Fin s' m _) = (if m = 0 then NaN else Inf (s \<noteq> s'))"
| "fp_mul t (Fin s m _) (Inf s') = (if m = 0 then NaN else Inf (s \<noteq> s'))"
| "fp_mul t _ _ = NaN"

fun fp_div :: "fp_type \<Rightarrow> fp \<Rightarrow> fp \<Rightarrow> fp" where
  "fp_div t (Fin s m e) (Fin s' m' e') =
     (if m' = 0 then (if m = 0 then NaN else Inf (s \<noteq> s'))
      else round_fp t (s \<noteq> s') (m * pow2 (e - e')) (m' * pow2 (e' - e)))"
| "fp_div t (Inf s) (Fin s' _ _) = Inf (s \<noteq> s')"
| "fp_div t (Fin s _ _) (Inf s') = Fin (s \<noteq> s') 0 (emin t)"
| "fp_div t _ _ = NaN"

text \<open>Comparisons are false when an operand is not a number.\<close>

fun fp_less :: "fp \<Rightarrow> fp \<Rightarrow> bool" where
  "fp_less (Fin s m e) (Fin s' m' e') \<longleftrightarrow> scaled s m e (min e e') < scaled s' m' e' (min e e')"
| "fp_less (Inf s) (Inf s') \<longleftrightarrow> s \<and> \<not> s'"
| "fp_less (Inf s) (Fin _ _ _) \<longleftrightarrow> s"
| "fp_less (Fin _ _ _) (Inf s) \<longleftrightarrow> \<not> s"
| "fp_less _ _ \<longleftrightarrow> False"

fun fp_eq :: "fp \<Rightarrow> fp \<Rightarrow> bool" where
  "fp_eq (Fin s m e) (Fin s' m' e') \<longleftrightarrow> scaled s m e (min e e') = scaled s' m' e' (min e e')"
| "fp_eq (Inf s) (Inf s') \<longleftrightarrow> s = s'"
| "fp_eq _ _ \<longleftrightarrow> False"

definition fp_le :: "fp \<Rightarrow> fp \<Rightarrow> bool" where
  "fp_le x y \<longleftrightarrow> fp_less x y \<or> fp_eq x y"

definition fp_of_int :: "fp_type \<Rightarrow> int \<Rightarrow> fp" where
  "fp_of_int t i = round_fp t (i < 0) \<bar>i\<bar> 1"

text \<open>The conversion to a signed integer of \<open>w\<close> bits cuts the fraction off; it is undefined out of range.\<close>

fun fp_trunc :: "int \<Rightarrow> fp \<Rightarrow> int option" where
  "fp_trunc w (Fin s m e) =
     (let n = m * pow2 e div pow2 (- e); i = (if s then - n else n) in
      if - pow2 (w - 1) \<le> i \<and> i < pow2 (w - 1) then Some i else None)"
| "fp_trunc w _ = None"

text \<open>
  The object representation: sign, biased exponent and stored mantissa bits from the highest bit
  down, as an unsigned integer of the size of the type.
\<close>

definition SIZE_IN_BITS :: "fp_type \<Rightarrow> int" where
  "SIZE_IN_BITS t = (case t of Float \<Rightarrow> 32 | Double \<Rightarrow> 64)"

definition fp_pack :: "fp_type \<Rightarrow> bool \<Rightarrow> int \<Rightarrow> int \<Rightarrow> int" where
  "fp_pack t s e m = (if s then pow2 (SIZE_IN_BITS t - 1) else 0) + e * pow2 (MANT_DIG t - 1) + m"

definition max_biased :: "fp_type \<Rightarrow> int" where
  "max_biased t = 2 * BASE_EXPONENT t + 1"

fun fp_bits :: "fp_type \<Rightarrow> fp \<Rightarrow> int" where
  "fp_bits t (Fin s m e) =
     (let h = pow2 (MANT_DIG t - 1) in
      if m < h then fp_pack t s 0 m else fp_pack t s (e - emin t + 1) (m - h))"
| "fp_bits t (Inf s) = fp_pack t s (max_biased t) 0"
| "fp_bits t NaN = fp_pack t False (max_biased t) (pow2 (MANT_DIG t - 2))"

definition fp_of_bits :: "fp_type \<Rightarrow> int \<Rightarrow> fp" where
  "fp_of_bits t u =
     (let h = pow2 (MANT_DIG t - 1); m = u mod h; e = u div h mod (max_biased t + 1);
          s = odd (u div pow2 (SIZE_IN_BITS t - 1)) in
      if e = max_biased t then (if m = 0 then Inf s else NaN)
      else if e = 0 then Fin s m (emin t) else Fin s (m + h) (e - 1 + emin t))"

section \<open>Powers of two\<close>

lemma pow2_eq: "pow2 n = 2 ^ nat n"
proof (induction n rule: pow2.induct)
  case (1 n)
  then show ?case
    by (cases "n \<le> 0") (simp_all add: pow2.simps [of n] nat_diff_distrib power_Suc [symmetric] del: power_Suc)
qed

lemma pow2_pos [simp]: "0 < pow2 n" "pow2 n \<noteq> 0" "0 \<le> pow2 n" "1 \<le> pow2 n"
  by (simp_all add: pow2_eq)

lemma pow2_nonpos [simp]: "n \<le> 0 \<Longrightarrow> pow2 n = 1"
  by (simp add: pow2_eq)

lemma pow2_mono: "a \<le> b \<Longrightarrow> pow2 a \<le> pow2 b"
  by (simp add: pow2_eq nat_mono)

lemma pow2_less: "a < b \<Longrightarrow> 0 < b \<Longrightarrow> pow2 a < pow2 b"
  by (simp add: pow2_eq)

lemma pow2_real: "0 \<le> n \<Longrightarrow> real_of_int (pow2 n) = 2 powi n"
  by (simp add: pow2_eq power_int_def)

lemma pow2_quotient: "real_of_int (pow2 n) / real_of_int (pow2 (- n)) = 2 powi n"
  by (cases "0 \<le> n") (simp_all add: pow2_eq power_int_def inverse_eq_divide power_one_over)

lemma powi_mono: "a \<le> b \<Longrightarrow> (2 :: real) powi a \<le> 2 powi b"
  by (rule power_int_increasing) simp_all

lemma powi_sign [simp]: "\<not> (2 :: real) powi e < 0" "\<not> (2 :: real) powi e \<le> 0"
  by (simp_all add: not_less not_le)

lemma bit_length_bounds: "0 < n \<Longrightarrow> pow2 (bit_length n - 1) \<le> n \<and> n < pow2 (bit_length n) \<and> 0 < bit_length n"
proof (induction n rule: bit_length.induct)
  case (1 n)
  have b: "bit_length n = 1 + bit_length (n div 2)" using 1(2) by (subst bit_length.simps) simp
  show ?case
  proof (cases "n div 2 = 0")
    case True
    then have "n = 1" using 1(2) by simp
    then show ?thesis by (simp add: bit_length.simps pow2.simps)
  next
    case False
    with 1 have ih: "pow2 (bit_length (n div 2) - 1) \<le> n div 2" "n div 2 < pow2 (bit_length (n div 2))"
        "0 < bit_length (n div 2)" by simp_all
    have "pow2 (bit_length (n div 2)) = 2 * pow2 (bit_length (n div 2) - 1)"
        "pow2 (1 + bit_length (n div 2)) = 2 * pow2 (bit_length (n div 2))"
      using ih(3) by (simp_all add: pow2.simps [of "bit_length _"] pow2.simps [of "1 + bit_length _"])
    with ih show ?thesis by (simp add: b) linarith
  qed
qed

section \<open>Correctness of rounding\<close>

lemma round_even_exact: "0 < d \<Longrightarrow> round_even (q * d) d = q"
  by (simp add: round_even_def)

lemma round_even_error:
  assumes "0 < d"
  shows "2 * \<bar>n - round_even n d * d\<bar> \<le> d" "2 * \<bar>n - round_even n d * d\<bar> = d \<Longrightarrow> even (round_even n d)"
proof -
  define q r where "q = n div d" and "r = n mod d"
  have r: "0 \<le> r" "r < d" using assms by (simp_all add: r_def)
  have e: "round_even n d = (if d < 2 * r \<or> d = 2 * r \<and> odd q then q + 1 else q)"
    by (simp add: round_even_def q_def r_def Let_def)
  have n: "n - q * d = r" by (simp add: q_def r_def minus_div_mult_eq_mod)
  have n': "n - (q + 1) * d = r - d" unfolding n [symmetric] by (simp add: algebra_simps)
  have "\<bar>n - round_even n d * d\<bar> = (if d < 2 * r \<or> d = 2 * r \<and> odd q then d - r else r)"
    using r unfolding e by (simp only: n n' split: if_split) (simp split: if_split)
  then show "2 * \<bar>n - round_even n d * d\<bar> \<le> d" "2 * \<bar>n - round_even n d * d\<bar> = d \<Longrightarrow> even (round_even n d)"
    using r by (auto simp: e split: if_splits)
qed

lemma round_even_le:
  assumes "0 < d" "n \<le> q * d"
  shows "round_even n d \<le> q"
proof (rule ccontr)
  assume "\<not> round_even n d \<le> q"
  then have "(q + 1) * d \<le> round_even n d * d" using assms(1) by (intro mult_right_mono) simp_all
  with round_even_error(1) [OF assms(1), of n] assms show False by (simp add: algebra_simps)
qed

lemma round_even_ge:
  assumes "0 < d" "q * d \<le> n"
  shows "q \<le> round_even n d"
proof (rule ccontr)
  assume "\<not> q \<le> round_even n d"
  then have "(round_even n d + 1) * d \<le> q * d" using assms(1) by (intro mult_right_mono) simp_all
  with round_even_error(1) [OF assms(1), of n] assms show False by (simp add: algebra_simps)
qed

lemma real_scale:
  assumes "0 < d"
  shows "real_of_int (n * pow2 (- e)) / real_of_int (d * pow2 e) = real_of_int n / real_of_int d / 2 powi e"
  using assms by (simp add: pow2_quotient [symmetric] field_simps)

lemma le_scale:
  assumes "0 < d"
  shows "k * (d * pow2 e) \<le> n * pow2 (- e) \<longleftrightarrow> real_of_int k * 2 powi e \<le> real_of_int n / real_of_int d"
    "n * pow2 (- e) \<le> k * (d * pow2 e) \<longleftrightarrow> real_of_int n / real_of_int d \<le> real_of_int k * 2 powi e"
proof -
  have d: "0 < real_of_int (d * pow2 e)" using assms by (simp add: zero_less_mult_iff)
  have "real_of_int k * 2 powi e \<le> real_of_int n / real_of_int d \<longleftrightarrow>
      real_of_int k \<le> real_of_int (n * pow2 (- e)) / real_of_int (d * pow2 e)"
    unfolding real_scale [OF assms] by (rule pos_le_divide_eq [symmetric]) simp
  also have "\<dots> \<longleftrightarrow> real_of_int (k * (d * pow2 e)) \<le> real_of_int (n * pow2 (- e))"
    unfolding pos_le_divide_eq [OF d] by simp
  finally show "k * (d * pow2 e) \<le> n * pow2 (- e) \<longleftrightarrow> real_of_int k * 2 powi e \<le> real_of_int n / real_of_int d"
    by (simp only: of_int_le_iff)
  have "real_of_int n / real_of_int d \<le> real_of_int k * 2 powi e \<longleftrightarrow>
      real_of_int (n * pow2 (- e)) / real_of_int (d * pow2 e) \<le> real_of_int k"
    unfolding real_scale [OF assms] by (rule pos_divide_le_eq [symmetric]) simp
  also have "\<dots> \<longleftrightarrow> real_of_int (n * pow2 (- e)) \<le> real_of_int (k * (d * pow2 e))"
    unfolding pos_divide_le_eq [OF d] by simp
  finally show "n * pow2 (- e) \<le> k * (d * pow2 e) \<longleftrightarrow> real_of_int n / real_of_int d \<le> real_of_int k * 2 powi e"
    by (simp only: of_int_le_iff)
qed

text \<open>The exponent \<open>round_fp\<close> chooses.\<close>

definition fp_exponent :: "fp_type \<Rightarrow> int \<Rightarrow> int \<Rightarrow> int" where
  "fp_exponent t n d = (let p = MANT_DIG t;
     e = max (emin t) (bit_length n - bit_length d - p)
   in if d * pow2 e * pow2 p \<le> n * pow2 (- e) then e + 1 else e)"

lemma quotient_bounds:
  assumes "0 < n" "0 < d"
  shows "2 powi (bit_length n - bit_length d - 1) \<le> real_of_int n / real_of_int d"
    "real_of_int n / real_of_int d < 2 powi (bit_length n - bit_length d + 1)"
proof -
  note n = bit_length_bounds [OF assms(1)]
  note d = bit_length_bounds [OF assms(2)]
  have rn: "2 powi (bit_length n - 1) \<le> real_of_int n" "real_of_int n < 2 powi (bit_length n)"
    and rd: "2 powi (bit_length d - 1) \<le> real_of_int d" "real_of_int d < 2 powi (bit_length d)"
    using n d by (simp_all add: pow2_real [symmetric])
  have "2 powi (bit_length n - bit_length d - 1) = 2 powi (bit_length n - 1) / (2 :: real) powi (bit_length d)"
    by (simp add: power_int_diff)
  also have "\<dots> \<le> real_of_int n / real_of_int d"
    using rn(1) rd(2) assms by (intro frac_le) simp_all
  finally show "2 powi (bit_length n - bit_length d - 1) \<le> real_of_int n / real_of_int d" .
  have "real_of_int n / real_of_int d < 2 powi (bit_length n) / 2 powi (bit_length d - 1)"
    using rn(2) rd(1) assms by (intro frac_less) simp_all
  also have "\<dots> = 2 powi (bit_length n - bit_length d + 1)"
    by (simp add: power_int_diff power_int_add)
  finally show "real_of_int n / real_of_int d < 2 powi (bit_length n - bit_length d + 1)" .
qed

lemma MANT_DIG_pos: "1 < MANT_DIG t" "emin t < emax t"
  by (cases t; simp add: emin_def emax_def)+

lemma fp_exponent_bounds:
  assumes "0 < n" "0 < d"
  shows "emin t \<le> fp_exponent t n d" "real_of_int n / real_of_int d < 2 powi (fp_exponent t n d + MANT_DIG t)"
    "fp_exponent t n d = emin t \<or> 2 powi (fp_exponent t n d + MANT_DIG t - 1) \<le> real_of_int n / real_of_int d"
proof -
  define e0 where "e0 = bit_length n - bit_length d - MANT_DIG t"
  define e where "e = max (emin t) e0"
  have "real_of_int n / real_of_int d < 2 powi (e0 + MANT_DIG t + 1)" "2 powi (e0 + MANT_DIG t - 1) \<le> real_of_int n / real_of_int d"
    using quotient_bounds [OF assms] by (simp_all add: e0_def)
  moreover have "(2 :: real) powi (e0 + MANT_DIG t + 1) \<le> 2 powi (e + MANT_DIG t + 1)"
    by (rule powi_mono) (simp add: e_def)
  ultimately have b: "real_of_int n / real_of_int d < 2 powi (e + MANT_DIG t + 1)"
      "e = e0 \<Longrightarrow> 2 powi (e + MANT_DIG t - 1) \<le> real_of_int n / real_of_int d" by auto
  have "d * pow2 e * pow2 (MANT_DIG t) \<le> n * pow2 (- e) \<longleftrightarrow>
      real_of_int (pow2 (MANT_DIG t)) * 2 powi e \<le> real_of_int n / real_of_int d"
    using le_scale(1) [OF assms(2), of "pow2 (MANT_DIG t)" e n] by (simp add: mult.commute mult.left_commute)
  also have "real_of_int (pow2 (MANT_DIG t)) * 2 powi e = 2 powi (e + MANT_DIG t)"
    using MANT_DIG_pos(1) [of t] by (simp add: pow2_real power_int_add)
  finally have c: "d * pow2 e * pow2 (MANT_DIG t) \<le> n * pow2 (- e) \<longleftrightarrow>
      2 powi (e + MANT_DIG t) \<le> real_of_int n / real_of_int d" .
  have f: "fp_exponent t n d = (if 2 powi (e + MANT_DIG t) \<le> real_of_int n / real_of_int d then e + 1 else e)"
    unfolding fp_exponent_def Let_def e0_def [symmetric] e_def [symmetric] c ..
  have "e = emin t \<or> e = e0" by (auto simp: e_def max_def)
  with b f show "real_of_int n / real_of_int d < 2 powi (fp_exponent t n d + MANT_DIG t)"
    "fp_exponent t n d = emin t \<or> 2 powi (fp_exponent t n d + MANT_DIG t - 1) \<le> real_of_int n / real_of_int d"
    by (auto simp: algebra_simps)
  show "emin t \<le> fp_exponent t n d" by (auto simp: f e_def max_def)
qed

lemma round_fp_eq:
  assumes "0 < n"
  shows "round_fp t s n d = (let e = fp_exponent t n d; q = round_even (n * pow2 (- e)) (d * pow2 e);
    (q, e) = (if q = pow2 (MANT_DIG t) then (pow2 (MANT_DIG t - 1), e + 1) else (q, e))
    in if emax t < e then Inf s else Fin s q e)"
  using assms by (simp add: round_fp_def fp_exponent_def Let_def)

lemma rounded_mantissa:
  fixes t :: fp_type
  assumes n: "0 < n" and d: "0 < d"
  defines "e \<equiv> fp_exponent t n d"
  defines "q \<equiv> round_even (n * pow2 (- e)) (d * pow2 e)"
  shows "q \<le> pow2 (MANT_DIG t)" "e = emin t \<or> pow2 (MANT_DIG t - 1) \<le> q" "0 \<le> q"
    "\<bar>real_of_int q * 2 powi e - real_of_int n / real_of_int d\<bar> \<le> 2 powi e / 2"
proof -
  note b = fp_exponent_bounds [OF n d, of t, folded e_def]
  have d': "0 < d * pow2 e" using d by (simp add: zero_less_mult_iff)
  have "real_of_int n / real_of_int d \<le> real_of_int (pow2 (MANT_DIG t)) * 2 powi e"
    using b(2) MANT_DIG_pos(1) [of t] by (simp add: power_int_add pow2_real mult.commute)
  then show "q \<le> pow2 (MANT_DIG t)"
    unfolding q_def by (intro round_even_le [OF d']) (simp only: le_scale(2) [OF d])
  have "2 powi (e + MANT_DIG t - 1) = real_of_int (pow2 (MANT_DIG t - 1)) * 2 powi e"
    using MANT_DIG_pos(1) [of t] by (simp add: pow2_real power_int_add [symmetric] algebra_simps)
  then show "e = emin t \<or> pow2 (MANT_DIG t - 1) \<le> q"
    using b(3) unfolding q_def by (auto intro!: round_even_ge [OF d'] simp: le_scale(1) [OF d])
  show "0 \<le> q" unfolding q_def using n by (intro round_even_ge [OF d']) simp
  have "real_of_int (2 * \<bar>n * pow2 (- e) - q * (d * pow2 e)\<bar>) \<le> real_of_int (d * pow2 e)"
    using round_even_error(1) [OF d', of "n * pow2 (- e)"] unfolding q_def by (simp only: of_int_le_iff)
  then have le: "2 * \<bar>real_of_int (n * pow2 (- e)) - real_of_int q * real_of_int (d * pow2 e)\<bar> \<le> real_of_int (d * pow2 e)"
    by simp
  have D: "0 < real_of_int (d * pow2 e)" using d' by (simp only: of_int_0_less_iff)
  have "real_of_int q * 2 powi e - real_of_int n / real_of_int d =
      (real_of_int q - real_of_int (n * pow2 (- e)) / real_of_int (d * pow2 e)) * 2 powi e"
    unfolding real_scale [OF d] by (simp add: left_diff_distrib)
  also have "\<dots> = (real_of_int q * real_of_int (d * pow2 e) - real_of_int (n * pow2 (- e))) / real_of_int (d * pow2 e) * 2 powi e"
    using d by (simp add: diff_divide_distrib)
  finally have "\<bar>real_of_int q * 2 powi e - real_of_int n / real_of_int d\<bar> =
      \<bar>real_of_int (n * pow2 (- e)) - real_of_int q * real_of_int (d * pow2 e)\<bar> / real_of_int (d * pow2 e) * 2 powi e"
    using D by (simp only: abs_mult abs_divide abs_minus_commute [of "real_of_int q * _"]) simp
  also have "\<dots> \<le> 1 / 2 * 2 powi e"
    using le D by (intro mult_right_mono) (simp_all only: pos_divide_le_eq, simp_all)
  finally show "\<bar>real_of_int q * 2 powi e - real_of_int n / real_of_int d\<bar> \<le> 2 powi e / 2" by simp
qed

lemma canonical_round_fp:
  assumes "0 \<le> n" "0 < d"
  shows "canonical t (round_fp t s n d)"
proof (cases "n = 0")
  case True
  then show ?thesis using MANT_DIG_pos(2) [of t] by (simp add: round_fp_def)
next
  case False
  then have n: "0 < n" using assms(1) by simp
  have "pow2 (MANT_DIG t - 1) < pow2 (MANT_DIG t)" using MANT_DIG_pos(1) [of t] by (intro pow2_less) simp_all
  then show ?thesis
    using rounded_mantissa(1,2,3) [OF n assms(2), of t] fp_exponent_bounds(1) [OF n assms(2), of t]
    by (auto simp: round_fp_eq [OF n] Let_def)
qed

text \<open>The relative error is half a unit in the last place, unless the result is subnormal.\<close>

definition rounding_error :: "fp_type \<Rightarrow> real \<Rightarrow> real" where
  "rounding_error t v = max (\<bar>v\<bar> / 2 powi (MANT_DIG t)) (2 powi (emin t) / 2)"

lemma round_fp_error:
  assumes n: "0 \<le> n" and d: "0 < d" and v: "real_of_int n / real_of_int d \<le> 2 powi (emax t + MANT_DIG t - 1)"
  shows "finite_fp (round_fp t s n d)"
    "\<bar>fp_real (round_fp t s n d) - (if s then - 1 else 1) * (real_of_int n / real_of_int d)\<bar>
      \<le> rounding_error t (real_of_int n / real_of_int d)"
proof -
  have "finite_fp (round_fp t s n d) \<and>
    \<bar>fp_real (round_fp t s n d) - (if s then - 1 else 1) * (real_of_int n / real_of_int d)\<bar>
      \<le> rounding_error t (real_of_int n / real_of_int d)"
  proof (cases "n = 0")
    case True
    then show ?thesis by (simp add: round_fp_def rounding_error_def)
  next
    case False
    with n have n: "0 < n" by simp
    define e where "e = fp_exponent t n d"
    define q where "q = round_even (n * pow2 (- e)) (d * pow2 e)"
    note b = fp_exponent_bounds [OF n d, of t, folded e_def]
    note m = rounded_mantissa [OF n d, of t, folded e_def, folded q_def]
    have d': "0 < d * pow2 e" using d by (simp add: zero_less_mult_iff)
    have e: "e \<le> emax t"
    proof (rule ccontr)
      assume "\<not> e \<le> emax t"
      then have "(2 :: real) powi (emax t + MANT_DIG t - 1) < 2 powi (e + MANT_DIG t - 1)"
        by (intro power_int_strict_increasing) simp_all
      with b(3) v \<open>\<not> e \<le> emax t\<close> MANT_DIG_pos(2) [of t] show False by auto
    qed
    have "2 powi (emax t + MANT_DIG t - 1) = real_of_int (pow2 (MANT_DIG t - 1)) * 2 powi (emax t)"
      using MANT_DIG_pos(1) [of t] by (simp add: pow2_real power_int_add [symmetric] algebra_simps)
    then have top: "q \<le> pow2 (MANT_DIG t - 1)" if "e = emax t"
      unfolding q_def using v that by (intro round_even_le [OF d']) (simp only: le_scale(2) [OF d])
    have lt: "pow2 (MANT_DIG t - 1) < pow2 (MANT_DIG t)" using MANT_DIG_pos(1) [of t] by (intro pow2_less) simp_all
    have r: "\<exists>q' e'. round_fp t s n d = Fin s q' e' \<and> real_of_int q' * 2 powi e' = real_of_int q * 2 powi e"
    proof (cases "q = pow2 (MANT_DIG t)")
      case True
      with top lt e have "e < emax t" by fastforce
      moreover have "real_of_int (pow2 (MANT_DIG t - 1)) * 2 powi (e + 1) = real_of_int q * 2 powi e"
        using MANT_DIG_pos(1) [of t] by (simp add: True pow2_real power_int_add [symmetric] algebra_simps)
      ultimately show ?thesis
        using True by (simp add: round_fp_eq [OF n] e_def [symmetric] q_def [symmetric] Let_def)
    next
      case False
      then show ?thesis
        using e by (simp add: round_fp_eq [OF n] e_def [symmetric] q_def [symmetric] Let_def)
    qed
    have "\<bar>real_of_int q * 2 powi e - real_of_int n / real_of_int d\<bar> \<le> rounding_error t (real_of_int n / real_of_int d)"
    proof (cases "e = emin t")
      case True
      then show ?thesis using m(4) unfolding rounding_error_def by (intro max.coboundedI2) simp
    next
      case False
      have "2 powi e / 2 = 2 powi (e + MANT_DIG t - 1) / (2 :: real) powi (MANT_DIG t)"
        by (simp add: power_int_add power_int_diff)
      also have "\<dots> \<le> real_of_int n / real_of_int d / 2 powi (MANT_DIG t)"
        using b(3) False by (intro divide_right_mono) simp_all
      also have "\<dots> \<le> rounding_error t (real_of_int n / real_of_int d)"
        using n d by (simp add: rounding_error_def)
      finally show ?thesis using m(4) by simp
    qed
    moreover from r obtain q' e' where "round_fp t s n d = Fin s q' e'"
        "real_of_int q' * 2 powi e' = real_of_int q * 2 powi e" by blast
    ultimately show ?thesis by (auto simp: abs_minus_commute)
  qed
  then show "finite_fp (round_fp t s n d)"
    "\<bar>fp_real (round_fp t s n d) - (if s then - 1 else 1) * (real_of_int n / real_of_int d)\<bar>
      \<le> rounding_error t (real_of_int n / real_of_int d)" by simp_all
qed

text \<open>A value that is a number of the type is not changed by rounding.\<close>

definition representable :: "fp_type \<Rightarrow> real \<Rightarrow> bool" where
  "representable t x \<longleftrightarrow> (\<exists>m k. \<bar>x\<bar> = real_of_int m * 2 powi k \<and> 0 \<le> m \<and> m < pow2 (MANT_DIG t) \<and>
     emin t \<le> k \<and> k \<le> emax t)"

lemma round_fp_exact:
  assumes n: "0 \<le> n" and d: "0 < d" and r: "representable t (real_of_int n / real_of_int d)"
  shows "finite_fp (round_fp t s n d)"
    "fp_real (round_fp t s n d) = (if s then - 1 else 1) * (real_of_int n / real_of_int d)"
proof -
  have "finite_fp (round_fp t s n d) \<and>
    fp_real (round_fp t s n d) = (if s then - 1 else 1) * (real_of_int n / real_of_int d)"
  proof (cases "n = 0")
    case True
    then show ?thesis by (simp add: round_fp_def)
  next
    case False
    with n have n: "0 < n" by simp
    define e where "e = fp_exponent t n d"
    note b = fp_exponent_bounds [OF n d, of t, folded e_def]
    obtain m k where mk: "real_of_int n / real_of_int d = real_of_int m * 2 powi k" "0 \<le> m" "m < pow2 (MANT_DIG t)"
        "emin t \<le> k" "k \<le> emax t"
      using r n d by (auto simp: representable_def)
    have lt: "real_of_int m * 2 powi k < 2 powi (k + MANT_DIG t)"
    proof -
      have "real_of_int m < real_of_int (pow2 (MANT_DIG t))" using mk(3) by (simp only: of_int_less_iff)
      then show ?thesis using MANT_DIG_pos(1) [of t] by (simp add: pow2_real power_int_add mult.commute)
    qed
    have "e \<le> k"
    proof (rule ccontr)
      assume "\<not> e \<le> k"
      then have "(2 :: real) powi (k + MANT_DIG t) \<le> 2 powi (e + MANT_DIG t - 1)"
        by (intro powi_mono) simp
      with b(3) lt mk(1,4) \<open>\<not> e \<le> k\<close> show False by auto
    qed
    define q where "q = m * pow2 (k - e)"
    have q: "real_of_int q * 2 powi e = real_of_int n / real_of_int d"
      using \<open>e \<le> k\<close> by (simp add: q_def mk(1) pow2_real mult.assoc power_int_add [symmetric])
    have "n * pow2 (- e) = q * (d * pow2 e)"
      using le_scale(1) [OF d, of q e n] le_scale(2) [OF d, of n e q] q by (intro order_antisym) simp_all
    then have re: "round_even (n * pow2 (- e)) (d * pow2 e) = q"
      using d by (simp only:) (intro round_even_exact, simp add: zero_less_mult_iff)
    have "q \<noteq> pow2 (MANT_DIG t)"
    proof
      assume "q = pow2 (MANT_DIG t)"
      then have "real_of_int n / real_of_int d = 2 powi (e + MANT_DIG t)"
        using q MANT_DIG_pos(1) [of t] by (simp add: pow2_real power_int_add mult.commute)
      with b(2) show False by simp
    qed
    moreover have "e \<le> emax t" using \<open>e \<le> k\<close> mk(5) by simp
    ultimately have "round_fp t s n d = Fin s q e"
      by (simp add: round_fp_eq [OF n] e_def [symmetric] re Let_def)
    with q show ?thesis by simp
  qed
  then show "finite_fp (round_fp t s n d)"
    "fp_real (round_fp t s n d) = (if s then - 1 else 1) * (real_of_int n / real_of_int d)"
    by simp_all
qed

section \<open>Numbers of a type\<close>

lemma canonical_representable: "canonical t x \<Longrightarrow> representable t (fp_real x)"
proof (cases x)
  case (Fin s m e)
  assume "canonical t x"
  then show ?thesis unfolding representable_def
    by (intro exI [of _ m] exI [of _ e]) (simp add: Fin abs_mult)
next
  case (Inf s)
  show ?thesis unfolding representable_def
    using MANT_DIG_pos(2) [of t] by (intro exI [of _ 0] exI [of _ "emin t"]) (simp add: Inf)
next
  case NaN
  show ?thesis unfolding representable_def
    using MANT_DIG_pos(2) [of t] by (intro exI [of _ 0] exI [of _ "emin t"]) (simp add: NaN)
qed

lemma representable_minus [simp]: "representable t (- x) \<longleftrightarrow> representable t x"
  by (simp add: representable_def)

lemma representable_abs [simp]: "representable t \<bar>x\<bar> \<longleftrightarrow> representable t x"
  by (simp add: representable_def)

lemma emin_nonpos: "emin t < 0" "0 < emax t" "MANT_DIG t < emax t + MANT_DIG t - 1"
  by (cases t; simp add: emin_def emax_def)+

lemma representable_int:
  assumes "\<bar>i\<bar> \<le> pow2 (MANT_DIG t)"
  shows "representable t (real_of_int i)"
proof (cases "\<bar>i\<bar> = pow2 (MANT_DIG t)")
  case True
  have "pow2 (MANT_DIG t) = pow2 (MANT_DIG t - 1) * 2" "pow2 (MANT_DIG t - 1) < pow2 (MANT_DIG t)"
    using MANT_DIG_pos(1) [of t] by (simp_all add: pow2.simps [of "MANT_DIG t"])
  with True show ?thesis unfolding representable_def
    using emin_nonpos [of t]
    by (intro exI [of _ "pow2 (MANT_DIG t - 1)"] exI [of _ 1]) (simp flip: of_int_abs)
next
  case False
  with assms show ?thesis unfolding representable_def
    using emin_nonpos [of t] by (intro exI [of _ "\<bar>i\<bar>"] exI [of _ 0]) simp
qed

text \<open>The integral and the fractional part of a number are numbers.\<close>

lemma representable_floor:
  assumes "representable t x" "0 \<le> x"
  shows "representable t (real_of_int \<lfloor>x\<rfloor>)" "representable t (x - real_of_int \<lfloor>x\<rfloor>)"
    "x \<noteq> real_of_int \<lfloor>x\<rfloor> \<Longrightarrow> \<lfloor>x\<rfloor> < pow2 (MANT_DIG t)"
proof -
  obtain m k where mk: "x = real_of_int m * 2 powi k" "0 \<le> m" "m < pow2 (MANT_DIG t)" "emin t \<le> k" "k \<le> emax t"
    using assms by (auto simp: representable_def)
  have "representable t (real_of_int \<lfloor>x\<rfloor>) \<and> representable t (x - real_of_int \<lfloor>x\<rfloor>) \<and>
      (x \<noteq> real_of_int \<lfloor>x\<rfloor> \<longrightarrow> \<lfloor>x\<rfloor> < pow2 (MANT_DIG t))"
  proof (cases "0 \<le> k")
    case True
    then have x: "x = real_of_int (m * pow2 k)" using mk(1) by (simp add: pow2_real)
    then have "\<lfloor>x\<rfloor> = m * pow2 k" by (simp only: floor_of_int)
    then show ?thesis using x assms(1) representable_int [of 0 t] by simp
  next
    case False
    then have p: "2 powi k = 1 / real_of_int (pow2 (- k))"
      by (simp add: pow2_real power_int_minus inverse_eq_divide)
    then have "x = real_of_int m / real_of_int (pow2 (- k))" using mk(1) by simp
    then have f: "\<lfloor>x\<rfloor> = m div pow2 (- k)" by (simp only: floor_divide_of_int_eq)
    have le: "m div pow2 (- k) \<le> m" using zdiv_mono2 [of m 1 "pow2 (- k)"] mk(2) by simp
    have "real_of_int m = real_of_int (m div pow2 (- k)) * real_of_int (pow2 (- k)) + real_of_int (m mod pow2 (- k))"
      by (metis div_mult_mod_eq of_int_add of_int_mult)
    then have "x - real_of_int \<lfloor>x\<rfloor> = real_of_int (m mod pow2 (- k)) * 2 powi k"
      unfolding f unfolding mk(1) p by (simp add: field_simps)
    moreover have "m mod pow2 (- k) \<le> m" using mk(2) by (simp add: zmod_le_nonneg_dividend)
    ultimately have "representable t (x - real_of_int \<lfloor>x\<rfloor>)"
      unfolding representable_def using mk
      by (intro exI [of _ "m mod pow2 (- k)"] exI [of _ k]) (simp add: abs_mult)
    moreover have "representable t (real_of_int \<lfloor>x\<rfloor>)"
      using le mk(2,3) by (intro representable_int) (simp add: f pos_imp_zdiv_nonneg_iff)
    ultimately show ?thesis using le mk(3) f by simp
  qed
  then show "representable t (real_of_int \<lfloor>x\<rfloor>)" "representable t (x - real_of_int \<lfloor>x\<rfloor>)"
    "x \<noteq> real_of_int \<lfloor>x\<rfloor> \<Longrightarrow> \<lfloor>x\<rfloor> < pow2 (MANT_DIG t)" by blast+
qed

section \<open>The operations as functions of real numbers\<close>

lemma scaled_real: "l \<le> e \<Longrightarrow> real_of_int (scaled s m e l) * 2 powi l = fp_real (Fin s m e)"
  by (simp add: scaled_def pow2_real mult.assoc power_int_add [symmetric])

lemma pow2_ratio: "real_of_int (n * pow2 l) / real_of_int (pow2 (- l)) = real_of_int n * 2 powi l"
  by (simp add: pow2_quotient [symmetric])

lemma fp_real_neg [simp]: "fp_real (fp_neg x) = - fp_real x" "finite_fp (fp_neg x) = finite_fp x"
  by (cases x; simp)+

text \<open>Every operation rounds a quotient of integers that is the exact result.\<close>

lemma fp_add_round:
  assumes "finite_fp x" "finite_fp y"
  obtains "fp_real x + fp_real y = 0" "fp_real (fp_add t x y) = 0" "finite_fp (fp_add t x y)"
  | n d where "0 \<le> n" "0 < d" "real_of_int n / real_of_int d = \<bar>fp_real x + fp_real y\<bar>"
      "fp_add t x y = round_fp t (fp_real x + fp_real y < 0) n d"
proof -
  obtain s m e s' m' e' where xy: "x = Fin s m e" "y = Fin s' m' e'"
    using assms by (metis finite_fp.elims(2))
  define l where "l = min e e'"
  define i where "i = scaled s m e l + scaled s' m' e' l"
  have i: "real_of_int i * 2 powi l = fp_real x + fp_real y"
    by (simp only: i_def of_int_add distrib_right xy) (simp add: scaled_real l_def)
  show thesis
  proof (cases "i = 0")
    case True
    then show thesis using i that(1) by (simp add: xy i_def l_def Let_def)
  next
    case False
    have "real_of_int (\<bar>i\<bar> * pow2 l) / real_of_int (pow2 (- l)) = \<bar>real_of_int i * 2 powi l\<bar>"
      unfolding pow2_ratio by (simp add: abs_mult)
    moreover have "(i < 0) = (fp_real x + fp_real y < 0)"
      unfolding i [symmetric] by (simp add: mult_less_0_iff)
    ultimately show thesis
      using False that(2) [of "\<bar>i\<bar> * pow2 l" "pow2 (- l)"] i by (simp add: xy i_def l_def Let_def)
  qed
qed

lemma fp_mul_round:
  assumes "finite_fp x" "finite_fp y" "canonical t x" "canonical t y"
  obtains n d s where "0 \<le> n" "0 < d" "real_of_int n / real_of_int d = \<bar>fp_real x * fp_real y\<bar>"
    "fp_mul t x y = round_fp t s n d" "(if s then - 1 else 1) * \<bar>fp_real x * fp_real y\<bar> = fp_real x * fp_real y"
proof -
  obtain s m e s' m' e' where xy: "x = Fin s m e" "y = Fin s' m' e'"
    using assms(1,2) by (metis finite_fp.elims(2))
  with assms(3,4) have m: "0 \<le> m" "0 \<le> m'" by simp_all
  show thesis
  proof (rule that)
    show "real_of_int (m * m' * pow2 (e + e')) / real_of_int (pow2 (- (e + e'))) = \<bar>fp_real x * fp_real y\<bar>"
      unfolding pow2_ratio using m by (simp add: xy power_int_add abs_mult)
    show "(if s \<noteq> s' then - 1 else 1) * \<bar>fp_real x * fp_real y\<bar> = fp_real x * fp_real y"
      using m by (simp add: xy abs_mult)
  qed (simp_all add: xy m)
qed

lemma fp_div_round:
  assumes "finite_fp x" "finite_fp y" "canonical t x" "canonical t y" "fp_real y \<noteq> 0"
  obtains n d s where "0 \<le> n" "0 < d" "real_of_int n / real_of_int d = \<bar>fp_real x / fp_real y\<bar>"
    "fp_div t x y = round_fp t s n d" "(if s then - 1 else 1) * \<bar>fp_real x / fp_real y\<bar> = fp_real x / fp_real y"
proof -
  obtain s m e s' m' e' where xy: "x = Fin s m e" "y = Fin s' m' e'"
    using assms(1,2) by (metis finite_fp.elims(2))
  with assms(3-5) have m: "0 \<le> m" "0 < m'" by auto
  show thesis
  proof (rule that)
    have "real_of_int (m * pow2 (e - e')) / real_of_int (m' * pow2 (- (e - e'))) = real_of_int m / real_of_int m' * 2 powi (e - e')"
      using m by (simp add: pow2_quotient [symmetric])
    then show "real_of_int (m * pow2 (e - e')) / real_of_int (m' * pow2 (e' - e)) = \<bar>fp_real x / fp_real y\<bar>"
      using m by (simp add: xy power_int_diff abs_mult)
    show "(if s \<noteq> s' then - 1 else 1) * \<bar>fp_real x / fp_real y\<bar> = fp_real x / fp_real y"
      using m by (simp add: xy abs_mult)
  qed (use m in \<open>auto simp: xy zero_less_mult_iff\<close>)
qed

lemma fp_add_exact:
  assumes "finite_fp x" "finite_fp y" and r: "representable t (fp_real x + fp_real y)"
  shows "finite_fp (fp_add t x y)" "fp_real (fp_add t x y) = fp_real x + fp_real y"
proof -
  have "finite_fp (fp_add t x y) \<and> fp_real (fp_add t x y) = fp_real x + fp_real y"
  proof (rule fp_add_round [OF assms(1,2), of t])
    fix n d assume "0 \<le> n" "0 < d" and v: "real_of_int n / real_of_int d = \<bar>fp_real x + fp_real y\<bar>"
      and f: "fp_add t x y = round_fp t (fp_real x + fp_real y < 0) n d"
    with round_fp_exact [of n d t "fp_real x + fp_real y < 0", unfolded v] r show ?thesis by (simp add: f)
  qed simp
  then show "finite_fp (fp_add t x y)" "fp_real (fp_add t x y) = fp_real x + fp_real y" by simp_all
qed

lemma fp_sub_exact:
  assumes "finite_fp x" "finite_fp y" and "representable t (fp_real x - fp_real y)"
  shows "finite_fp (fp_sub t x y)" "fp_real (fp_sub t x y) = fp_real x - fp_real y"
  using fp_add_exact [of x "fp_neg y" t] assms by (simp_all add: fp_sub_def)

lemma fp_mul_exact:
  assumes "finite_fp x" "finite_fp y" "canonical t x" "canonical t y"
    and r: "representable t (fp_real x * fp_real y)"
  shows "finite_fp (fp_mul t x y)" "fp_real (fp_mul t x y) = fp_real x * fp_real y"
proof -
  obtain n d s where f: "0 \<le> n" "0 < d" and v: "real_of_int n / real_of_int d = \<bar>fp_real x * fp_real y\<bar>"
    and g: "fp_mul t x y = round_fp t s n d" "(if s then - 1 else 1) * \<bar>fp_real x * fp_real y\<bar> = fp_real x * fp_real y"
    by (rule fp_mul_round [OF assms(1-4)])
  from round_fp_exact [OF f, of t s, unfolded v] r
  show "finite_fp (fp_mul t x y)" "fp_real (fp_mul t x y) = fp_real x * fp_real y" by (simp_all add: g)
qed

lemma fp_mul_error:
  assumes "finite_fp x" "finite_fp y" "canonical t x" "canonical t y"
    and r: "\<bar>fp_real x * fp_real y\<bar> \<le> 2 powi (emax t + MANT_DIG t - 1)"
  shows "finite_fp (fp_mul t x y)"
    "\<bar>fp_real (fp_mul t x y) - fp_real x * fp_real y\<bar> \<le> rounding_error t (fp_real x * fp_real y)"
proof -
  obtain n d s where f: "0 \<le> n" "0 < d" and v: "real_of_int n / real_of_int d = \<bar>fp_real x * fp_real y\<bar>"
    and g: "fp_mul t x y = round_fp t s n d" "(if s then - 1 else 1) * \<bar>fp_real x * fp_real y\<bar> = fp_real x * fp_real y"
    by (rule fp_mul_round [OF assms(1-4)])
  from round_fp_error [OF f, of t s, unfolded v g(2)] r
  show "finite_fp (fp_mul t x y)"
    "\<bar>fp_real (fp_mul t x y) - fp_real x * fp_real y\<bar> \<le> rounding_error t (fp_real x * fp_real y)"
    by (simp_all add: g rounding_error_def)
qed

lemma fp_div_error:
  assumes "finite_fp x" "finite_fp y" "canonical t x" "canonical t y" "fp_real y \<noteq> 0"
    and r: "\<bar>fp_real x / fp_real y\<bar> \<le> 2 powi (emax t + MANT_DIG t - 1)"
  shows "finite_fp (fp_div t x y)"
    "\<bar>fp_real (fp_div t x y) - fp_real x / fp_real y\<bar> \<le> rounding_error t (fp_real x / fp_real y)"
proof -
  obtain n d s where f: "0 \<le> n" "0 < d" and v: "real_of_int n / real_of_int d = \<bar>fp_real x / fp_real y\<bar>"
    and g: "fp_div t x y = round_fp t s n d" "(if s then - 1 else 1) * \<bar>fp_real x / fp_real y\<bar> = fp_real x / fp_real y"
    by (rule fp_div_round [OF assms(1-5)])
  from round_fp_error [OF f, of t s, unfolded v g(2)] r
  show "finite_fp (fp_div t x y)"
    "\<bar>fp_real (fp_div t x y) - fp_real x / fp_real y\<bar> \<le> rounding_error t (fp_real x / fp_real y)"
    by (simp_all add: g rounding_error_def)
qed

lemma fp_of_int_exact:
  assumes "representable t (real_of_int i)"
  shows "finite_fp (fp_of_int t i)" "fp_real (fp_of_int t i) = real_of_int i"
  using round_fp_exact [of "\<bar>i\<bar>" 1 t "i < 0"] assms by (simp_all add: fp_of_int_def)

lemma fp_compare:
  assumes "finite_fp x" "finite_fp y"
  shows "fp_less x y \<longleftrightarrow> fp_real x < fp_real y" "fp_eq x y \<longleftrightarrow> fp_real x = fp_real y"
    "fp_le x y \<longleftrightarrow> fp_real x \<le> fp_real y"
proof -
  obtain s m e s' m' e' where xy: "x = Fin s m e" "y = Fin s' m' e'"
    using assms by (metis finite_fp.elims(2))
  define l where "l = min e e'"
  have "fp_real x = real_of_int (scaled s m e l) * 2 powi l" "fp_real y = real_of_int (scaled s' m' e' l) * 2 powi l"
    by (simp_all only: xy) (simp_all add: scaled_real l_def)
  then show "fp_less x y \<longleftrightarrow> fp_real x < fp_real y" "fp_eq x y \<longleftrightarrow> fp_real x = fp_real y"
    by (simp_all add: xy l_def)
  then show "fp_le x y \<longleftrightarrow> fp_real x \<le> fp_real y" by (auto simp: fp_le_def)
qed

definition truncated :: "real \<Rightarrow> int" where
  "truncated x = (if x < 0 then - \<lfloor>- x\<rfloor> else \<lfloor>x\<rfloor>)"

lemma fp_trunc_eq:
  assumes "finite_fp x" "canonical t x"
  shows "fp_trunc w x = (if - pow2 (w - 1) \<le> truncated (fp_real x) \<and> truncated (fp_real x) < pow2 (w - 1)
    then Some (truncated (fp_real x)) else None)"
proof -
  obtain s m e where x: "x = Fin s m e" using assms(1) by (metis finite_fp.elims(2))
  with assms(2) have m: "0 \<le> m" by simp
  define n where "n = m * pow2 e div pow2 (- e)"
  have f: "\<lfloor>real_of_int m * 2 powi e\<rfloor> = n"
    unfolding pow2_ratio [symmetric] n_def by (rule floor_divide_of_int_eq)
  have "truncated (fp_real x) = (if s then - n else n)"
  proof (cases "s \<and> m \<noteq> 0")
    case True
    then have "fp_real x = - (real_of_int m * 2 powi e)" "fp_real x < 0" using m by (simp_all add: x)
    then show ?thesis using f True by (simp add: truncated_def)
  next
    case False
    then have "fp_real x = real_of_int m * 2 powi e" "\<not> fp_real x < 0" "s \<Longrightarrow> n = 0"
      using m by (auto simp: x n_def mult_less_0_iff)
    then show ?thesis using f by (simp add: truncated_def)
  qed
  then show ?thesis by (simp only: x fp_trunc.simps Let_def n_def)
qed

lemma fp_trunc_nonneg:
  assumes "finite_fp x" "canonical t x" "0 \<le> fp_real x" "fp_real x < real_of_int (pow2 (w - 1))"
  shows "fp_trunc w x = Some \<lfloor>fp_real x\<rfloor>"
proof -
  have "0 \<le> \<lfloor>fp_real x\<rfloor>" "\<lfloor>fp_real x\<rfloor> < pow2 (w - 1)" using assms(3,4) by (simp_all add: floor_less_iff)
  moreover from this have "- pow2 (w - 1) \<le> \<lfloor>fp_real x\<rfloor>" using pow2_pos(3) [of "w - 1"] by linarith
  ultimately show ?thesis using fp_trunc_eq [OF assms(1,2), of w] assms(3)
    by (simp add: truncated_def)
qed

section \<open>Results are numbers of the type\<close>

lemma canonical_zero [simp]: "canonical t (Fin s 0 (emin t))"
  using MANT_DIG_pos(2) [of t] by simp

lemma canonical_neg [simp]: "canonical t (fp_neg x) = canonical t x"
  by (cases x) simp_all

lemma canonical_add [simp]: "canonical t (fp_add t x y)"
  by (cases x; cases y) (simp_all add: Let_def canonical_round_fp del: canonical.simps, simp_all)

lemma canonical_sub [simp]: "canonical t (fp_sub t x y)"
  by (simp add: fp_sub_def)

lemma canonical_mul [simp]: "canonical t x \<Longrightarrow> canonical t y \<Longrightarrow> canonical t (fp_mul t x y)"
  by (cases x; cases y) (simp_all add: canonical_round_fp)

lemma canonical_div [simp]: "canonical t x \<Longrightarrow> canonical t y \<Longrightarrow> canonical t (fp_div t x y)"
  by (cases x; cases y) (auto simp: canonical_round_fp zero_less_mult_iff)

lemma canonical_of_int [simp]: "canonical t (fp_of_int t i)"
  by (simp add: fp_of_int_def canonical_round_fp)

section \<open>Literals and conversions between the types\<close>

text \<open>The literal \<open>n / d\<close> of type \<open>double\<close> or \<open>float\<close>, and a conversion to another type.\<close>

definition fp_literal :: "fp_type \<Rightarrow> int \<Rightarrow> int \<Rightarrow> fp" where
  "fp_literal t n d = round_fp t False n d"

fun fp_convert :: "fp_type \<Rightarrow> fp \<Rightarrow> fp" where
  "fp_convert t (Fin s m e) = round_fp t s (m * pow2 e) (pow2 (- e))"
| "fp_convert t x = x"

fun valid_fp :: "fp \<Rightarrow> bool" where
  "valid_fp (Fin s m e) = (0 \<le> m)"
| "valid_fp _ = True"

lemma canonical_valid: "canonical t x \<Longrightarrow> valid_fp x"
  by (cases x) simp_all

lemma canonical_convert [simp]: "valid_fp x \<Longrightarrow> canonical t (fp_convert t x)"
  by (cases x) (simp_all add: canonical_round_fp)

lemma canonical_literal [simp]: "0 \<le> n \<Longrightarrow> 0 < d \<Longrightarrow> canonical t (fp_literal t n d)"
  by (simp add: fp_literal_def canonical_round_fp)

lemma fp_convert_exact:
  assumes "finite_fp x" "valid_fp x" "representable t (fp_real x)"
  shows "finite_fp (fp_convert t x)" "fp_real (fp_convert t x) = fp_real x"
proof -
  obtain s m e where x: "x = Fin s m e" using assms(1) by (cases x) simp_all
  have m: "0 \<le> m * pow2 e" using assms(2) by (simp add: x)
  have v: "real_of_int (m * pow2 e) / real_of_int (pow2 (- e)) = real_of_int m * 2 powi e" by (rule pow2_ratio)
  have "representable t (real_of_int m * 2 powi e)" using assms(3) by (cases s) (simp_all add: x)
  then show "finite_fp (fp_convert t x)" "fp_real (fp_convert t x) = fp_real x"
    using round_fp_exact [OF m pow2_pos(1), of t "- e" s] v by (simp_all add: x)
qed

section \<open>The object representation\<close>

lemma pack_fields:
  fixes h :: int
  assumes "0 \<le> m" "m < h" "0 \<le> e" "e < k" "0 \<le> b" "b \<le> 1"
  defines "u \<equiv> b * (k * h) + e * h + m"
  shows "u mod h = m" "u div h mod k = e" "u div (k * h) = b"
proof -
  have u: "u = (b * k + e) * h + m" by (simp add: u_def algebra_simps)
  show "u mod h = m" using assms(1,2) by (simp add: u)
  have d: "u div h = b * k + e" using assms(1,2) by (simp add: u)
  show "u div h mod k = e" using assms(3,4) by (simp add: d)
  have "u div (k * h) = u div h div k" using assms(1-4) by (simp add: mult.commute [of k] zdiv_zmult2_eq)
  also have "\<dots> = b" using assms(3,4) by (simp add: d)
  finally show "u div (k * h) = b" .
qed

lemma size_fields: "pow2 (SIZE_IN_BITS t - 1) = (max_biased t + 1) * pow2 (MANT_DIG t - 1)"
  by (cases t) (simp_all add: SIZE_IN_BITS_def max_biased_def pow2_eq)

lemma pack_read:
  assumes "0 \<le> m" "m < pow2 (MANT_DIG t - 1)" "0 \<le> e" "e \<le> max_biased t"
  shows "fp_pack t s e m mod pow2 (MANT_DIG t - 1) = m"
    "fp_pack t s e m div pow2 (MANT_DIG t - 1) mod (max_biased t + 1) = e"
    "fp_pack t s e m div pow2 (SIZE_IN_BITS t - 1) = of_bool s"
proof -
  have "fp_pack t s e m = of_bool s * ((max_biased t + 1) * pow2 (MANT_DIG t - 1)) + e * pow2 (MANT_DIG t - 1) + m"
    by (simp add: fp_pack_def size_fields)
  then show "fp_pack t s e m mod pow2 (MANT_DIG t - 1) = m"
    "fp_pack t s e m div pow2 (MANT_DIG t - 1) mod (max_biased t + 1) = e"
    "fp_pack t s e m div pow2 (SIZE_IN_BITS t - 1) = of_bool s"
    unfolding size_fields using pack_fields [OF assms(1,2), of e "max_biased t + 1" "of_bool s"] assms(3,4)
    by simp_all
qed

lemma mantissa_half: "pow2 (MANT_DIG t) = 2 * pow2 (MANT_DIG t - 1)"
  using MANT_DIG_pos(1) [of t] by (simp add: pow2.simps [of "MANT_DIG t"])

lemma quiet_bit: "0 < pow2 (MANT_DIG t - 2)" "pow2 (MANT_DIG t - 2) < pow2 (MANT_DIG t - 1)"
  using MANT_DIG_pos(1) [of t] by (simp_all add: pow2_less)

lemma max_biased_emax: "max_biased t = emax t - emin t + 2" "2 \<le> max_biased t"
  by (cases t; simp add: max_biased_def emax_def emin_def)+

text \<open>What the representation of a number holds.\<close>

lemma bits_read:
  assumes "canonical t (Fin s m e)"
  defines "h \<equiv> pow2 (MANT_DIG t - 1)" and "u \<equiv> fp_bits t (Fin s m e)"
  shows "u div pow2 (SIZE_IN_BITS t - 1) = of_bool s"
    "u div h mod (max_biased t + 1) = (if m < h then 0 else e - emin t + 1)"
    "u mod h = (if m < h then m else m - h)"
proof -
  have m: "0 \<le> m" "m < 2 * h" "emin t \<le> e" "e \<le> emax t" "e = emin t \<or> h \<le> m"
    using assms(1) by (simp_all add: h_def mantissa_half)
  have u: "u = (if m < h then fp_pack t s 0 m else fp_pack t s (e - emin t + 1) (m - h))"
    by (simp add: u_def h_def Let_def)
  note r = pack_read [of m t 0 s, folded h_def] pack_read [of "m - h" t "e - emin t + 1" s, folded h_def]
  show "u div pow2 (SIZE_IN_BITS t - 1) = of_bool s"
    "u div h mod (max_biased t + 1) = (if m < h then 0 else e - emin t + 1)"
    "u mod h = (if m < h then m else m - h)"
    using m r max_biased_emax [of t] by (auto simp: u)
qed

lemma fp_bits_inverse:
  assumes "canonical t x"
  shows "fp_of_bits t (fp_bits t x) = x"
proof (cases x)
  case (Fin s m e)
  with bits_read [of t s m e] assms max_biased_emax [of t] show ?thesis
    by (auto simp: fp_of_bits_def Let_def simp del: fp_bits.simps)
next
  case (Inf s)
  with pack_read [of 0 t "max_biased t" s] max_biased_emax [of t] show ?thesis
    by (simp add: fp_of_bits_def Let_def)
next
  case NaN
  with pack_read [of "pow2 (MANT_DIG t - 2)" t "max_biased t" False] max_biased_emax [of t] quiet_bit [of t]
  show ?thesis by (simp add: fp_of_bits_def Let_def)
qed

section \<open>Rounding is monotone\<close>

lemma round_fp_bounds:
  assumes n: "0 \<le> n" and d: "0 < d" and r: "representable t r"
  shows "real_of_int n / real_of_int d \<le> r \<Longrightarrow> finite_fp (round_fp t s n d) \<and> \<bar>fp_real (round_fp t s n d)\<bar> \<le> r"
    "0 \<le> r \<Longrightarrow> r \<le> real_of_int n / real_of_int d \<Longrightarrow> finite_fp (round_fp t s n d) \<Longrightarrow> r \<le> \<bar>fp_real (round_fp t s n d)\<bar>"
proof -
  have "(real_of_int n / real_of_int d \<le> r \<longrightarrow> finite_fp (round_fp t s n d) \<and> \<bar>fp_real (round_fp t s n d)\<bar> \<le> r) \<and>
    (0 \<le> r \<and> r \<le> real_of_int n / real_of_int d \<and> finite_fp (round_fp t s n d) \<longrightarrow> r \<le> \<bar>fp_real (round_fp t s n d)\<bar>)"
  proof (cases "n = 0")
    case True
    then show ?thesis by (simp add: round_fp_def)
  next
    case False
    with n have n: "0 < n" by simp
    then have v: "0 < real_of_int n / real_of_int d" using d by simp
    define e where "e = fp_exponent t n d"
    define q where "q = round_even (n * pow2 (- e)) (d * pow2 e)"
    note b = fp_exponent_bounds [OF n d, of t, folded e_def]
    note m = rounded_mantissa [OF n d, of t, folded e_def, folded q_def]
    have d': "0 < d * pow2 e" using d by (simp add: zero_less_mult_iff)
    have half: "2 powi (e + MANT_DIG t - 1) = real_of_int (pow2 (MANT_DIG t - 1)) * 2 powi e"
      using MANT_DIG_pos(1) [of t] by (simp add: pow2_real power_int_add [symmetric] algebra_simps)
    have res: "round_fp t s n d = (if q = pow2 (MANT_DIG t)
        then if emax t < e + 1 then Inf s else Fin s (pow2 (MANT_DIG t - 1)) (e + 1)
        else if emax t < e then Inf s else Fin s q e)"
      by (simp add: round_fp_eq [OF n] e_def [symmetric] q_def [symmetric] Let_def)
    have val: "\<bar>fp_real (round_fp t s n d)\<bar> = real_of_int q * 2 powi e" if "finite_fp (round_fp t s n d)"
      using that m(3) MANT_DIG_pos(1) [of t]
      by (auto simp: res abs_mult pow2_real power_int_add [symmetric] algebra_simps split: if_splits)
    obtain a k where ak: "\<bar>r\<bar> = real_of_int a * 2 powi k" "0 \<le> a" "a < pow2 (MANT_DIG t)" "emin t \<le> k" "k \<le> emax t"
      using r by (auto simp: representable_def)
    have lt: "\<bar>r\<bar> < 2 powi (k + MANT_DIG t)"
    proof -
      have "real_of_int a < real_of_int (pow2 (MANT_DIG t))" using ak(3) by (simp only: of_int_less_iff)
      then show ?thesis using ak(1) MANT_DIG_pos(1) [of t] by (simp add: pow2_real power_int_add mult.commute)
    qed
    have multiple: "\<bar>r\<bar> = real_of_int (a * pow2 (k - e)) * 2 powi e" if "e \<le> k"
      using that ak(1) by (simp add: pow2_real mult.assoc power_int_add [symmetric])
    have small: "\<bar>r\<bar> < 2 powi (e + MANT_DIG t - 1)" if "k < e"
      using lt that powi_mono [of "k + MANT_DIG t" "e + MANT_DIG t - 1"] by linarith
    have up: "finite_fp (round_fp t s n d) \<and> \<bar>fp_real (round_fp t s n d)\<bar> \<le> r" if le: "real_of_int n / real_of_int d \<le> r"
    proof -
      have r: "\<bar>r\<bar> = r" using v le by simp
      have ek: "e \<le> k" using small b(3) ak(4) le r by (cases "e \<le> k") auto
      then have qle: "q \<le> a * pow2 (k - e)"
        unfolding q_def using le multiple r by (intro round_even_le [OF d']) (simp only: le_scale(2) [OF d])
      then have "real_of_int q * 2 powi e \<le> real_of_int (a * pow2 (k - e)) * 2 powi e"
        by (intro mult_right_mono) (simp_all only: of_int_le_iff, simp)
      then have qr: "real_of_int q * 2 powi e \<le> r" using multiple [OF ek] r by simp
      have "e < emax t" if "q = pow2 (MANT_DIG t)"
      proof (rule ccontr)
        assume "\<not> e < emax t"
        with ek ak(5) have "k = e" by simp
        with qle ak(3) that show False by simp
      qed
      then have "finite_fp (round_fp t s n d)" using ek ak(5) by (auto simp: res)
      with val qr show ?thesis by simp
    qed
    have down: "r \<le> \<bar>fp_real (round_fp t s n d)\<bar>"
      if le: "0 \<le> r" "r \<le> real_of_int n / real_of_int d" "finite_fp (round_fp t s n d)"
    proof (cases "e \<le> k")
      case True
      have "real_of_int (a * pow2 (k - e)) * 2 powi e \<le> real_of_int n / real_of_int d"
        using multiple [OF True] le(1,2) by linarith
      then have "a * pow2 (k - e) \<le> q"
        unfolding q_def by (intro round_even_ge [OF d']) (simp only: le_scale(1) [OF d])
      then have "real_of_int (a * pow2 (k - e)) * 2 powi e \<le> real_of_int q * 2 powi e"
        by (intro mult_right_mono) (simp_all only: of_int_le_iff, simp)
      then show ?thesis using val [OF le(3)] multiple [OF True] le(1) by simp
    next
      case False
      then have "pow2 (MANT_DIG t - 1) \<le> q" using m(2) ak(4) by simp
      then have "real_of_int (pow2 (MANT_DIG t - 1)) * 2 powi e \<le> real_of_int q * 2 powi e"
        by (intro mult_right_mono) (simp_all only: of_int_le_iff, simp)
      then show ?thesis unfolding val [OF le(3)] using small False half le(1) by linarith
    qed
    from up down show ?thesis by blast
  qed
  then show "real_of_int n / real_of_int d \<le> r \<Longrightarrow> finite_fp (round_fp t s n d) \<and> \<bar>fp_real (round_fp t s n d)\<bar> \<le> r"
    "0 \<le> r \<Longrightarrow> r \<le> real_of_int n / real_of_int d \<Longrightarrow> finite_fp (round_fp t s n d) \<Longrightarrow> r \<le> \<bar>fp_real (round_fp t s n d)\<bar>"
    by blast+
qed

lemma fp_real_round_sign:
  assumes "0 \<le> n" "0 < d"
  shows "if s then fp_real (round_fp t s n d) \<le> 0 else 0 \<le> fp_real (round_fp t s n d)"
  using canonical_round_fp [OF assms, of t s]
proof (cases "round_fp t s n d")
  case (Fin s' m e)
  moreover from this have "s' = s" by (auto simp: round_fp_def Let_def split: if_splits)
  ultimately have "fp_real (round_fp t s n d) = (if s then - 1 else 1) * (real_of_int m * 2 powi e)" by simp
  moreover have "0 \<le> real_of_int m * 2 powi e" using canonical_round_fp [OF assms, of t s] Fin by simp
  ultimately show ?thesis by (simp only: split: if_split) linarith
next
  case (Inf s')
  then have "fp_real (round_fp t s n d) = 0" by simp
  then show ?thesis by (simp only: split: if_split) simp
next
  case NaN
  then have "fp_real (round_fp t s n d) = 0" by simp
  then show ?thesis by (simp only: split: if_split) simp
qed

text \<open>A product of non-negative numbers stays below a bound the type has.\<close>

lemma fp_mul_bounds:
  assumes "finite_fp x" "finite_fp y" "canonical t x" "canonical t y" "0 \<le> fp_real x * fp_real y"
    and r: "representable t r" "fp_real x * fp_real y \<le> r"
  shows "finite_fp (fp_mul t x y)" "0 \<le> fp_real (fp_mul t x y)" "fp_real (fp_mul t x y) \<le> r"
proof -
  obtain n d s where f: "0 \<le> n" "0 < d" and v: "real_of_int n / real_of_int d = \<bar>fp_real x * fp_real y\<bar>"
    and g: "fp_mul t x y = round_fp t s n d" "(if s then - 1 else 1) * \<bar>fp_real x * fp_real y\<bar> = fp_real x * fp_real y"
    by (rule fp_mul_round [OF assms(1-4)])
  have b: "finite_fp (fp_mul t x y)" "\<bar>fp_real (fp_mul t x y)\<bar> \<le> r"
    using round_fp_bounds(1) [OF f r(1), of s] r(2) assms(5) by (simp_all add: v g(1))
  then show "finite_fp (fp_mul t x y)" "fp_real (fp_mul t x y) \<le> r" by simp_all
  show "0 \<le> fp_real (fp_mul t x y)"
  proof (cases "fp_real x * fp_real y = 0")
    case True
    have "representable t 0" using representable_int [of 0 t] by simp
    then have "\<bar>fp_real (fp_mul t x y)\<bar> \<le> 0"
      using round_fp_bounds(1) [OF f, of t 0 s] True by (simp add: v g(1))
    then show ?thesis by simp
  next
    case False
    then have "\<not> s" using g(2) assms(5) by (auto split: if_splits)
    then show ?thesis using fp_real_round_sign [OF f, of s t] by (simp add: g(1))
  qed
qed

lemma fp_sub_negative:
  assumes "finite_fp x" "finite_fp y" "fp_real x \<le> fp_real y" and r: "representable t r" "fp_real y - fp_real x \<le> r"
  shows "finite_fp (fp_sub t x y)" "fp_real (fp_sub t x y) \<le> 0"
proof -
  have "finite_fp (fp_sub t x y) \<and> fp_real (fp_sub t x y) \<le> 0"
    unfolding fp_sub_def
  proof (rule fp_add_round [of x "fp_neg y" t])
    fix n d assume f: "0 \<le> n" "0 < d" and v: "real_of_int n / real_of_int d = \<bar>fp_real x + fp_real (fp_neg y)\<bar>"
      and g: "fp_add t x (fp_neg y) = round_fp t (fp_real x + fp_real (fp_neg y) < 0) n d"
    have b: "finite_fp (fp_add t x (fp_neg y))"
      using round_fp_bounds(1) [OF f r(1)] r(2) assms(3) by (simp add: v g)
    show "finite_fp (fp_add t x (fp_neg y)) \<and> fp_real (fp_add t x (fp_neg y)) \<le> 0"
    proof (cases "fp_real x = fp_real y")
      case True
      have "representable t 0" using representable_int [of 0 t] by simp
      then show ?thesis using round_fp_bounds(1) [OF f, of t 0] True by (simp add: v g)
    next
      case False
      then show ?thesis using b fp_real_round_sign [OF f, of True t] assms(3) by (simp add: g)
    qed
  qed (use assms in simp_all)
  then show "finite_fp (fp_sub t x y)" "fp_real (fp_sub t x y) \<le> 0" by simp_all
qed

section \<open>Correct rounding\<close>

text \<open>\<open>z\<close> is \<open>v\<close> rounded to the type: the error is bounded, numbers of the type stay, and rounding a
  number that is not negative does not pass a number of the type.\<close>

definition rounded :: "fp_type \<Rightarrow> real \<Rightarrow> fp \<Rightarrow> bool" where
  "rounded t v z \<longleftrightarrow> finite_fp z \<and> canonical t z \<and> \<bar>fp_real z - v\<bar> \<le> rounding_error t v \<and>
     (representable t v \<longrightarrow> fp_real z = v) \<and>
     (\<forall>r. 0 \<le> v \<and> 0 \<le> r \<and> representable t r \<longrightarrow> (v \<le> r \<longrightarrow> fp_real z \<le> r) \<and> (r \<le> v \<longrightarrow> r \<le> fp_real z))"

lemma round_fp_rounded:
  assumes f: "0 \<le> n" "0 < d" and v: "v = (if s then - 1 else 1) * (real_of_int n / real_of_int d)"
    and big: "\<bar>v\<bar> \<le> 2 powi (emax t + MANT_DIG t - 1)"
  shows "rounded t v (round_fp t s n d)"
proof -
  let ?z = "round_fp t s n d" and ?q = "real_of_int n / real_of_int d"
  have q: "0 \<le> ?q" using f by simp
  then have av: "\<bar>v\<bar> = ?q" using f by (simp add: v abs_mult)
  have e: "rounding_error t v = rounding_error t ?q" using f by (simp add: rounding_error_def av)
  note err = round_fp_error [OF f big [unfolded av], of s, folded v]
  have ex: "fp_real ?z = v" if "representable t v"
  proof -
    have "representable t ?q" using that q by (cases s) (simp_all add: v)
    then show ?thesis using round_fp_exact(2) [OF f, of t s] v by simp
  qed
  have mono: "(v \<le> r \<longrightarrow> fp_real ?z \<le> r) \<and> (r \<le> v \<longrightarrow> r \<le> fp_real ?z)"
    if r: "0 \<le> v" "0 \<le> r" "representable t r" for r
  proof -
    have vq: "v = ?q" using r(1) q by (cases s) (simp_all add: v)
    have z: "\<bar>fp_real ?z\<bar> = fp_real ?z"
    proof (cases s)
      case True
      then have "v = 0" using r(1) q v by simp
      moreover have "representable t 0" using representable_int [of 0 t] by simp
      ultimately show ?thesis using ex by simp
    next
      case False
      then show ?thesis using fp_real_round_sign [OF f, of s t] by simp
    qed
    show ?thesis
      using round_fp_bounds [OF f r(3), of s] r(2) err(1) unfolding vq z by blast
  qed
  from err ex mono show ?thesis
    unfolding rounded_def e by (simp add: canonical_round_fp [OF f])
qed

lemma rounded_mul:
  assumes "finite_fp x" "finite_fp y" "canonical t x" "canonical t y"
    and "\<bar>fp_real x * fp_real y\<bar> \<le> 2 powi (emax t + MANT_DIG t - 1)"
  shows "rounded t (fp_real x * fp_real y) (fp_mul t x y)"
proof -
  obtain n d s where r: "0 \<le> n" "0 < d" "real_of_int n / real_of_int d = \<bar>fp_real x * fp_real y\<bar>"
    "fp_mul t x y = round_fp t s n d" "(if s then - 1 else 1) * \<bar>fp_real x * fp_real y\<bar> = fp_real x * fp_real y"
    by (rule fp_mul_round [OF assms(1-4)])
  show ?thesis unfolding r(4) by (rule round_fp_rounded [OF r(1,2) _ assms(5)]) (simp only: r(3,5))
qed

lemma rounded_div:
  assumes "finite_fp x" "finite_fp y" "canonical t x" "canonical t y" "fp_real y \<noteq> 0"
    and "\<bar>fp_real x / fp_real y\<bar> \<le> 2 powi (emax t + MANT_DIG t - 1)"
  shows "rounded t (fp_real x / fp_real y) (fp_div t x y)"
proof -
  obtain n d s where r: "0 \<le> n" "0 < d" "real_of_int n / real_of_int d = \<bar>fp_real x / fp_real y\<bar>"
    "fp_div t x y = round_fp t s n d" "(if s then - 1 else 1) * \<bar>fp_real x / fp_real y\<bar> = fp_real x / fp_real y"
    by (rule fp_div_round [OF assms(1-5)])
  show ?thesis unfolding r(4) by (rule round_fp_rounded [OF r(1,2) _ assms(6)]) (simp only: r(3,5))
qed

lemma rounded_zero:
  assumes "finite_fp z" "canonical t z" "fp_real z = 0"
  shows "rounded t 0 z"
  using assms by (simp add: rounded_def rounding_error_def)

lemma rounded_sub:
  assumes "finite_fp x" "finite_fp y"
    and "\<bar>fp_real x - fp_real y\<bar> \<le> 2 powi (emax t + MANT_DIG t - 1)"
  shows "rounded t (fp_real x - fp_real y) (fp_sub t x y)"
  unfolding fp_sub_def
proof (rule fp_add_round [of x "fp_neg y" t])
  assume "fp_real x + fp_real (fp_neg y) = 0" "fp_real (fp_add t x (fp_neg y)) = 0" "finite_fp (fp_add t x (fp_neg y))"
  then show "rounded t (fp_real x - fp_real y) (fp_add t x (fp_neg y))"
    by (simp add: rounded_zero)
next
  fix n d assume r: "0 \<le> n" "0 < d" "real_of_int n / real_of_int d = \<bar>fp_real x + fp_real (fp_neg y)\<bar>"
    "fp_add t x (fp_neg y) = round_fp t (fp_real x + fp_real (fp_neg y) < 0) n d"
  show "rounded t (fp_real x - fp_real y) (fp_add t x (fp_neg y))"
    unfolding r(4) by (rule round_fp_rounded [OF r(1,2) _ assms(3)]) (simp add: r(3))
qed (use assms in simp_all)

lemma roundedD:
  assumes "rounded t v z"
  shows "finite_fp z" "canonical t z" "\<bar>fp_real z - v\<bar> \<le> rounding_error t v"
    "representable t v \<Longrightarrow> fp_real z = v"
    "0 \<le> v \<Longrightarrow> 0 \<le> r \<Longrightarrow> representable t r \<Longrightarrow> v \<le> r \<Longrightarrow> fp_real z \<le> r"
    "0 \<le> v \<Longrightarrow> 0 \<le> r \<Longrightarrow> representable t r \<Longrightarrow> r \<le> v \<Longrightarrow> r \<le> fp_real z"
  using assms by (simp_all add: rounded_def)

lemma rounding_error_le:
  assumes "\<bar>v\<bar> \<le> b" "2 powi (emin t + MANT_DIG t - 1) \<le> b"
  shows "rounding_error t v \<le> b / 2 powi (MANT_DIG t)"
proof -
  have "2 powi (emin t) / 2 = 2 powi (emin t + MANT_DIG t - 1) / (2 :: real) powi (MANT_DIG t)"
    by (simp add: power_int_add power_int_diff)
  also have "\<dots> \<le> b / 2 powi (MANT_DIG t)" using assms(2) by (intro divide_right_mono) simp_all
  finally have "2 powi (emin t) / 2 \<le> b / 2 powi (MANT_DIG t)" .
  moreover have "\<bar>v\<bar> / 2 powi (MANT_DIG t) \<le> b / 2 powi (MANT_DIG t)"
    using assms(1) by (intro divide_right_mono) simp_all
  ultimately show ?thesis by (simp add: rounding_error_def)
qed

lemma type_range:
  "2 powi (emin t + MANT_DIG t - 1) \<le> (1 / 10 ^ 36 :: real)" "(10 ^ 36 :: real) \<le> 2 powi (emax t + MANT_DIG t - 1)"
proof -
  have "(2 :: real) powi (emin t + MANT_DIG t - 1) \<le> 2 powi (- 126)"
    by (rule powi_mono) (cases t; simp add: emin_def)
  also have "\<dots> \<le> 1 / 10 ^ 36" by (simp add: power_int_minus field_simps)
  finally show "2 powi (emin t + MANT_DIG t - 1) \<le> (1 / 10 ^ 36 :: real)" .
  have "(10 :: real) ^ 36 \<le> 2 powi 127" by simp
  also have "\<dots> \<le> 2 powi (emax t + MANT_DIG t - 1)"
    by (rule powi_mono) (cases t; simp add: emax_def)
  finally show "(10 ^ 36 :: real) \<le> 2 powi (emax t + MANT_DIG t - 1)" .
qed

lemma rounded_error_le:
  assumes "rounded t v z" "\<bar>v\<bar> \<le> b" "1 / 10 ^ 36 \<le> b"
  shows "\<bar>fp_real z - v\<bar> \<le> b / 2 powi (MANT_DIG t)"
  by (rule order_trans [OF roundedD(3) [OF assms(1)] rounding_error_le [OF assms(2) order_trans [OF type_range(1) assms(3)]]])

end
