(* ===== verification/Printf_Float.thy ===== *)
theory Printf_Float
  imports Printf_Integer Ieee
begin

text \<open>
  Floating-point conversion of \<^verbatim>\<open>sdk/librv/printf.c\<close>, for both choices of the internal
  type \<open>floating_point_t\<close>: \<open>t\<close> is \<open>Float\<close> or \<open>Double\<close>.  Every operation of the source is
  one rounded operation of \<open>Ieee\<close>: no excess precision, no fused operations.  The signed
  integers of the source, \<open>int\<close> and \<open>int_fast64_t\<close>, are integers; a conversion of a number
  that does not fit and an access behind the table of powers return \<open>None\<close>.

  The buffer is the list of its first \<open>len\<close> bytes, as in \<open>Printf_Integer\<close>.
\<close>

section \<open>Parameters of the internal type\<close>

definition FLAGS_ADAPT_EXP :: u32 where [c_consts]: "FLAGS_ADAPT_EXP = 4096"
definition PRINTF_DECIMAL_BUFFER_SIZE :: nat where "PRINTF_DECIMAL_BUFFER_SIZE = 32"
definition PRINTF_DEFAULT_FLOAT_PRECISION :: u32 where "PRINTF_DEFAULT_FLOAT_PRECISION = 6"
definition NUM_DECIMAL_DIGITS_IN_INT64_T :: int where "NUM_DECIMAL_DIGITS_IN_INT64_T = 18"
definition PRINTF_MAX_SUPPORTED_PRECISION :: u32 where
  "PRINTF_MAX_SUPPORTED_PRECISION = of_int (NUM_DECIMAL_DIGITS_IN_INT64_T - 1)"

definition PRINTF_MAX_PRECOMPUTED_POWER_OF_10 :: "fp_type \<Rightarrow> int" where
  "PRINTF_MAX_PRECOMPUTED_POWER_OF_10 t =
     (case t of Float \<Rightarrow> 10 | Double \<Rightarrow> NUM_DECIMAL_DIGITS_IN_INT64_T - 1)"

definition FP_TYPE_EXPONENT_MASK :: "fp_type \<Rightarrow> int" where
  "FP_TYPE_EXPONENT_MASK t = (case t of Float \<Rightarrow> 0xFF | Double \<Rightarrow> 0x7FF)"

definition FP_TYPE_MAX :: "fp_type \<Rightarrow> fp" where
  "FP_TYPE_MAX t = Fin False (pow2 (MANT_DIG t) - 1) (emax t)"

definition FP_TYPE_MAX_10_EXP :: "fp_type \<Rightarrow> int" where
  "FP_TYPE_MAX_10_EXP t = (case t of Float \<Rightarrow> 38 | Double \<Rightarrow> 308)"

definition FP_TYPE_MAX_SUBNORMAL_EXPONENT_OF_10 :: "fp_type \<Rightarrow> int" where
  "FP_TYPE_MAX_SUBNORMAL_EXPONENT_OF_10 t = (case t of Float \<Rightarrow> - 38 | Double \<Rightarrow> - 308)"

definition FP_TYPE_MAX_SUBNORMAL_POWER_OF_10 :: "fp_type \<Rightarrow> fp" where
  "FP_TYPE_MAX_SUBNORMAL_POWER_OF_10 t =
     (case t of Float \<Rightarrow> fp_literal Float 1 (10 ^ 38) | Double \<Rightarrow> fp_literal Double 1 (10 ^ 308))"

definition PRINTF_FLOAT_NOTATION_THRESHOLD :: "fp_type \<Rightarrow> fp" where
  "PRINTF_FLOAT_NOTATION_THRESHOLD t = fp_convert t (fp_literal Double 1000000000 1)"

definition FP_TYPE_STORED_MANTISSA_BITS :: "fp_type \<Rightarrow> int" where
  "FP_TYPE_STORED_MANTISSA_BITS t = MANT_DIG t - 1"

text \<open>A \<open>double\<close> literal converted to \<open>floating_point_t\<close>.\<close>

definition fp_const :: "fp_type \<Rightarrow> int \<Rightarrow> int \<Rightarrow> fp" where
  "fp_const t n d = fp_convert t (fp_literal Double n d)"

section \<open>Bit access\<close>

definition get_sign_bit :: "fp_type \<Rightarrow> fp \<Rightarrow> int" where
  "get_sign_bit t x = fp_bits t x div pow2 (SIZE_IN_BITS t - 1)"

text \<open>The argument is the integer member of the union.\<close>

definition get_exp2 :: "fp_type \<Rightarrow> int \<Rightarrow> int" where
  "get_exp2 t u = (u div pow2 (FP_TYPE_STORED_MANTISSA_BITS t) AND FP_TYPE_EXPONENT_MASK t) - BASE_EXPONENT t"

definition sign :: "bool \<Rightarrow> fp \<Rightarrow> fp" where
  "sign negative x = (if negative then fp_neg x else x)"

section \<open>Decimal components\<close>

record floating_point_components =
  integral :: int
  fractional :: int
  is_negative :: bool

definition powers_of_10 :: "fp_type \<Rightarrow> int \<Rightarrow> fp option" where
  "powers_of_10 t i =
     (if 0 \<le> i \<and> i \<le> PRINTF_MAX_PRECOMPUTED_POWER_OF_10 t
      then Some (fp_const t (10 ^ nat i) 1) else None)"

definition get_components :: "fp_type \<Rightarrow> fp \<Rightarrow> u32 \<Rightarrow> floating_point_components option" where
  "get_components t number precision = do {
     let one_half = fp_const t 1 2;
     let negative = get_sign_bit t number \<noteq> 0;
     let abs_number = sign negative number;
     i \<leftarrow> fp_trunc 64 abs_number;
     p \<leftarrow> powers_of_10 t (uint precision);
     let scaled_remainder = fp_mul t (fp_sub t abs_number (fp_of_int t i)) p;
     f \<leftarrow> fp_trunc 64 scaled_remainder;
     let remainder = fp_sub t scaled_remainder (fp_of_int t f);
     let f = (if fp_less one_half remainder \<or> fp_eq remainder one_half \<and> odd f then f + 1 else f);
     let (i, f) = (if fp_le p (fp_of_int t f) then (i + 1, 0) else (i, f));
     let i = (if precision = 0
       then let remainder = fp_sub t abs_number (fp_of_int t i) in
         if fp_eq remainder one_half \<and> odd i then i + 1 else i
       else i);
     Some \<lparr>integral = i, fractional = f, is_negative = negative\<rparr> }"

section \<open>Scaling\<close>

record scaling_factor =
  raw_factor :: fp
  multiply :: bool

definition apply_scaling :: "fp_type \<Rightarrow> fp \<Rightarrow> scaling_factor \<Rightarrow> fp" where
  "apply_scaling t num normalization =
     (if multiply normalization then fp_mul t num (raw_factor normalization)
      else fp_div t num (raw_factor normalization))"

definition unapply_scaling :: "fp_type \<Rightarrow> fp \<Rightarrow> scaling_factor \<Rightarrow> fp" where
  "unapply_scaling t normalized normalization =
     (if multiply normalization then fp_div t normalized (raw_factor normalization)
      else fp_mul t normalized (raw_factor normalization))"

definition update_normalization :: "fp_type \<Rightarrow> scaling_factor \<Rightarrow> fp \<Rightarrow> scaling_factor" where
  "update_normalization t sf extra =
     (if multiply sf then \<lparr>raw_factor = fp_mul t (raw_factor sf) extra, multiply = True\<rparr>
      else let factor_exp2 = get_exp2 t (fp_bits t (raw_factor sf));
               extra_factor_exp2 = get_exp2 t (fp_bits t extra)
        in if \<bar>extra_factor_exp2\<bar> < \<bar>factor_exp2\<bar>
           then \<lparr>raw_factor = fp_div t (raw_factor sf) extra, multiply = False\<rparr>
           else \<lparr>raw_factor = fp_div t extra (raw_factor sf), multiply = True\<rparr>)"

definition get_normalized_components ::
  "fp_type \<Rightarrow> bool \<Rightarrow> u32 \<Rightarrow> fp \<Rightarrow> scaling_factor \<Rightarrow> int \<Rightarrow> floating_point_components option" where
  "get_normalized_components t negative precision non_normalized normalization floored_exp10 =
     (let rounding_threshold = fp_const t 1 2;
          scaled = apply_scaling t non_normalized normalization;
          close_to_representation_extremum = (FP_TYPE_MAX_10_EXP t - 1 \<le> - floored_exp10 + sint precision)
      in if close_to_representation_extremum then get_components t (sign negative scaled) precision
      else do {
        i \<leftarrow> fp_trunc 64 scaled;
        let remainder = fp_sub t non_normalized (unapply_scaling t (fp_of_int t i) normalization);
        prec_power_of_10 \<leftarrow> powers_of_10 t (uint precision);
        let account_for_precision = update_normalization t normalization prec_power_of_10;
        let scaled_remainder = apply_scaling t remainder account_for_precision;
        f \<leftarrow> fp_trunc 64 scaled_remainder;
        let scaled_remainder = fp_sub t scaled_remainder (fp_of_int t f);
        let f = f + of_bool (fp_le rounding_threshold scaled_remainder);
        let f = (if fp_eq scaled_remainder rounding_threshold then f AND NOT 1 else f);
        let (i, f) = (if fp_le prec_power_of_10 (fp_of_int t f) then (i + 1, 0) else (i, f));
        Some \<lparr>integral = i, fractional = f, is_negative = negative\<rparr> })"

section \<open>Printing the components\<close>

text \<open>\<open>buf[len++] = c\<close>\<close>

definition push_decimal :: "u8 list \<Rightarrow> u8 \<Rightarrow> u8 list option" where
  "push_decimal buf c = (if length buf < PRINTF_DECIMAL_BUFFER_SIZE then Some (buf @ [c]) else None)"

text \<open>The loop that drops trailing zero digits; it is entered with a positive number only.\<close>

function skip_zero_digits :: "int \<Rightarrow> u32 \<Rightarrow> int \<times> u32" where
  "skip_zero_digits f count =
     (if f mod 10 \<noteq> 0 \<or> f \<le> 0 then (f, count) else skip_zero_digits (f div 10) (count - 1))"
  by pat_completeness auto
termination by (relation "measure (\<lambda>(f, _). nat f)") auto

declare skip_zero_digits.simps [simp del]

text \<open>
  The loops that write the digits of a number, least significant first; only the first of
  the two counts.
\<close>

function write_digits :: "int \<Rightarrow> u32 \<Rightarrow> u8 list \<Rightarrow> (u32 \<times> u8 list) option" where
  "write_digits f count buf =
     (if length buf < PRINTF_DECIMAL_BUFFER_SIZE then do {
        let count = count - 1;
        buf \<leftarrow> push_decimal buf (of_int (0x30 + f smod 10));
        let f = f sdiv 10;
        if f = 0 then Some (count, buf) else write_digits f count buf }
      else Some (count, buf))"
  by pat_completeness auto
termination
  by (relation "measure (\<lambda>(_, _, buf). PRINTF_DECIMAL_BUFFER_SIZE - length buf)")
     (auto simp: push_decimal_def split: if_splits)

declare write_digits.simps [simp del]

function extra_zeros :: "u32 \<Rightarrow> u8 list \<Rightarrow> u8 list option" where
  "extra_zeros count buf =
     (if length buf < PRINTF_DECIMAL_BUFFER_SIZE \<and> 0 < count then do {
        buf \<leftarrow> push_decimal buf 0x30;
        extra_zeros (count - 1) buf }
      else Some buf)"
  by pat_completeness auto
termination
  by (relation "measure (\<lambda>(_, buf). PRINTF_DECIMAL_BUFFER_SIZE - length buf)")
     (auto simp: push_decimal_def split: if_splits)

declare extra_zeros.simps [simp del]

function leading_zeros :: "u32 \<Rightarrow> u8 list \<Rightarrow> u8 list option" where
  "leading_zeros width buf =
     (if length buf < unat width \<and> length buf < PRINTF_DECIMAL_BUFFER_SIZE then do {
        buf \<leftarrow> push_decimal buf 0x30;
        leading_zeros width buf }
      else Some buf)"
  by pat_completeness auto
termination
  by (relation "measure (\<lambda>(_, buf). PRINTF_DECIMAL_BUFFER_SIZE - length buf)")
     (auto simp: push_decimal_def split: if_splits)

declare leading_zeros.simps [simp del]

text \<open>The block for the fractional part and the decimal point.\<close>

definition write_fraction :: "int \<Rightarrow> u32 \<Rightarrow> u32 \<Rightarrow> u8 list \<Rightarrow> u8 list option" where
  "write_fraction f precision flags buf =
     (if precision \<noteq> 0 then
        let count = precision;
            (f, count) = (if flag flags FLAGS_ADAPT_EXP \<and> \<not> flag flags FLAGS_HASH \<and> 0 < f
              then skip_zero_digits f count else (f, count))
        in if 0 < f \<or> \<not> flag flags FLAGS_ADAPT_EXP \<or> flag flags FLAGS_HASH
           then do {
             (count, buf) \<leftarrow> write_digits f count buf;
             buf \<leftarrow> extra_zeros count buf;
             if length buf < PRINTF_DECIMAL_BUFFER_SIZE then push_decimal buf 0x2E else Some buf }
           else Some buf
      else if flag flags FLAGS_HASH \<and> length buf < PRINTF_DECIMAL_BUFFER_SIZE
      then push_decimal buf 0x2E else Some buf)"

definition write_sign :: "bool \<Rightarrow> u32 \<Rightarrow> u8 list \<Rightarrow> u8 list option" where
  "write_sign negative flags buf =
     (if length buf < PRINTF_DECIMAL_BUFFER_SIZE then
        if negative then push_decimal buf 0x2D
        else if flag flags FLAGS_PLUS then push_decimal buf 0x2B
        else if flag flags FLAGS_SPACE then push_decimal buf 0x20
        else Some buf
      else Some buf)"

definition print_broken_up_decimal ::
  "floating_point_components \<Rightarrow> output_gadget_t \<Rightarrow> u32 \<Rightarrow> u32 \<Rightarrow> u32 \<Rightarrow> u8 list \<Rightarrow> output_gadget_t option" where
  "print_broken_up_decimal number output precision width flags buf = do {
     buf \<leftarrow> write_fraction (fractional number) precision flags buf;
     (_, buf) \<leftarrow> write_digits (integral number) 0 buf;
     let pad = (\<not> flag flags FLAGS_LEFT \<and> flag flags FLAGS_ZEROPAD);
     let width = (if pad \<and> width \<noteq> 0 \<and> (is_negative number \<or> flag flags (FLAGS_PLUS OR FLAGS_SPACE))
       then width - 1 else width);
     buf \<leftarrow> (if pad then leading_zeros width buf else Some buf);
     buf \<leftarrow> write_sign (is_negative number) flags buf;
     out_rev output buf (of_nat (length buf)) width flags }"

definition print_decimal_number ::
  "fp_type \<Rightarrow> output_gadget_t \<Rightarrow> fp \<Rightarrow> u32 \<Rightarrow> u32 \<Rightarrow> u32 \<Rightarrow> u8 list \<Rightarrow> output_gadget_t option" where
  "print_decimal_number t output number precision width flags buf = do {
     c \<leftarrow> get_components t number precision;
     print_broken_up_decimal c output precision width flags buf }"

section \<open>The decimal exponent\<close>

definition bastardized_floor :: "fp_type \<Rightarrow> fp \<Rightarrow> int option" where
  "bastardized_floor t x =
     (if fp_le (fp_of_int t 0) x then fp_trunc 32 x
      else do {
        n \<leftarrow> fp_trunc 32 x;
        Some (if fp_eq (fp_of_int t n) x then n else n - 1) })"

definition log10_of_positive :: "fp_type \<Rightarrow> fp \<Rightarrow> fp" where
  "log10_of_positive t positive_number =
     (let u = fp_bits t positive_number;
          exp2 = get_exp2 t u;
          u = (u AND (pow2 (FP_TYPE_STORED_MANTISSA_BITS t) - 1)) OR
              (BASE_EXPONENT t * pow2 (FP_TYPE_STORED_MANTISSA_BITS t));
          z = fp_sub t (fp_of_bits t u) (fp_const t 15 10);
          r = fp_const t 1760912590556812420 (10 ^ 19);
          r = fp_add t r (fp_mul t z (fp_const t 2895296546021678851 (10 ^ 19)));
          r = fp_sub t r (fp_mul t (fp_mul t z z) (fp_const t 0965098848673892950 (10 ^ 19)));
          r = fp_add t r (fp_mul t (fp_mul t (fp_mul t z z) z) (fp_const t 0428932821632841311 (10 ^ 19)))
      in fp_add t r (fp_mul t (fp_of_int t exp2) (fp_const t 30102999566398119521 (10 ^ 20))))"

definition pow10_of_int :: "fp_type \<Rightarrow> int \<Rightarrow> fp option" where
  "pow10_of_int t floored_exp10 =
     (if floored_exp10 = FP_TYPE_MAX_SUBNORMAL_EXPONENT_OF_10 t then Some (FP_TYPE_MAX_SUBNORMAL_POWER_OF_10 t)
      else do {
        exp2 \<leftarrow> bastardized_floor t (fp_add t
          (fp_mul t (fp_of_int t floored_exp10) (fp_const t 3321928094887362 (10 ^ 15))) (fp_const t 1 2));
        let z = fp_sub t (fp_mul t (fp_of_int t floored_exp10) (fp_const t 2302585092994046 (10 ^ 15)))
          (fp_mul t (fp_of_int t exp2) (fp_const t 6931471805599453 (10 ^ 16)));
        let z2 = fp_mul t z z;
        let n = fp_of_int t;
        let u = (exp2 + BASE_EXPONENT t) * pow2 (FP_TYPE_STORED_MANTISSA_BITS t) mod pow2 (SIZE_IN_BITS t);
        let r = fp_div t z2 (n 14);
        let r = fp_div t z2 (fp_add t (n 10) r);
        let r = fp_div t z2 (fp_add t (n 6) r);
        let r = fp_div t (fp_mul t (n 2) z) (fp_add t (fp_sub t (n 2) z) r);
        Some (fp_mul t (fp_of_bits t u) (fp_add t (n 1) r)) })"

text \<open>
  The first part of \<open>print_exponential_number\<close>: the exponent of a non-zero number, whether
  the table of powers covers it, and its power of ten.
\<close>

definition decimal_exponent :: "fp_type \<Rightarrow> fp \<Rightarrow> (int \<times> bool \<times> fp) option" where
  "decimal_exponent t abs_number = do {
     let exp10 = log10_of_positive t abs_number;
     floored_exp10 \<leftarrow> bastardized_floor t exp10;
     p10 \<leftarrow> pow10_of_int t floored_exp10;
     let (floored_exp10, p10) = (if fp_less abs_number p10
       then (floored_exp10 - 1, fp_div t p10 (fp_of_int t 10)) else (floored_exp10, p10));
     let covered = \<bar>floored_exp10\<bar> < PRINTF_MAX_PRECOMPUTED_POWER_OF_10 t;
     f \<leftarrow> (if covered then powers_of_10 t \<bar>floored_exp10\<bar> else Some p10);
     Some (floored_exp10, covered, f) }"

section \<open>Exponential notation\<close>

text \<open>
  For zero neither the coverage nor the factor is initialised; both are read for a non-zero
  exponent only.
\<close>

definition exponential_components ::
  "fp_type \<Rightarrow> bool \<Rightarrow> u32 \<Rightarrow> fp \<Rightarrow> (int \<times> floating_point_components) option" where
  "exponential_components t negative precision abs_number = do {
     (floored_exp10, normalization) \<leftarrow>
       (if fp_eq abs_number (fp_const t 0 1) then Some (0, None)
        else do {
          (e, covered, f) \<leftarrow> decimal_exponent t abs_number;
          Some (e, Some \<lparr>raw_factor = f, multiply = e < 0 \<and> covered\<rparr>) });
     c \<leftarrow> (if floored_exp10 = 0 then get_components t (sign negative abs_number) precision
       else do {
         n \<leftarrow> normalization;
         get_normalized_components t negative precision abs_number n floored_exp10 });
     Some (floored_exp10, c) }"

text \<open>The decision of \<open>%g\<close>, with the components and the precision of decimal notation.\<close>

definition adapt_to_decimal ::
  "fp_type \<Rightarrow> bool \<Rightarrow> u32 \<Rightarrow> fp \<Rightarrow> int \<Rightarrow> (u32 \<times> floating_point_components) option" where
  "adapt_to_decimal t negative precision abs_number floored_exp10 = do {
     let precision = (if floored_exp10 < sint precision
       then of_int (sint precision - floored_exp10) else 0);
     c \<leftarrow> get_components t (sign negative abs_number) precision;
     rolled \<leftarrow> (if - 1 \<le> floored_exp10 then do {
         p \<leftarrow> powers_of_10 t (floored_exp10 + 1);
         Some (fp_eq (fp_of_int t (integral c)) p) }
       else Some False);
     Some (if rolled \<and> 0 < precision then precision - 1 else precision, c) }"

text \<open>
  The second part of \<open>print_exponential_number\<close>: whether it falls back to decimal notation,
  the exponent after a roll-over, the precision and the components to print.
\<close>

definition exponential_parts ::
  "fp_type \<Rightarrow> bool \<Rightarrow> bool \<Rightarrow> u32 \<Rightarrow> fp \<Rightarrow> (bool \<times> int \<times> u32 \<times> floating_point_components) option" where
  "exponential_parts t adapt negative precision abs_number = do {
     (original_floored_exp10, c) \<leftarrow> exponential_components t negative precision abs_number;
     let (floored_exp10, c) = (if 10 \<le> integral c
       then (original_floored_exp10 + 1, c\<lparr>integral := 1, fractional := 0\<rparr>)
       else (original_floored_exp10, c));
     let fall_back = (adapt \<and> - 4 \<le> floored_exp10 \<and> floored_exp10 < sint precision + 1);
     (precision, c) \<leftarrow> (if fall_back
       then adapt_to_decimal t negative precision abs_number original_floored_exp10
       else Some (precision, c));
     Some (fall_back, floored_exp10, precision, c) }"

definition print_exponential_number ::
  "fp_type \<Rightarrow> output_gadget_t \<Rightarrow> fp \<Rightarrow> u32 \<Rightarrow> u32 \<Rightarrow> u32 \<Rightarrow> u8 list \<Rightarrow> output_gadget_t option" where
  "print_exponential_number t output number precision width flags buf = do {
     let negative = get_sign_bit t number \<noteq> 0;
     let adapt = flag flags FLAGS_ADAPT_EXP;
     let precision = (if adapt then if 1 < precision then precision - 1 else 0 else precision);
     let flags = (if adapt then flags OR FLAGS_PRECISION else flags);
     (fall_back, floored_exp10, precision, c) \<leftarrow>
       exponential_parts t adapt negative precision (sign negative number);
     let exp10_part_width = (if fall_back then 0 else if \<bar>floored_exp10\<bar> < 100 then 4 else 5);
     let decimal_part_width =
       (if flag flags FLAGS_LEFT \<and> exp10_part_width \<noteq> 0 then 0
        else if exp10_part_width < width then width - exp10_part_width else 0);
     let start_pos = g_pos output;
     output \<leftarrow> print_broken_up_decimal c output precision decimal_part_width flags buf;
     if \<not> fall_back then do {
       output \<leftarrow> putchar_via_gadget output (if flag flags FLAGS_UPPERCASE then 0x45 else 0x65);
       output \<leftarrow> print_integer output (ABS_FOR_PRINTING (of_int floored_exp10)) (floored_exp10 < 0)
         BASE_DECIMAL 0 (exp10_part_width - 1) (FLAGS_ZEROPAD OR FLAGS_PLUS);
       if flag flags FLAGS_LEFT then pad_right start_pos width output else Some output }
     else Some output }"

section \<open>The conversions\<close>

text \<open>The loop that keeps the fractional part within 64 bits.\<close>

function limit_precision :: "u32 \<Rightarrow> u8 list \<Rightarrow> (u32 \<times> u8 list) option" where
  "limit_precision precision buf =
     (if length buf < PRINTF_DECIMAL_BUFFER_SIZE \<and> PRINTF_MAX_SUPPORTED_PRECISION < precision then do {
        buf \<leftarrow> push_decimal buf 0x30;
        limit_precision (precision - 1) buf }
      else Some (precision, buf))"
  by pat_completeness auto
termination
  by (relation "measure (\<lambda>(_, buf). PRINTF_DECIMAL_BUFFER_SIZE - length buf)")
     (auto simp: push_decimal_def split: if_splits)

declare limit_precision.simps [simp del]

text \<open>
  \<open>exponential\<close> is \<^verbatim>\<open>PRINTF_SUPPORT_EXPONENTIAL_SPECIFIERS\<close>; without it no caller
  prefers the exponential notation.
\<close>

definition print_floating_point ::
  "bool \<Rightarrow> fp_type \<Rightarrow> output_gadget_t \<Rightarrow> fp \<Rightarrow> u32 \<Rightarrow> u32 \<Rightarrow> u32 \<Rightarrow> bool \<Rightarrow> output_gadget_t option" where
  "print_floating_point exponential t output x precision width flags prefer_exponential =
     (if \<not> fp_eq x x then out_rev output [0x6E, 0x61, 0x6E] 3 width flags
      else if fp_less x (fp_neg (FP_TYPE_MAX t)) then out_rev output [0x66, 0x6E, 0x69, 0x2D] 4 width flags
      else if fp_less (FP_TYPE_MAX t) x then
        if flag flags FLAGS_PLUS then out_rev output [0x66, 0x6E, 0x69, 0x2B] 4 width flags
        else out_rev output [0x66, 0x6E, 0x69] 3 width flags
      else if \<not> prefer_exponential \<and> (fp_less (PRINTF_FLOAT_NOTATION_THRESHOLD t) x \<or>
          fp_less x (fp_neg (PRINTF_FLOAT_NOTATION_THRESHOLD t))) then
        if exponential then print_exponential_number t output x precision width flags []
        else Some output
      else do {
        let precision = (if \<not> flag flags FLAGS_PRECISION then PRINTF_DEFAULT_FLOAT_PRECISION else precision);
        (precision, buf) \<leftarrow> limit_precision precision [];
        if exponential \<and> prefer_exponential
        then print_exponential_number t output x precision width flags buf
        else print_decimal_number t output x precision width flags buf })"

end
