(* ===== verification/Printf_Format.thy ===== *)
theory Printf_Format
  imports Printf_Float
begin

text \<open>
  The format interpreter of \<^verbatim>\<open>sdk/librv/printf.c\<close> for every configuration;
  \<^verbatim>\<open>printf_config.h\<close> selects the one without floating point, \<^verbatim>\<open>%n\<close> and the
  size prefixes of Microsoft.

  A \<open>const char *\<close> is the list of the bytes from the pointer to the end of the array
  it points into, so that \<open>p++\<close> drops the first and reading past the array is the
  empty list.  The variable arguments are a list of typed values; taking one of another type
  fails.  The target \<open>tg\<close> gives the data model (\<open>long\<close>, \<open>size_t\<close> and pointers of 64 bits, or
  of 32) and the options of the build that select conversions.
\<close>

section \<open>The target\<close>

record target =
  lp64 :: bool
  decimal_specifiers :: bool
  exponential_specifiers :: bool
  internal_type :: fp_type
  writeback_specifier :: bool
  msvc_specifiers :: bool

text \<open>The options of \<^verbatim>\<open>printf_config.h\<close>, for both data models.\<close>

definition printf_config :: "bool \<Rightarrow> target" where
  "printf_config is_lp64 = \<lparr>lp64 = is_lp64, decimal_specifiers = False, exponential_specifiers = False,
     internal_type = Float, writeback_specifier = False, msvc_specifiers = False\<rparr>"

section \<open>Control flow\<close>

text \<open>
  Undefined behaviour, the early return of \<open>ADVANCE_IN_FORMAT_STRING\<close>, or going on.
\<close>

datatype 'a flow = Undefined | Return | Next 'a

primrec flow_bind :: "'a flow \<Rightarrow> ('a \<Rightarrow> 'b flow) \<Rightarrow> 'b flow" where
  "flow_bind Undefined f = Undefined"
| "flow_bind Return f = Return"
| "flow_bind (Next x) f = f x"

text \<open>\<open>*format\<close> and \<open>ADVANCE_IN_FORMAT_STRING(format)\<close>\<close>

definition peek :: "u8 list \<Rightarrow> u8 flow" where
  "peek format = (case format of [] \<Rightarrow> Undefined | c # _ \<Rightarrow> Next c)"

definition advance :: "u8 list \<Rightarrow> u8 list flow" where
  "advance format = (case format of
     _ # c # rest \<Rightarrow> if c = 0 then Return else Next (c # rest)
   | _ \<Rightarrow> Undefined)"

section \<open>Arguments\<close>

datatype va_arg =
    Arg_int u32
  | Arg_long u64
  | Arg_llong u64
  | Arg_str "u8 list option"
  | Arg_ptr u64
  | Arg_double fp
  | Arg_long_double fp
  | Arg_ref nat

definition next_int :: "va_arg list \<Rightarrow> (u32 \<times> va_arg list) option" where
  "next_int args = (case args of Arg_int v # args \<Rightarrow> Some (v, args) | _ \<Rightarrow> None)"

text \<open>A \<open>long\<close> as a 64-bit value, sign- or zero-extended when it has 32 bits.\<close>

definition next_long :: "target \<Rightarrow> va_arg list \<Rightarrow> (u64 \<times> va_arg list) option" where
  "next_long tg args = (case args of
     Arg_long v # args \<Rightarrow> Some (if lp64 tg then v else scast (ucast v :: u32), args) | _ \<Rightarrow> None)"

definition next_ulong :: "target \<Rightarrow> va_arg list \<Rightarrow> (u64 \<times> va_arg list) option" where
  "next_ulong tg args = (case args of
     Arg_long v # args \<Rightarrow> Some (if lp64 tg then v else ucast (ucast v :: u32), args) | _ \<Rightarrow> None)"

definition next_llong :: "va_arg list \<Rightarrow> (u64 \<times> va_arg list) option" where
  "next_llong args = (case args of Arg_llong v # args \<Rightarrow> Some (v, args) | _ \<Rightarrow> None)"

definition next_str :: "va_arg list \<Rightarrow> (u8 list option \<times> va_arg list) option" where
  "next_str args = (case args of Arg_str p # args \<Rightarrow> Some (p, args) | _ \<Rightarrow> None)"

definition next_ptr :: "target \<Rightarrow> va_arg list \<Rightarrow> (u64 \<times> va_arg list) option" where
  "next_ptr tg args = (case args of
     Arg_ptr v # args \<Rightarrow> Some (if lp64 tg then v else ucast (ucast v :: u32), args) | _ \<Rightarrow> None)"

text \<open>The argument of \<^verbatim>\<open>%n\<close> is a pointer to an integer, given by its location.\<close>

definition next_ref :: "va_arg list \<Rightarrow> (nat \<times> va_arg list) option" where
  "next_ref args = (case args of Arg_ref l # args \<Rightarrow> Some (l, args) | _ \<Rightarrow> None)"

text \<open>The argument of the floating-point conversions, as a number of the internal type.\<close>

definition next_float :: "target \<Rightarrow> u32 \<Rightarrow> va_arg list \<Rightarrow> (fp \<times> va_arg list) option" where
  "next_float tg flags args = (case args of
     Arg_double x # args \<Rightarrow>
       if flag flags FLAGS_LONG_DOUBLE then None else Some (fp_convert (internal_type tg) x, args)
   | Arg_long_double x # args \<Rightarrow>
       if flag flags FLAGS_LONG_DOUBLE then Some (fp_convert (internal_type tg) x, args) else None
   | _ \<Rightarrow> None)"

definition of_option :: "'a option \<Rightarrow> 'a flow" where
  "of_option x = (case x of None \<Rightarrow> Undefined | Some v \<Rightarrow> Next v)"

section \<open>Parsing a conversion specification\<close>

definition is_digit :: "u8 \<Rightarrow> bool" where
  "is_digit ch \<longleftrightarrow> 0x30 \<le> ch \<and> ch \<le> 0x39"

text \<open>The loop of \<open>atou_\<close> with its accumulator \<open>i\<close>.\<close>

fun atou_loop :: "u32 \<Rightarrow> u8 list \<Rightarrow> (u32 \<times> u8 list) flow" where
  "atou_loop i [] = Undefined"
| "atou_loop i (c # str) =
     (if is_digit c then atou_loop (i * 10 + (ucast c - 0x30)) str else Next (i, c # str))"

definition atou :: "u8 list \<Rightarrow> (u32 \<times> u8 list) flow" where
  "atou str = atou_loop 0 str"

fun parse_flags_loop :: "u32 \<Rightarrow> u8 list \<Rightarrow> (u32 \<times> u8 list) flow" where
  "parse_flags_loop flags [] = Undefined"
| "parse_flags_loop flags (c # format) =
     (if c = 0x30 then parse_flags_loop (flags OR FLAGS_ZEROPAD) format
      else if c = 0x2D then parse_flags_loop (flags OR FLAGS_LEFT) format
      else if c = 0x2B then parse_flags_loop (flags OR FLAGS_PLUS) format
      else if c = 0x20 then parse_flags_loop (flags OR FLAGS_SPACE) format
      else if c = 0x23 then parse_flags_loop (flags OR FLAGS_HASH) format
      else Next (flags, c # format))"

definition parse_flags :: "u8 list \<Rightarrow> (u32 \<times> u8 list) flow" where
  "parse_flags format = parse_flags_loop 0 format"

text \<open>The width field; the result is \<open>flags\<close>, \<open>width\<close>, \<open>format\<close> and the arguments.\<close>

definition parse_width ::
  "u32 \<Rightarrow> u8 list \<Rightarrow> va_arg list \<Rightarrow> (u32 \<times> u32 \<times> u8 list \<times> va_arg list) flow" where
  "parse_width flags format args =
     flow_bind (peek format) (\<lambda>c.
       if is_digit c then
         flow_bind (atou format) (\<lambda>(width, format). Next (flags, width, format, args))
       else if c = 0x2A then
         flow_bind (of_option (next_int args)) (\<lambda>(w, args).
           let (flags, width) = (if w <s 0 then (flags OR FLAGS_LEFT, - w) else (flags, w)) in
           flow_bind (advance format) (\<lambda>format. Next (flags, width, format, args)))
       else Next (flags, 0, format, args))"

text \<open>The loop that skips a negative precision: \<open>do { ADVANCE } while (is_digit_(*format))\<close>.\<close>

fun skip_digits :: "u8 list \<Rightarrow> u8 list flow" where
  "skip_digits (_ # c # format) =
     (if c = 0 then Return
      else if is_digit c then skip_digits (c # format) else Next (c # format))"
| "skip_digits _ = Undefined"

definition parse_precision ::
  "u32 \<Rightarrow> u8 list \<Rightarrow> va_arg list \<Rightarrow> (u32 \<times> u32 \<times> u8 list \<times> va_arg list) flow" where
  "parse_precision flags format args =
     flow_bind (peek format) (\<lambda>c.
       if c = 0x2E then
         let flags = flags OR FLAGS_PRECISION in
         flow_bind (advance format) (\<lambda>format.
         flow_bind (peek format) (\<lambda>c.
           if c = 0x2D then
             flow_bind (skip_digits format) (\<lambda>format.
               Next (flags AND NOT FLAGS_PRECISION, 0, format, args))
           else if is_digit c then
             flow_bind (atou format) (\<lambda>(precision, format). Next (flags, precision, format, args))
           else if c = 0x2A then
             flow_bind (of_option (next_int args)) (\<lambda>(p, args).
               let (flags, precision) =
                 (if p <s 0 then (flags AND NOT FLAGS_PRECISION, 0) else (flags, p)) in
               flow_bind (advance format) (\<lambda>format. Next (flags, precision, format, args)))
           else Next (flags, 0, format, args)))
       else Next (flags, 0, format, args))"

text \<open>The flag for a type of the width of \<open>long\<close>: \<open>size_t\<close> and \<open>ptrdiff_t\<close>.\<close>

definition long_sized_flag :: "target \<Rightarrow> u32" where
  "long_sized_flag tg = (if lp64 tg then FLAGS_LONG else FLAGS_INT)"

definition intmax_flag :: "target \<Rightarrow> u32" where
  "intmax_flag tg = (if lp64 tg then FLAGS_LONG else FLAGS_LONG_LONG)"

text \<open>The flags for integers of a fixed width, and the prefix \<open>I\<close> with a number of bits.\<close>

definition FLAGS_INT8 :: u32 where "FLAGS_INT8 = FLAGS_CHAR"
definition FLAGS_INT16 :: u32 where "FLAGS_INT16 = FLAGS_SHORT"
definition FLAGS_INT32 :: u32 where "FLAGS_INT32 = FLAGS_INT"
definition FLAGS_INT64 :: "target \<Rightarrow> u32" where
  "FLAGS_INT64 tg = (if lp64 tg then FLAGS_LONG else FLAGS_LONG_LONG)"

definition parse_msvc_length :: "target \<Rightarrow> u32 \<Rightarrow> u8 list \<Rightarrow> (u32 \<times> u8 list) flow" where
  "parse_msvc_length tg flags format =
     flow_bind (advance format) (\<lambda>format. flow_bind (peek format) (\<lambda>c.
       if c = 0x38 then flow_bind (advance format) (\<lambda>format. Next (flags OR FLAGS_INT8, format))
       else if c = 0x31 then
         flow_bind (advance format) (\<lambda>format. flow_bind (peek format) (\<lambda>c.
           if c = 0x36 then Next (flags OR FLAGS_INT16, drop 1 format) else Next (flags, format)))
       else if c = 0x33 then
         flow_bind (advance format) (\<lambda>format. flow_bind (peek format) (\<lambda>c.
           if c = 0x32 then flow_bind (advance format) (\<lambda>format. Next (flags OR FLAGS_INT32, format))
           else Next (flags, format)))
       else if c = 0x36 then
         flow_bind (advance format) (\<lambda>format. flow_bind (peek format) (\<lambda>c.
           if c = 0x34 then flow_bind (advance format) (\<lambda>format. Next (flags OR FLAGS_INT64 tg, format))
           else Next (flags, format)))
       else Next (flags, format)))"

definition parse_length :: "target \<Rightarrow> u32 \<Rightarrow> u8 list \<Rightarrow> (u32 \<times> u8 list) flow" where
  "parse_length tg flags format =
     flow_bind (peek format) (\<lambda>c.
       if c = 0x49 \<and> msvc_specifiers tg then parse_msvc_length tg flags format
       else if c = 0x6C then
         flow_bind (advance format) (\<lambda>format. flow_bind (peek format) (\<lambda>c.
           if c = 0x6C then flow_bind (advance format) (\<lambda>format.
             Next (flags OR FLAGS_LONG OR FLAGS_LONG_LONG, format))
           else Next (flags OR FLAGS_LONG, format)))
       else if c = 0x4C then
         flow_bind (advance format) (\<lambda>format. Next (flags OR FLAGS_LONG_DOUBLE, format))
       else if c = 0x68 then
         flow_bind (advance format) (\<lambda>format. flow_bind (peek format) (\<lambda>c.
           if c = 0x68 then flow_bind (advance format) (\<lambda>format.
             Next (flags OR FLAGS_SHORT OR FLAGS_CHAR, format))
           else Next (flags OR FLAGS_SHORT, format)))
       else if c = 0x74 then
         flow_bind (advance format) (\<lambda>format. Next (flags OR long_sized_flag tg, format))
       else if c = 0x6A then
         flow_bind (advance format) (\<lambda>format. Next (flags OR intmax_flag tg, format))
       else if c = 0x7A then
         flow_bind (advance format) (\<lambda>format. Next (flags OR long_sized_flag tg, format))
       else Next (flags, format))"

section \<open>Printing a conversion\<close>

text \<open>The argument of \<open>d\<close> and \<open>i\<close>, and that of \<open>u\<close>, \<open>x\<close>, \<open>X\<close>, \<open>o\<close> and \<open>b\<close>.\<close>

definition signed_arg :: "target \<Rightarrow> u32 \<Rightarrow> va_arg list \<Rightarrow> (u64 \<times> va_arg list) option" where
  "signed_arg tg flags args =
     (if flag flags FLAGS_LONG_LONG then next_llong args
      else if flag flags FLAGS_LONG then next_long tg args
      else do {
        (v, args) \<leftarrow> next_int args;
        Some (if flag flags FLAGS_CHAR then scast (ucast v :: u8)
          else if flag flags FLAGS_SHORT then scast (ucast v :: u16)
          else scast v, args) })"

definition unsigned_arg :: "target \<Rightarrow> u32 \<Rightarrow> va_arg list \<Rightarrow> (u64 \<times> va_arg list) option" where
  "unsigned_arg tg flags args =
     (if flag flags FLAGS_LONG_LONG then next_llong args
      else if flag flags FLAGS_LONG then next_ulong tg args
      else do {
        (v, args) \<leftarrow> next_int args;
        Some (if flag flags FLAGS_CHAR then ucast (ucast v :: u8)
          else if flag flags FLAGS_SHORT then ucast (ucast v :: u16)
          else ucast v, args) })"

text \<open>The cases \<open>d i u x X o b\<close>, for the specifier \<open>c\<close>.\<close>

definition conv_base :: "u8 \<Rightarrow> u8" where
  "conv_base c =
     (if c = 0x78 \<or> c = 0x58 then BASE_HEX
      else if c = 0x6F then BASE_OCTAL
      else if c = 0x62 then BASE_BINARY
      else BASE_DECIMAL)"

definition conv_flags :: "u8 \<Rightarrow> u32 \<Rightarrow> u32" where
  "conv_flags c flags =
     (let flags = (if c = 0x64 \<or> c = 0x69 then flags OR FLAGS_SIGNED else flags);
          flags = (if conv_base c = BASE_DECIMAL then flags AND NOT FLAGS_HASH else flags);
          flags = (if c = 0x58 then flags OR FLAGS_UPPERCASE else flags)
      in if flag flags FLAGS_PRECISION then flags AND NOT FLAGS_ZEROPAD else flags)"

definition print_integer_conv ::
  "target \<Rightarrow> output_gadget_t \<Rightarrow> u8 \<Rightarrow> u32 \<Rightarrow> u32 \<Rightarrow> u32 \<Rightarrow> va_arg list \<Rightarrow>
     (output_gadget_t \<times> va_arg list) option" where
  "print_integer_conv tg output c flags width precision args =
     (let base = conv_base c; flags = conv_flags c flags in
      if flag flags FLAGS_SIGNED then do {
        (value, args) \<leftarrow> signed_arg tg flags args;
        output \<leftarrow> print_integer output (ABS_FOR_PRINTING value) (value <s 0) base precision width flags;
        Some (output, args) }
      else do {
        let flags = flags AND NOT (FLAGS_PLUS OR FLAGS_SPACE);
        (value, args) \<leftarrow> unsigned_arg tg flags args;
        output \<leftarrow> print_integer output value False base precision width flags;
        Some (output, args) })"

text \<open>The cases \<open>c\<close>, \<open>s\<close> and \<open>p\<close>\<close>

definition print_char_conv ::
  "output_gadget_t \<Rightarrow> u32 \<Rightarrow> u32 \<Rightarrow> va_arg list \<Rightarrow> (output_gadget_t \<times> va_arg list) option" where
  "print_char_conv output flags width args = do {
     output \<leftarrow> (if \<not> flag flags FLAGS_LEFT then pad_spaces 1 width output else Some output);
     (v, args) \<leftarrow> next_int args;
     output \<leftarrow> putchar_via_gadget output (ucast v);
     output \<leftarrow> (if flag flags FLAGS_LEFT then pad_spaces 1 width output else Some output);
     Some (output, args) }"

fun strnlen_s :: "u8 list \<Rightarrow> u32 \<Rightarrow> u32 option" where
  "strnlen_s [] maxsize = None"
| "strnlen_s (c # str) maxsize =
     (if c \<noteq> 0 \<and> maxsize \<noteq> 0 then do { n \<leftarrow> strnlen_s str (maxsize - 1); Some (n + 1) }
      else Some 0)"

fun put_string :: "u32 \<Rightarrow> u32 \<Rightarrow> u8 list \<Rightarrow> output_gadget_t \<Rightarrow> output_gadget_t option" where
  "put_string flags precision [] output = None"
| "put_string flags precision (c # p) output =
     (if c \<noteq> 0 \<and> (\<not> flag flags FLAGS_PRECISION \<or> precision \<noteq> 0) then do {
        output \<leftarrow> putchar_via_gadget output c;
        put_string flags (precision - 1) p output }
      else Some output)"

definition print_string_conv ::
  "output_gadget_t \<Rightarrow> u32 \<Rightarrow> u32 \<Rightarrow> u32 \<Rightarrow> va_arg list \<Rightarrow> (output_gadget_t \<times> va_arg list) option" where
  "print_string_conv output flags width precision args = do {
     (s, args) \<leftarrow> next_str args;
     output \<leftarrow> (case s of
       None \<Rightarrow> out_rev output [0x29, 0x6C, 0x6C, 0x75, 0x6E, 0x28] 6 width flags
     | Some p \<Rightarrow> do {
         l \<leftarrow> strnlen_s p (if precision \<noteq> 0 then precision else PRINTF_MAX_POSSIBLE_BUFFER_SIZE);
         let l = (if flag flags FLAGS_PRECISION then if l < precision then l else precision else l);
         output \<leftarrow> (if \<not> flag flags FLAGS_LEFT then pad_spaces l width output else Some output);
         output \<leftarrow> put_string flags precision p output;
         if flag flags FLAGS_LEFT then pad_spaces l width output else Some output });
     Some (output, args) }"

definition print_pointer_conv ::
  "target \<Rightarrow> output_gadget_t \<Rightarrow> u32 \<Rightarrow> u32 \<Rightarrow> va_arg list \<Rightarrow> (output_gadget_t \<times> va_arg list) option" where
  "print_pointer_conv tg output flags precision args =
     (let width = (if lp64 tg then 8 else 4) * 2 + 2; flags = flags OR (FLAGS_ZEROPAD OR FLAGS_POINTER)
      in do {
        (value, args) \<leftarrow> next_ptr tg args;
        output \<leftarrow> (if value = 0 then out_rev output [0x29, 0x6C, 0x69, 0x6E, 0x28] 5 width flags
          else print_integer output value False BASE_HEX precision width flags);
        Some (output, args) })"

text \<open>The cases \<open>f F\<close> and \<open>e E g G\<close>\<close>

definition print_float_conv ::
  "target \<Rightarrow> output_gadget_t \<Rightarrow> u8 \<Rightarrow> u32 \<Rightarrow> u32 \<Rightarrow> u32 \<Rightarrow> va_arg list \<Rightarrow>
     (output_gadget_t \<times> va_arg list) option" where
  "print_float_conv tg output c flags width precision args = do {
     (x, args) \<leftarrow> next_float tg flags args;
     let flags = (if c = 0x67 \<or> c = 0x47 then flags OR FLAGS_ADAPT_EXP else flags);
     let flags = (if c = 0x46 \<or> c = 0x45 \<or> c = 0x47 then flags OR FLAGS_UPPERCASE else flags);
     output \<leftarrow> print_floating_point (exponential_specifiers tg) (internal_type tg) output x precision
       width flags (c \<noteq> 0x66 \<and> c \<noteq> 0x46);
     Some (output, args) }"

definition is_float_conv :: "target \<Rightarrow> u8 \<Rightarrow> bool" where
  "is_float_conv tg c \<longleftrightarrow> decimal_specifiers tg \<and> c \<in> {0x66, 0x46} \<or>
     exponential_specifiers tg \<and> c \<in> {0x65, 0x45, 0x67, 0x47}"

lemma no_float_conv [simp]:
  "c \<notin> {0x66, 0x46, 0x65, 0x45, 0x67, 0x47} \<Longrightarrow> \<not> is_float_conv tg c"
  by (auto simp: is_float_conv_def)

text \<open>
  The case \<open>n\<close>: the number of characters so far, stored with the size of the type the flags
  select, least significant byte first.
\<close>

definition writeback_size :: "target \<Rightarrow> u32 \<Rightarrow> nat" where
  "writeback_size tg flags =
     (if flag flags FLAGS_CHAR then 1
      else if flag flags FLAGS_SHORT then 2
      else if flag flags FLAGS_LONG then if lp64 tg then 8 else 4
      else if flag flags FLAGS_LONG_LONG then 8
      else 4)"

definition object_bytes :: "nat \<Rightarrow> u64 \<Rightarrow> u8 list" where
  "object_bytes n v = map (\<lambda>i. ucast (drop_bit (8 * i) v)) [0..<n]"

definition print_writeback_conv ::
  "target \<Rightarrow> output_gadget_t \<Rightarrow> u32 \<Rightarrow> va_arg list \<Rightarrow> (output_gadget_t \<times> va_arg list) option" where
  "print_writeback_conv tg output flags args = do {
     (l, args) \<leftarrow> next_ref args;
     Some (output\<lparr>g_stores := (l, object_bytes (writeback_size tg flags) (ucast (g_pos output))) # g_stores output\<rparr>,
       args) }"

text \<open>
  The \<open>switch\<close> on the specifier \<open>c\<close>.  Every case leaves \<open>format\<close> behind
  the specifier.
\<close>

definition print_conversion ::
  "target \<Rightarrow> output_gadget_t \<Rightarrow> u8 \<Rightarrow> u32 \<Rightarrow> u32 \<Rightarrow> u32 \<Rightarrow> va_arg list \<Rightarrow>
     (output_gadget_t \<times> va_arg list) option" where
  "print_conversion tg output c flags width precision args =
     (if c \<in> {0x64, 0x69, 0x75, 0x78, 0x58, 0x6F, 0x62}
      then print_integer_conv tg output c flags width precision args
      else if is_float_conv tg c then print_float_conv tg output c flags width precision args
      else if c = 0x63 then print_char_conv output flags width args
      else if c = 0x73 then print_string_conv output flags width precision args
      else if c = 0x70 then print_pointer_conv tg output flags precision args
      else if c = 0x6E \<and> writeback_specifier tg then print_writeback_conv tg output flags args
      else do { output \<leftarrow> putchar_via_gadget output c; Some (output, args) })"

text \<open>One pass of \<open>format_string_loop\<close> over \<open>format\<close>, which starts with \<open>c\<close>.\<close>

definition parse_specification ::
  "target \<Rightarrow> u8 list \<Rightarrow> va_arg list \<Rightarrow> (u32 \<times> u32 \<times> u32 \<times> u8 list \<times> va_arg list) flow" where
  "parse_specification tg format args =
     flow_bind (advance format) (\<lambda>format.
     flow_bind (parse_flags format) (\<lambda>(flags, format).
     flow_bind (parse_width flags format args) (\<lambda>(flags, width, format, args).
     flow_bind (parse_precision flags format args) (\<lambda>(flags, precision, format, args).
     flow_bind (parse_length tg flags format) (\<lambda>(flags, format).
       Next (flags, width, precision, format, args))))))"

definition format_step ::
  "target \<Rightarrow> output_gadget_t \<Rightarrow> u8 list \<Rightarrow> va_arg list \<Rightarrow>
     (output_gadget_t \<times> u8 list \<times> va_arg list) flow" where
  "format_step tg output format args =
     flow_bind (peek format) (\<lambda>c.
       if c \<noteq> 0x25 then
         flow_bind (of_option (putchar_via_gadget output c)) (\<lambda>output.
           Next (output, drop 1 format, args))
       else
         flow_bind (parse_specification tg format args)
           (\<lambda>(flags, width, precision, format, args).
         flow_bind (peek format) (\<lambda>c.
         flow_bind (of_option (print_conversion tg output c flags width precision args))
           (\<lambda>(output, args). Next (output, drop 1 format, args)))))"

section \<open>The format gets shorter\<close>

lemma flow_bind_Next: "flow_bind m f = Next y \<longleftrightarrow> (\<exists>x. m = Next x \<and> f x = Next y)"
  by (cases m) simp_all

lemma peek_Next: "peek format = Next c \<longleftrightarrow> (\<exists>rest. format = c # rest)"
  by (auto simp: peek_def split: list.splits)

lemma of_option_Next: "of_option x = Next v \<longleftrightarrow> x = Some v"
  by (auto simp: of_option_def split: option.splits)

lemma advance_length: "advance format = Next format' \<Longrightarrow> length format' < length format"
  by (auto simp: advance_def split: list.splits if_splits)

lemma atou_loop_length: "atou_loop i format = Next (n, format') \<Longrightarrow> length format' \<le> length format"
  by (induction i format rule: atou_loop.induct) (auto split: if_splits)

lemma parse_flags_loop_length:
  "parse_flags_loop flags format = Next (flags', format') \<Longrightarrow> length format' \<le> length format"
  by (induction flags format rule: parse_flags_loop.induct) (auto split: if_splits)

lemma skip_digits_length: "skip_digits format = Next format' \<Longrightarrow> length format' < length format"
  by (induction format rule: skip_digits.induct) (auto split: if_splits)

lemma parse_width_length:
  "parse_width flags format args = Next (flags', w, format', args') \<Longrightarrow> length format' \<le> length format"
  unfolding parse_width_def atou_def
  by (auto simp: flow_bind_Next split: if_splits dest!: atou_loop_length advance_length)

lemma parse_precision_length:
  "parse_precision flags format args = Next (flags', p, format', args') \<Longrightarrow> length format' \<le> length format"
  unfolding parse_precision_def atou_def
  by (auto simp: flow_bind_Next Let_def split: if_splits
      dest!: atou_loop_length advance_length skip_digits_length)

lemma parse_msvc_length_length:
  "parse_msvc_length tg flags format = Next (flags', format') \<Longrightarrow> length format' \<le> length format"
  unfolding parse_msvc_length_def
  by (auto simp: flow_bind_Next split: if_splits dest!: advance_length)

lemma parse_length_length:
  "parse_length tg flags format = Next (flags', format') \<Longrightarrow> length format' \<le> length format"
  unfolding parse_length_def
  by (auto simp: flow_bind_Next split: if_splits dest!: advance_length parse_msvc_length_length)

lemma parse_specification_length:
  "parse_specification tg format args = Next (flags, w, p, format', args') \<Longrightarrow>
    length format' < length format"
  unfolding parse_specification_def parse_flags_def
  by (fastforce simp: flow_bind_Next dest: advance_length parse_flags_loop_length parse_width_length
      parse_precision_length parse_length_length)

lemma format_step_length:
  "format_step tg output format args = Next (output', format', args') \<Longrightarrow>
    length format' < length format"
  unfolding format_step_def
  by (auto simp: flow_bind_Next peek_Next split: if_splits dest!: parse_specification_length)

section \<open>The loop\<close>

text \<open>
  \<open>while (*format)\<close>.  A pass that returns early has not written anything.
\<close>

function format_string_loop ::
  "target \<Rightarrow> output_gadget_t \<Rightarrow> u8 list \<Rightarrow> va_arg list \<Rightarrow> output_gadget_t option" where
  "format_string_loop tg output format args =
     (case peek format of
        Next c \<Rightarrow>
          if c = 0 then Some output
          else (case format_step tg output format args of
             Next (output, format, args) \<Rightarrow> format_string_loop tg output format args
           | Return \<Rightarrow> Some output
           | Undefined \<Rightarrow> None)
      | _ \<Rightarrow> None)"
  by pat_completeness auto

termination
  by (relation "measure (\<lambda>(_, _, format, _). length format)") (auto dest: format_step_length)

declare format_string_loop.simps [simp del]

end
