(* ===== verification/Printf_Decimal.thy ===== *)
theory Printf_Decimal
  imports Printf_Float
begin

text \<open>
  Decimal notation, the conversion \<^verbatim>\<open>%f\<close> of \<^verbatim>\<open>sdk/librv/printf.c\<close>: the buffer
  of a number never overflows, the components are the decimal number nearest to the argument
  up to one rounding error of the scaled fraction, and the text shows their digits.
\<close>

section \<open>The buffer\<close>

lemma push_decimal_Some: "length buf < 32 \<Longrightarrow> push_decimal buf c = Some (buf @ [c])"
  by (simp add: push_decimal_def PRINTF_DECIMAL_BUFFER_SIZE_def)

lemma digit_of_int:
  assumes "0 \<le> f"
  shows "48 + word_of_int (f smod 10) = digit_ascii False (nat f mod 10)" "f sdiv 10 = f div 10"
proof -
  have f: "f smod 10 = f mod 10" "f sdiv 10 = f div 10"
    using assms by (simp_all add: signed_modulo_int_def signed_divide_int_def sgn_if)
  have "nat f mod 10 < 10" by simp
  moreover have "0x30 + f smod 10 = int (48 + nat f mod 10)"
    using assms by (simp add: f nat_mod_distrib zmod_int)
  ultimately have "(of_int (0x30 + f smod 10) :: u8) = digit_ascii False (nat f mod 10)"
    by (simp only: digit_ascii_def if_True of_int_of_nat_eq)
  then show "48 + word_of_int (f smod 10) = digit_ascii False (nat f mod 10)" by simp
  show "f sdiv 10 = f div 10" by (rule f)
qed

lemma write_digits_eq:
  assumes "0 \<le> f" "length buf < 32"
  shows "write_digits f count buf =
    (let ds = digits (32 - length buf) 10 (nat f) in
     Some (count - of_nat (length ds), buf @ map (digit_ascii False) ds))"
  using assms
proof (induction f count buf rule: write_digits.induct)
  case (1 f count buf)
  obtain k where k: "32 - length buf = Suc k" using 1(3) by (cases "32 - length buf") auto
  have push: "push_decimal buf c = Some (buf @ [c])" for c using 1(3) by (rule push_decimal_Some)
  have z: "f div 10 = 0 \<longleftrightarrow> nat f div 10 = 0" "nat (f div 10) = nat f div 10"
    using 1(2) by (simp_all add: nat_div_distrib) linarith
  show ?case
  proof (cases "f div 10 = 0")
    case True
    then show ?thesis
      using 1(2,3) k z by (subst write_digits.simps)
        (simp add: push PRINTF_DECIMAL_BUFFER_SIZE_def digit_of_int [OF 1(2)] Let_def)
  next
    case False
    have len: "length buf < PRINTF_DECIMAL_BUFFER_SIZE" using 1(3) by (simp add: PRINTF_DECIMAL_BUFFER_SIZE_def)
    show ?thesis
    proof (cases "k = 0")
      case True
      then have "write_digits (f div 10) c (buf @ [x]) = Some (c, buf @ [x])" for c x
        using k by (subst write_digits.simps) (auto simp: PRINTF_DECIMAL_BUFFER_SIZE_def)
      then show ?thesis
        using False True len k by (subst write_digits.simps)
          (simp add: push digit_of_int [OF 1(2)] Let_def)
    next
      case nz: False
      then have l: "Suc (length buf) < 32" "31 - length buf = k" using k by linarith+
      from 1(1) [OF len refl push, of "f sdiv 10"] False l z 1(2)
      show ?thesis
        using len k by (subst write_digits.simps)
          (simp add: push digit_of_int [OF 1(2)] Let_def pos_imp_zdiv_nonneg_iff)
    qed
  qed
qed

lemma extra_zeros_eq:
  "length buf \<le> 32 \<Longrightarrow> extra_zeros count buf = Some (buf @ replicate (min (unat count) (32 - length buf)) 0x30)"
proof (induction count buf rule: extra_zeros.induct)
  case (1 count buf)
  show ?case
  proof (cases "length buf < 32 \<and> 0 < count")
    case True
    then have "unat count = Suc (unat (count - 1))"
      using unat_less_step(1) [of "count - 1" count]
      by (simp add: word_less_nat_alt unat_sub_if' unat_gt_0 Suc_le_eq)
    moreover have "32 - length buf = Suc (31 - length buf)" using True by linarith
    ultimately show ?thesis
      using 1 True by (subst extra_zeros.simps) (simp add: push_decimal_Some PRINTF_DECIMAL_BUFFER_SIZE_def)
  next
    case False
    then show ?thesis
      by (subst extra_zeros.simps) (auto simp: PRINTF_DECIMAL_BUFFER_SIZE_def word_gt_0 simp flip: word_neq_0_conv)
  qed
qed

lemma leading_zeros_eq: "length buf \<le> 32 \<Longrightarrow>
    leading_zeros width buf = Some (buf @ replicate (min (unat width) 32 - length buf) 0x30)"
proof -
  assume "length buf \<le> 32"
  have "leading_zeros width buf = pad_zeros width buf"
    by (induction width buf rule: pad_zeros.induct)
      (subst leading_zeros.simps, subst pad_zeros.simps,
        simp add: push_decimal_def push_def PRINTF_DECIMAL_BUFFER_SIZE_def PRINTF_INTEGER_BUFFER_SIZE_def)
  with \<open>length buf \<le> 32\<close> show ?thesis by (simp add: pad_zeros_eq)
qed

lemma write_sign_eq: "write_sign negative flags buf = Some (signed_text buf negative flags)"
  by (simp add: write_sign_def signed_text_def try_push_def push_decimal_def PRINTF_DECIMAL_BUFFER_SIZE_def)

text \<open>Whatever the numbers are, the buffer does not overflow.\<close>

lemma write_digits_total:
  "length buf \<le> 32 \<Longrightarrow> \<exists>c buf'. write_digits f count buf = Some (c, buf') \<and> length buf' \<le> 32"
proof (induction f count buf rule: write_digits.induct)
  case (1 f count buf)
  then show ?case
    by (subst write_digits.simps) (auto simp: push_decimal_def PRINTF_DECIMAL_BUFFER_SIZE_def Let_def)
qed

lemma write_fraction_total:
  assumes "length buf \<le> 32"
  shows "\<exists>buf'. write_fraction f precision flags buf = Some buf' \<and> length buf' \<le> 32"
proof -
  obtain f' c' where s: "(if flag flags FLAGS_ADAPT_EXP \<and> \<not> flag flags FLAGS_HASH \<and> 0 < f
      then skip_zero_digits f precision else (f, precision)) = (f', c')" by fastforce
  obtain c'' buf' where w: "write_digits f' c' buf = Some (c'', buf')" "length buf' \<le> 32"
    using write_digits_total [OF assms] by blast
  show ?thesis
    using assms w
    by (auto simp: write_fraction_def s extra_zeros_eq push_decimal_def PRINTF_DECIMAL_BUFFER_SIZE_def Let_def)
qed

section \<open>The text of the components\<close>

definition broken_up_text ::
  "floating_point_components \<Rightarrow> u32 \<Rightarrow> u32 \<Rightarrow> u32 \<Rightarrow> u8 list \<Rightarrow> u8 list option" where
  "broken_up_text number precision width flags buf = do {
     buf \<leftarrow> write_fraction (fractional number) precision flags buf;
     (_, buf) \<leftarrow> write_digits (integral number) 0 buf;
     let width = final_width (is_negative number) width flags;
     let buf = (if \<not> flag flags FLAGS_LEFT \<and> flag flags FLAGS_ZEROPAD
       then buf @ replicate (min (unat width) 32 - length buf) 0x30 else buf);
     Some (rev_text (signed_text buf (is_negative number) flags) width flags) }"

lemma print_broken_up_decimal_eq:
  assumes "length buf \<le> 32"
  shows "\<exists>xs. broken_up_text number precision width flags buf = Some xs \<and>
    (\<forall>g. print_broken_up_decimal number g precision width flags buf = put_all xs g)"
proof -
  obtain b1 where b1: "write_fraction (fractional number) precision flags buf = Some b1" "length b1 \<le> 32"
    using write_fraction_total [OF assms] by blast
  obtain c b2 where b2: "write_digits (integral number) 0 b1 = Some (c, b2)" "length b2 \<le> 32"
    using write_digits_total [OF b1(2)] by blast
  define w where "w = final_width (is_negative number) width flags"
  define b3 where "b3 = (if \<not> flag flags FLAGS_LEFT \<and> flag flags FLAGS_ZEROPAD
    then b2 @ replicate (min (unat w) 32 - length b2) 0x30 else b2)"
  have z: "(if \<not> flag flags FLAGS_LEFT \<and> flag flags FLAGS_ZEROPAD then leading_zeros w b2 else Some b2) = Some b3"
    using b2(2) by (simp add: b3_def leading_zeros_eq)
  have w': "(if (\<not> flag flags FLAGS_LEFT \<and> flag flags FLAGS_ZEROPAD) \<and> width \<noteq> 0 \<and>
      (is_negative number \<or> flag flags (FLAGS_PLUS OR FLAGS_SPACE)) then width - 1 else width) = w"
    by (auto simp: w_def final_width_def)
  have "length b3 \<le> 32" using b2(2) by (auto simp: b3_def)
  then have len: "length (signed_text b3 (is_negative number) flags) < 2 ^ 32"
    by (rule order_le_less_trans [OF length_signed_text]) simp
  have "print_broken_up_decimal number g precision width flags buf =
      put_all (rev_text (signed_text b3 (is_negative number) flags) w flags) g" for g
    unfolding print_broken_up_decimal_def Let_def w'
    by (simp add: b1 b2 z write_sign_eq out_rev_eq [OF len])
  moreover have "broken_up_text number precision width flags buf =
      Some (rev_text (signed_text b3 (is_negative number) flags) w flags)"
    by (simp add: broken_up_text_def b1 b2 w_def [symmetric] b3_def [symmetric] Let_def)
  ultimately show ?thesis by blast
qed

section \<open>The constants of the code\<close>

lemma fp_const_exact:
  assumes "0 \<le> n" "0 < d" "representable Double (real_of_int n / real_of_int d)"
    "representable t (real_of_int n / real_of_int d)"
  shows "finite_fp (fp_const t n d)" "canonical t (fp_const t n d)"
    "fp_real (fp_const t n d) = real_of_int n / real_of_int d"
proof -
  let ?l = "fp_literal Double n d"
  have l: "finite_fp ?l" "fp_real ?l = real_of_int n / real_of_int d" "valid_fp ?l"
    using round_fp_exact [OF assms(1,2,3), of False] canonical_valid [OF canonical_literal [OF assms(1,2)]]
    by (simp_all add: fp_literal_def)
  then show "canonical t (fp_const t n d)" by (simp add: fp_const_def)
  show "finite_fp (fp_const t n d)" "fp_real (fp_const t n d) = real_of_int n / real_of_int d"
    using fp_convert_exact [OF l(1,3), of t] l(2) assms(4) by (simp_all add: fp_const_def)
qed

lemma half:
  "finite_fp (fp_const t 1 2)" "canonical t (fp_const t 1 2)" "fp_real (fp_const t 1 2) = 1 / 2"
proof -
  have "representable u (1 / 2)" for u unfolding representable_def
    by (intro exI [of _ 1] exI [of _ "- 1"]) (cases u; simp add: pow2_eq emin_def emax_def)
  then show "finite_fp (fp_const t 1 2)" "canonical t (fp_const t 1 2)" "fp_real (fp_const t 1 2) = 1 / 2"
    using fp_const_exact [of 1 2 t] by simp_all
qed

lemma power_bound: "PRINTF_MAX_PRECOMPUTED_POWER_OF_10 t \<le> 17" "0 \<le> PRINTF_MAX_PRECOMPUTED_POWER_OF_10 t"
  by (cases t; simp add: PRINTF_MAX_PRECOMPUTED_POWER_OF_10_def NUM_DECIMAL_DIGITS_IN_INT64_T_def)+

lemma power_representable:
  assumes "int k \<le> PRINTF_MAX_PRECOMPUTED_POWER_OF_10 t"
  shows "representable t (10 ^ k)"
proof -
  have k: "k \<le> 17" "t = Float \<Longrightarrow> k \<le> 10"
    using assms power_bound(1) [of t] by (auto simp: PRINTF_MAX_PRECOMPUTED_POWER_OF_10_def)
  have "(5 :: int) ^ k < pow2 (MANT_DIG t)"
  proof (cases t)
    case Float
    then have "(5 :: int) ^ k \<le> 5 ^ 10" using k(2) by (intro power_increasing) simp_all
    then show ?thesis by (simp add: Float pow2_eq)
  next
    case Double
    have "(5 :: int) ^ k \<le> 5 ^ 17" using k(1) by (intro power_increasing) simp_all
    then show ?thesis by (simp add: Double pow2_eq)
  qed
  moreover have "(10 :: real) ^ k = 5 ^ k * 2 ^ k" by (simp flip: power_mult_distrib)
  moreover have "int k \<le> emax t" using k(1) by (cases t) (simp_all add: emax_def)
  ultimately show ?thesis unfolding representable_def
    using emin_nonpos(1) [of t] by (intro exI [of _ "5 ^ k"] exI [of _ "int k"]) simp
qed

lemma powers_of_10_Some:
  assumes "0 \<le> i" "i \<le> PRINTF_MAX_PRECOMPUTED_POWER_OF_10 t"
  obtains p where "powers_of_10 t i = Some p" "finite_fp p" "canonical t p" "fp_real p = 10 ^ nat i"
proof
  have "int (nat i) \<le> PRINTF_MAX_PRECOMPUTED_POWER_OF_10 t" "int (nat i) \<le> PRINTF_MAX_PRECOMPUTED_POWER_OF_10 Double"
    using assms power_bound(1) [of t]
    by (simp_all add: PRINTF_MAX_PRECOMPUTED_POWER_OF_10_def [of Double] NUM_DECIMAL_DIGITS_IN_INT64_T_def)
  then have r: "representable t (10 ^ nat i)" "representable Double (10 ^ nat i)"
    by (simp_all only: power_representable)
  show "powers_of_10 t i = Some (fp_const t (10 ^ nat i) 1)" using assms by (simp add: powers_of_10_def)
  show "finite_fp (fp_const t (10 ^ nat i) 1)" "canonical t (fp_const t (10 ^ nat i) 1)"
    "fp_real (fp_const t (10 ^ nat i) 1) = 10 ^ nat i"
    using fp_const_exact [of "10 ^ nat i" 1 t] r by simp_all
qed

section \<open>The sign\<close>

lemma sign_bit:
  assumes "canonical t (Fin s m e)"
  shows "get_sign_bit t (Fin s m e) \<noteq> 0 \<longleftrightarrow> s"
  using bits_read(1) [OF assms] by (simp add: get_sign_bit_def del: fp_bits.simps)

lemma magnitude:
  assumes "canonical t x" "finite_fp x"
  shows "finite_fp (sign (get_sign_bit t x \<noteq> 0) x)" "canonical t (sign (get_sign_bit t x \<noteq> 0) x)"
    "fp_real (sign (get_sign_bit t x \<noteq> 0) x) = \<bar>fp_real x\<bar>"
proof -
  obtain s m e where x: "x = Fin s m e" using assms(2) by (metis finite_fp.elims(2))
  with assms(1) have c: "canonical t (Fin s m e)" by simp
  then have m: "0 \<le> m" by simp
  show "finite_fp (sign (get_sign_bit t x \<noteq> 0) x)" "canonical t (sign (get_sign_bit t x \<noteq> 0) x)"
    using assms by (simp_all add: sign_def)
  have "fp_real (sign s (Fin s m e)) = \<bar>fp_real (Fin s m e)\<bar>"
    using m by (cases s) (simp_all add: sign_def abs_mult)
  then show "fp_real (sign (get_sign_bit t x \<noteq> 0) x) = \<bar>fp_real x\<bar>"
    unfolding x by (simp only: sign_bit [OF c])
qed

section \<open>Breaking up a number\<close>

text \<open>The integer nearest to a real number, the even one of two.\<close>

definition nearest_even :: "real \<Rightarrow> int" where
  "nearest_even v = (let f = \<lfloor>v\<rfloor>; r = v - real_of_int f in
     if 1 / 2 < r \<or> r = 1 / 2 \<and> odd f then f + 1 else f)"

lemma nearest_even_error: "\<bar>real_of_int (nearest_even v) - v\<bar> \<le> 1 / 2"
  unfolding nearest_even_def Let_def by (auto simp: abs_if; linarith)

lemma nearest_even_add:
  assumes "even k"
  shows "nearest_even (real_of_int k + v) = k + nearest_even v"
  using assms by (simp add: nearest_even_def Let_def)

lemma nearest_even_bounds:
  assumes "0 \<le> v" "v \<le> real_of_int p"
  shows "0 \<le> nearest_even v" "nearest_even v \<le> p"
proof -
  have "\<lfloor>v\<rfloor> + 1 \<le> p" if "v \<noteq> real_of_int \<lfloor>v\<rfloor>"
    using that assms(2) by linarith
  moreover have "\<lfloor>v\<rfloor> \<le> p" using assms(2) by linarith
  ultimately show "nearest_even v \<le> p" by (auto simp: nearest_even_def Let_def)
  have "0 \<le> \<lfloor>v\<rfloor>" using assms(1) by simp
  then show "0 \<le> nearest_even v" by (auto simp: nearest_even_def Let_def)
qed

lemma pow2_53: "pow2 63 = 9223372036854775808"
  by (simp add: pow2_eq)

text \<open>Rounding a number of the type to an integer, as the code does it.\<close>

lemma rounded_number:
  assumes v: "finite_fp v" "canonical t v" "0 \<le> fp_real v" "fp_real v < 2 ^ 63"
  defines "f \<equiv> \<lfloor>fp_real v\<rfloor>"
  shows "fp_trunc 64 v = Some f"
    "(if fp_less (fp_const t 1 2) (fp_sub t v (fp_of_int t f)) \<or>
        fp_eq (fp_sub t v (fp_of_int t f)) (fp_const t 1 2) \<and> odd f then f + 1 else f) = nearest_even (fp_real v)"
    "finite_fp (fp_of_int t (nearest_even (fp_real v)))"
    "fp_real (fp_of_int t (nearest_even (fp_real v))) = real_of_int (nearest_even (fp_real v))"
proof -
  note r = representable_floor [OF canonical_representable [OF v(2)] v(3), folded f_def]
  show "fp_trunc 64 v = Some f"
    using fp_trunc_nonneg [OF v(1-3), of 64] v(4) by (simp add: f_def pow2_53)
  note i = fp_of_int_exact [OF r(1)]
  have s: "finite_fp (fp_sub t v (fp_of_int t f))" "fp_real (fp_sub t v (fp_of_int t f)) = fp_real v - real_of_int f"
    using fp_sub_exact [OF v(1) i(1), of t] i(2) r(2) by simp_all
  show "(if fp_less (fp_const t 1 2) (fp_sub t v (fp_of_int t f)) \<or>
        fp_eq (fp_sub t v (fp_of_int t f)) (fp_const t 1 2) \<and> odd f then f + 1 else f) = nearest_even (fp_real v)"
    using fp_compare [OF half(1) s(1)] fp_compare [OF s(1) half(1)] s(2) half(3)
    by (simp add: nearest_even_def f_def Let_def)
  have "representable t (real_of_int (nearest_even (fp_real v)))"
  proof (cases "nearest_even (fp_real v) = f")
    case True
    then show ?thesis using r(1) by simp
  next
    case False
    then have "nearest_even (fp_real v) = f + 1" "fp_real v \<noteq> real_of_int f"
      by (auto simp: nearest_even_def f_def Let_def split: if_splits)
    moreover from this have "f < pow2 (MANT_DIG t)" using r(3) by simp
    moreover have "0 \<le> f" using v(3) by (simp add: f_def)
    ultimately show ?thesis by (intro representable_int) simp
  qed
  then show "finite_fp (fp_of_int t (nearest_even (fp_real v)))"
    "fp_real (fp_of_int t (nearest_even (fp_real v))) = real_of_int (nearest_even (fp_real v))"
    by (rule fp_of_int_exact)+
qed

lemma fraction_product:
  assumes x: "finite_fp x" "canonical t x" "0 \<le> fp_real x" "fp_real x < 2 ^ 63"
    and p: "finite_fp p" "canonical t p" "fp_real p = 10 ^ k" "int k \<le> PRINTF_MAX_PRECOMPUTED_POWER_OF_10 t"
  defines "i \<equiv> \<lfloor>fp_real x\<rfloor>"
  defines "rest \<equiv> fp_real x - real_of_int i"
  defines "w \<equiv> fp_mul t (fp_sub t x (fp_of_int t i)) p"
  shows "finite_fp w" "canonical t w" "0 \<le> fp_real w" "fp_real w \<le> 10 ^ k" "fp_real w < 2 ^ 63"
    "\<bar>fp_real w - rest * 10 ^ k\<bar> \<le> rounding_error t (rest * 10 ^ k)"
    "representable t (rest * 10 ^ k) \<Longrightarrow> fp_real w = rest * 10 ^ k"
proof -
  note r = representable_floor [OF canonical_representable [OF x(2)] x(3), folded i_def]
  note i = fp_of_int_exact [OF r(1)]
  have s: "finite_fp (fp_sub t x (fp_of_int t i))" "fp_real (fp_sub t x (fp_of_int t i)) = rest"
    using fp_sub_exact [OF x(1) i(1), of t] i(2) r(2) by (simp_all add: rest_def)
  have f: "0 \<le> rest" "rest < 1" unfolding rest_def i_def by linarith+
  then have prod: "0 \<le> rest * 10 ^ k" "rest * 10 ^ k \<le> 10 ^ k" by (simp_all add: mult_left_le_one_le)
  have pr: "representable t (10 ^ k)" using p(4) by (rule power_representable)
  have big: "(10 :: real) ^ k \<le> 10 ^ 17"
    using p(4) power_bound(1) [of t] by (intro power_increasing) simp_all
  have c: "canonical t (fp_sub t x (fp_of_int t i))" by simp
  show "finite_fp w" "0 \<le> fp_real w" "fp_real w \<le> 10 ^ k"
    unfolding w_def using fp_mul_bounds [OF s(1) p(1) c p(2) _ pr] prod by (simp_all add: s(2) p(3))
  moreover have "(10 :: real) ^ 17 < 2 ^ 63" by simp
  ultimately show "fp_real w < 2 ^ 63" using big by linarith
  show "canonical t w" using p(2) by (simp add: w_def)
  have "(2 :: real) ^ 57 \<le> 2 powi (emax t + MANT_DIG t - 1)"
  proof -
    have "(2 :: real) powi 57 \<le> 2 powi (emax t + MANT_DIG t - 1)"
      by (rule powi_mono) (cases t; simp add: emax_def)
    then show ?thesis by simp
  qed
  then have "\<bar>rest * 10 ^ k\<bar> \<le> 2 powi (emax t + MANT_DIG t - 1)"
    unfolding abs_of_nonneg [OF prod(1)] by (intro order_trans [OF prod(2)] order_trans [OF big]) simp
  then show "\<bar>fp_real w - rest * 10 ^ k\<bar> \<le> rounding_error t (rest * 10 ^ k)"
    unfolding w_def using fp_mul_error(2) [OF s(1) p(1) c p(2)] by (simp add: s(2) p(3))
  show "fp_real w = rest * 10 ^ k" if "representable t (rest * 10 ^ k)"
    unfolding w_def using fp_mul_exact(2) [OF s(1) p(1) c p(2)] that by (simp add: s(2) p(3))
qed

text \<open>The rounding of the integral part, for precision 0.\<close>

lemma integral_rounding:
  assumes x: "finite_fp x" "canonical t x" "0 \<le> fp_real x"
  defines "i \<equiv> \<lfloor>fp_real x\<rfloor>"
  defines "rest \<equiv> fp_real x - real_of_int i"
  defines "j \<equiv> if nearest_even rest = 1 then i + 1 else i"
  shows "(if fp_eq (fp_sub t x (fp_of_int t j)) (fp_const t 1 2) \<and> odd j then j + 1 else j) = nearest_even (fp_real x)"
proof -
  note r = representable_floor [OF canonical_representable [OF x(2)] x(3), folded i_def]
  note i = fp_of_int_exact [OF r(1)]
  have f: "0 \<le> rest" "rest < 1" unfolding rest_def i_def by linarith+
  have fl: "\<lfloor>rest\<rfloor> = 0" using f by (simp add: floor_unique)
  then have up: "nearest_even rest = 1 \<longleftrightarrow> 1 / 2 < rest"
    by (auto simp: nearest_even_def Let_def)
  have ne: "nearest_even (fp_real x) = (if 1 / 2 < rest \<or> rest = 1 / 2 \<and> odd i then i + 1 else i)"
    by (simp add: nearest_even_def Let_def rest_def i_def)
  show ?thesis
  proof (cases "1 / 2 < rest")
    case True
    have lt: "\<lfloor>fp_real x\<rfloor> < pow2 (MANT_DIG t)" using r(3) True f by (auto simp: rest_def i_def)
    have "0 \<le> i" using x(3) by (simp add: i_def)
    then have "representable t (real_of_int (i + 1))"
      using lt by (intro representable_int) (simp add: i_def)
    note i1 = fp_of_int_exact [OF this]
    have one: "representable t 1" using representable_int [of 1 t] by simp
    have s: "finite_fp (fp_sub t x (fp_of_int t (i + 1)))" "fp_real (fp_sub t x (fp_of_int t (i + 1))) \<le> 0"
      using fp_sub_negative [OF x(1) i1(1) _ one] i1(2) f True by (simp_all add: rest_def)
    then have "\<not> fp_eq (fp_sub t x (fp_of_int t (i + 1))) (fp_const t 1 2)"
      using fp_compare(2) [OF s(1) half(1)] half(3) by simp
    with True show ?thesis by (simp add: j_def up ne)
  next
    case False
    have s: "finite_fp (fp_sub t x (fp_of_int t i))" "fp_real (fp_sub t x (fp_of_int t i)) = rest"
      using fp_sub_exact [OF x(1) i(1), of t] i(2) r(2) by (simp_all add: rest_def)
    with False show ?thesis
      using fp_compare(2) [OF s(1) half(1)] half(3) by (simp add: j_def up ne)
  qed
qed

lemma get_components_eq:
  assumes x: "finite_fp x" "canonical t x" "\<bar>fp_real x\<bar> < 2 ^ 63"
    and prec: "uint precision \<le> PRINTF_MAX_PRECOMPUTED_POWER_OF_10 t"
  defines "i \<equiv> \<lfloor>\<bar>fp_real x\<bar>\<rfloor>"
  defines "rest \<equiv> \<bar>fp_real x\<bar> - real_of_int i"
  defines "P \<equiv> 10 ^ unat precision"
  obtains v where "0 \<le> v" "v \<le> P" "\<bar>v - rest * P\<bar> \<le> rounding_error t (rest * P)"
    "representable t (rest * P) \<Longrightarrow> v = rest * P"
    "get_components t x precision = Some
      (if precision = 0 then \<lparr>integral = nearest_even \<bar>fp_real x\<bar>, fractional = 0, is_negative = get_sign_bit t x \<noteq> 0\<rparr>
       else if nearest_even v = 10 ^ unat precision
       then \<lparr>integral = i + 1, fractional = 0, is_negative = get_sign_bit t x \<noteq> 0\<rparr>
       else \<lparr>integral = i, fractional = nearest_even v, is_negative = get_sign_bit t x \<noteq> 0\<rparr>)"
proof -
  define a where "a = sign (get_sign_bit t x \<noteq> 0) x"
  have a: "finite_fp a" "canonical t a" "fp_real a = \<bar>fp_real x\<bar>"
    unfolding a_def using magnitude [OF x(2,1)] by simp_all
  then have a': "0 \<le> fp_real a" "fp_real a < 2 ^ 63" using x(3) by simp_all
  obtain p where p: "powers_of_10 t (uint precision) = Some p" "finite_fp p" "canonical t p"
      "fp_real p = 10 ^ unat precision"
    by (rule powers_of_10_Some [of "uint precision" t]) (use prec in simp_all)
  have k: "int (unat precision) \<le> PRINTF_MAX_PRECOMPUTED_POWER_OF_10 t" using prec by simp
  have i: "i = \<lfloor>fp_real a\<rfloor>" by (simp add: i_def a(3))
  define w where "w = fp_mul t (fp_sub t a (fp_of_int t i)) p"
  note w = fraction_product [OF a(1,2) a' p(2-4) k, folded i, folded w_def]
  define v where "v = fp_real w"
  have rest: "fp_real a - real_of_int i = rest" by (simp add: rest_def a(3))
  note ti = rounded_number(1) [OF a(1,2) a', folded i]
  note tw = rounded_number [OF w(1-3,5), folded v_def]
  have cmp: "fp_le p (fp_of_int t (nearest_even v)) \<longleftrightarrow> nearest_even v = 10 ^ unat precision"
  proof -
    have "nearest_even v \<le> 10 ^ unat precision"
      using nearest_even_bounds [of v "10 ^ unat precision"] w(3,4) by (simp add: v_def)
    moreover have "fp_le p (fp_of_int t (nearest_even v)) \<longleftrightarrow> 10 ^ unat precision \<le> real_of_int (nearest_even v)"
      using fp_compare(3) [OF p(2) tw(3)] by (simp add: p(4) tw(4))
    moreover have "\<dots> \<longleftrightarrow> 10 ^ unat precision \<le> nearest_even v"
      by (metis of_int_le_iff of_int_numeral of_int_power)
    ultimately show ?thesis by auto
  qed
  have eq: "get_components t x precision = Some (
      let (j, f) = (if nearest_even v = 10 ^ unat precision then (i + 1, 0) else (i, nearest_even v)) in
      \<lparr>integral = (if precision = 0 then
          if fp_eq (fp_sub t a (fp_of_int t j)) (fp_const t 1 2) \<and> odd j then j + 1 else j else j),
        fractional = f, is_negative = get_sign_bit t x \<noteq> 0\<rparr>)"
    unfolding get_components_def Let_def a_def [symmetric] ti bind.bind_lunit p(1) w_def [symmetric] tw(1) tw(2) cmp
    by (simp add: Let_def)
  have zero: "get_components t x precision = Some \<lparr>integral = nearest_even \<bar>fp_real x\<bar>, fractional = 0,
      is_negative = get_sign_bit t x \<noteq> 0\<rparr>" if "precision = 0"
  proof -
    have "representable t (rest * 10 ^ unat precision)"
      using representable_floor(2) [OF canonical_representable [OF a(2)] a'(1)] that by (simp add: rest_def i_def a(3))
    then have "v = rest" using w(7) rest that by (simp add: v_def)
    moreover have "0 \<le> rest" "rest \<le> 1" unfolding rest_def i_def by linarith+
    ultimately have "nearest_even v = 0 \<or> nearest_even v = 1"
      using nearest_even_bounds [of v 1] by auto
    moreover have "(if fp_eq (fp_sub t a (fp_of_int t j)) (fp_const t 1 2) \<and> odd j then j + 1 else j) = nearest_even \<bar>fp_real x\<bar>"
      if "j = (if nearest_even v = 1 then i + 1 else i)" for j
      using integral_rounding [OF a(1,2) a'(1)] unfolding that \<open>v = rest\<close> rest_def i_def a(3) .
    ultimately show ?thesis unfolding eq using that by auto
  qed
  show thesis
  proof (rule that)
    show "0 \<le> v" "v \<le> P" using w(3,4) by (simp_all add: v_def P_def)
    show "\<bar>v - rest * P\<bar> \<le> rounding_error t (rest * P)" using w(6) rest by (simp add: v_def P_def)
    show "v = rest * P" if "representable t (rest * P)" using w(7) rest that by (simp add: v_def P_def)
  qed (use zero eq in \<open>auto simp: Let_def\<close>)
qed

section \<open>Accuracy\<close>

definition valid_components :: "floating_point_components \<Rightarrow> nat \<Rightarrow> bool" where
  "valid_components c p \<longleftrightarrow> 0 \<le> integral c \<and> 0 \<le> fractional c \<and> fractional c < 10 ^ p"

text \<open>The components as one number, in units of the last digit.\<close>

definition components_value :: "floating_point_components \<Rightarrow> nat \<Rightarrow> int" where
  "components_value c p = integral c * 10 ^ p + fractional c"

lemma rounding_error_scaled:
  assumes "0 \<le> v" "v \<le> 10 ^ k"
  shows "rounding_error t v \<le> 10 ^ k / 2 powi (MANT_DIG t)"
proof -
  have "v / 2 powi (MANT_DIG t) \<le> 10 ^ k / 2 powi (MANT_DIG t)"
    using assms by (intro divide_right_mono) simp_all
  moreover have "(2 :: real) powi (emin t) / 2 \<le> 10 ^ k / 2 powi (MANT_DIG t)"
  proof -
    have "(2 :: real) powi (emin t) * 2 powi (MANT_DIG t) \<le> 2 powi 0"
      using powi_mono [of "emin t + MANT_DIG t" 0] by (cases t) (simp_all add: emin_def power_int_add [symmetric])
    also have "\<dots> \<le> 10 ^ k * 2" using one_le_power [of "10 :: real" k] by (simp, linarith)
    finally show ?thesis by (simp add: field_simps)
  qed
  ultimately show ?thesis using assms(1) by (simp add: rounding_error_def)
qed

lemma components_of_number:
  assumes x: "finite_fp x" "canonical t x" "\<bar>fp_real x\<bar> < 2 ^ 63"
    and prec: "uint precision \<le> PRINTF_MAX_PRECOMPUTED_POWER_OF_10 t"
  defines "p \<equiv> unat precision"
  obtains c where "get_components t x precision = Some c" "is_negative c = (get_sign_bit t x \<noteq> 0)"
    "valid_components c p" "real_of_int (integral c) \<le> \<bar>fp_real x\<bar> + 1"
    "\<bar>real_of_int (components_value c p) - \<bar>fp_real x\<bar> * 10 ^ p\<bar> \<le> 1 / 2 + 10 ^ p / 2 powi (MANT_DIG t)"
    "representable t (frac \<bar>fp_real x\<bar> * 10 ^ p) \<Longrightarrow> components_value c p = nearest_even (\<bar>fp_real x\<bar> * 10 ^ p)"
proof -
  define a where "a = \<bar>fp_real x\<bar>"
  define i where "i = \<lfloor>a\<rfloor>"
  have a: "0 \<le> a" "a = real_of_int i + frac a" "0 \<le> frac a" "frac a < 1" "0 \<le> i"
    by (simp_all add: a_def i_def frac_def) (simp add: frac_lt_1 [unfolded frac_def])
  obtain v where v: "0 \<le> v" "v \<le> 10 ^ p" "\<bar>v - frac a * 10 ^ p\<bar> \<le> rounding_error t (frac a * 10 ^ p)"
      "representable t (frac a * 10 ^ p) \<Longrightarrow> v = frac a * 10 ^ p"
      "get_components t x precision = Some
      (if precision = 0 then \<lparr>integral = nearest_even a, fractional = 0, is_negative = get_sign_bit t x \<noteq> 0\<rparr>
       else if nearest_even v = 10 ^ p
       then \<lparr>integral = i + 1, fractional = 0, is_negative = get_sign_bit t x \<noteq> 0\<rparr>
       else \<lparr>integral = i, fractional = nearest_even v, is_negative = get_sign_bit t x \<noteq> 0\<rparr>)"
    by (rule get_components_eq [OF x prec, folded p_def a_def i_def frac_def]) (simp add: a_def frac_def i_def)
  define c where "c = (if precision = 0 then \<lparr>integral = nearest_even a, fractional = 0, is_negative = get_sign_bit t x \<noteq> 0\<rparr>
       else if nearest_even v = 10 ^ p
       then \<lparr>integral = i + 1, fractional = 0, is_negative = get_sign_bit t x \<noteq> 0\<rparr>
       else \<lparr>integral = i, fractional = nearest_even v, is_negative = get_sign_bit t x \<noteq> 0\<rparr>)"
  have nv: "0 \<le> nearest_even v" "nearest_even v \<le> 10 ^ p"
    using nearest_even_bounds [of v "10 ^ p"] v(1,2) by simp_all
  have ia: "nearest_even a \<le> i + 1" "0 \<le> nearest_even a"
    using a(5) by (auto simp: nearest_even_def i_def Let_def)
  have val: "components_value c p = (if precision = 0 then nearest_even a else i * 10 ^ p + nearest_even v)"
    by (simp add: c_def components_value_def p_def algebra_simps)
  have p0: "p = 0 \<longleftrightarrow> precision = 0" by (simp add: p_def unat_eq_zero)
  have ev: "even (i * 10 ^ p)" if "precision \<noteq> 0"
    using that p0 by simp
  have ap: "a * 10 ^ p = real_of_int i * 10 ^ p + frac a * 10 ^ p"
    by (subst a(2)) (rule distrib_right)
  show thesis
  proof (rule that)
    show "get_components t x precision = Some c" by (simp add: v(5) c_def)
    show "is_negative c = (get_sign_bit t x \<noteq> 0)" by (simp add: c_def)
    show "valid_components c p" using nv ia a(5) by (auto simp: valid_components_def c_def)
    have "real_of_int (integral c) \<le> real_of_int (i + 1)"
      using ia by (auto simp: c_def simp flip: of_int_add)
    then show "real_of_int (integral c) \<le> \<bar>fp_real x\<bar> + 1"
      unfolding a_def [symmetric] using a(2,3) by linarith
    show "\<bar>real_of_int (components_value c p) - \<bar>fp_real x\<bar> * 10 ^ p\<bar> \<le> 1 / 2 + 10 ^ p / 2 powi (MANT_DIG t)"
    proof (cases "precision = 0")
      case True
      then have "\<bar>real_of_int (components_value c p) - a * 10 ^ p\<bar> \<le> 1 / 2"
        unfolding val using nearest_even_error [of a] p0 True by simp
      moreover have "0 \<le> (10 :: real) ^ p / 2 powi (MANT_DIG t)" by simp
      ultimately show ?thesis unfolding a_def [symmetric] by linarith
    next
      case False
      have e: "real_of_int (components_value c p) - a * 10 ^ p = (real_of_int (nearest_even v) - v) + (v - frac a * 10 ^ p)"
        unfolding val using False ap by simp
      have "0 \<le> frac a * 10 ^ p" "frac a * 10 ^ p \<le> 10 ^ p" using a(3,4) by (simp_all add: mult_left_le_one_le)
      then have "rounding_error t (frac a * 10 ^ p) \<le> 10 ^ p / 2 powi (MANT_DIG t)"
        by (rule rounding_error_scaled)
      with v(3) nearest_even_error [of v] show ?thesis unfolding a_def [symmetric] e by linarith
    qed
    show "components_value c p = nearest_even (\<bar>fp_real x\<bar> * 10 ^ p)" if "representable t (frac \<bar>fp_real x\<bar> * 10 ^ p)"
    proof (cases "precision = 0")
      case True
      then show ?thesis unfolding val using p0 by (simp add: a_def)
    next
      case False
      have "a * 10 ^ p = real_of_int (i * 10 ^ p) + v"
        using v(4) that ap by (simp add: a_def)
      then have "nearest_even (a * 10 ^ p) = i * 10 ^ p + nearest_even v"
        using nearest_even_add [OF ev [OF False], of v] by (simp only:)
      then show ?thesis using False by (simp add: val a_def)
    qed
  qed
qed


section \<open>Decimal notation\<close>

text \<open>The last \<open>k\<close> digits of \<open>n\<close>, most significant first.\<close>

fun fixed_digits :: "nat \<Rightarrow> nat \<Rightarrow> nat list" where
  "fixed_digits 0 n = []"
| "fixed_digits (Suc k) n = fixed_digits k (n div 10) @ [n mod 10]"

text \<open>The number \<open>n / 10 ^ p\<close> with \<open>p\<close> digits behind the point.\<close>

definition decimal_notation :: "bool \<Rightarrow> nat \<Rightarrow> nat \<Rightarrow> u8 list" where
  "decimal_notation negative p n =
     (if negative then [0x2D] else []) @ map (digit_ascii False) (radix_digits 10 (n div 10 ^ p)) @
     (if p = 0 then [] else 0x2E # map (digit_ascii False) (fixed_digits p (n mod 10 ^ p)))"

lemma length_fixed_digits [simp]: "length (fixed_digits k n) = k"
  by (induction k arbitrary: n) simp_all

lemma fixed_digits_zero: "fixed_digits k 0 = replicate k 0"
  by (induction k) (simp_all add: replicate_append_same)

lemma fixed_digits_eq:
  "0 < k \<Longrightarrow> n < 10 ^ k \<Longrightarrow> k \<le> m \<Longrightarrow>
    rev (fixed_digits k n) = digits m 10 n @ replicate (k - length (digits m 10 n)) 0"
proof (induction k arbitrary: n m)
  case (Suc k)
  obtain j where m: "m = Suc j" using Suc.prems(3) by (cases m) auto
  show ?case
  proof (cases "n div 10 = 0")
    case True
    then show ?thesis by (simp add: m fixed_digits_zero)
  next
    case False
    have "n div 10 < 10 ^ k" using Suc.prems(2) by (simp add: div_less_iff_less_mult mult.commute)
    moreover from this have "0 < k" using False by (cases k) auto
    ultimately show ?thesis using False Suc.IH [of "n div 10" j] Suc.prems(3) by (simp add: m)
  qed
qed simp

definition decimal_flags :: u32 where "decimal_flags = 0x101D"

lemma no_decimal_flags:
  assumes "flags AND decimal_flags = 0"
  shows "\<not> flag flags FLAGS_ZEROPAD" "\<not> flag flags FLAGS_PLUS" "\<not> flag flags FLAGS_SPACE"
    "\<not> flag flags FLAGS_HASH" "\<not> flag flags FLAGS_ADAPT_EXP" "\<not> flag flags (FLAGS_PLUS OR FLAGS_SPACE)"
  by (rule flag_subset [OF assms], simp add: c_consts decimal_flags_def)+

lemma write_fraction_plain:
  assumes "flags AND decimal_flags = 0" "0 \<le> f" "f < 10 ^ p" "p \<le> 31" "p = unat precision"
  shows "write_fraction f precision flags [] = Some
    (if p = 0 then [] else rev (0x2E # map (digit_ascii False) (fixed_digits p (nat f))))"
proof (cases "precision = 0")
  case True
  then show ?thesis using no_decimal_flags [OF assms(1)] assms(5) by (simp add: write_fraction_def)
next
  case False
  let ?ds = "digits 32 10 (nat f)"
  have p: "0 < p" using False assms(5) by (simp add: unat_gt_0)
  have n: "nat f < 10 ^ p" using assms(2,3) by (simp add: nat_less_iff)
  have le: "length ?ds \<le> p" by (rule length_digits_bound [OF n p]) simp
  have c: "unat (precision - of_nat (length ?ds)) = p - length ?ds"
    using le assms(4,5) by (simp add: unat_sub word_le_nat_alt unat_of_nat)
  have rev: "rev (fixed_digits p (nat f)) = ?ds @ replicate (p - length ?ds) 0"
    by (rule fixed_digits_eq [OF p n]) (use assms(4) in simp)
  have z: "map (digit_ascii False) (replicate k 0) = replicate k 0x30" for k
    by (simp add: digit_ascii_def)
  have res: "rev (map (digit_ascii False) (fixed_digits p (nat f))) =
      map (digit_ascii False) ?ds @ replicate (p - length ?ds) 0x30"
    unfolding rev_map rev by (simp only: map_append z)
  show ?thesis
    unfolding write_fraction_def Let_def
    using False p le assms(2,4) no_decimal_flags [OF assms(1)] c
    by (simp add: write_digits_eq extra_zeros_eq push_decimal_def PRINTF_DECIMAL_BUFFER_SIZE_def Let_def res)
qed

lemma broken_up_text_plain:
  assumes "flags AND decimal_flags = 0" "valid_components c p" "integral c < 10 ^ q" "0 < q" "p + q \<le> 30"
    and "p = unat precision"
  shows "broken_up_text c precision width flags [] = Some
    (rev_text (rev (decimal_notation (is_negative c) p (nat (components_value c p)))) width flags)"
proof -
  note c = assms(2) [unfolded valid_components_def]
  let ?i = "nat (integral c)" and ?f = "nat (fractional c)"
  have n: "nat (components_value c p) = ?i * 10 ^ p + ?f"
    using c by (simp add: components_value_def nat_add_distrib nat_mult_distrib nat_power_eq)
  have f: "?f < 10 ^ p" using c by (simp add: nat_less_iff)
  then have parts: "nat (components_value c p) div 10 ^ p = ?i" "nat (components_value c p) mod 10 ^ p = ?f"
    by (simp_all add: n)
  have i: "?i < 10 ^ q" using c assms(3) by (simp add: nat_less_iff)
  define b where "b = (if p = 0 then [] else rev (0x2E # map (digit_ascii False) (fixed_digits p ?f)))"
  have b: "write_fraction (fractional c) precision flags [] = Some b" "length b \<le> p + 1"
    using write_fraction_plain [OF assms(1) _ _ _ assms(6)] c assms(5) by (simp_all add: b_def)
  have room: "q \<le> 32 - length b" using b(2) assms(4,5) by linarith
  then have "?i < 10 ^ (32 - length b)" using i power_increasing [of q "32 - length b" "10 :: nat"] by linarith
  moreover have "0 < 32 - length b" using b(2) assms(4,5) by linarith
  ultimately have ds: "radix_digits 10 ?i = rev (digits (32 - length b) 10 ?i)"
    by (intro radix_digits_eq) simp_all
  have len: "length (digits (32 - length b) 10 ?i) \<le> q" by (rule length_digits_bound [OF i assms(4)]) simp
  have w: "final_width (is_negative c) width flags = width"
    using no_decimal_flags(1) [OF assms(1)] by (simp add: final_width_def)
  have shown: "rev (decimal_notation (is_negative c) p (nat (components_value c p))) =
      b @ map (digit_ascii False) (digits (32 - length b) 10 ?i) @ (if is_negative c then [0x2D] else [])"
    by (simp add: decimal_notation_def parts ds b_def rev_map)
  show ?thesis
    unfolding broken_up_text_def b(1)
    using no_decimal_flags [OF assms(1)] c b(2) len assms(5)
    by (simp add: write_digits_eq w Let_def shown signed_text_def try_push_def)
qed

section \<open>The conversion \<open>%f\<close>\<close>

lemma threshold:
  "finite_fp (PRINTF_FLOAT_NOTATION_THRESHOLD t)" "fp_real (PRINTF_FLOAT_NOTATION_THRESHOLD t) = 1000000000"
proof -
  have r: "representable u 1000000000" for u
    using power_representable [of 9 u] power_bound(1) [of u]
    by (cases u) (simp_all add: PRINTF_MAX_PRECOMPUTED_POWER_OF_10_def NUM_DECIMAL_DIGITS_IN_INT64_T_def)
  have "PRINTF_FLOAT_NOTATION_THRESHOLD t = fp_const t 1000000000 1"
    by (simp add: PRINTF_FLOAT_NOTATION_THRESHOLD_def fp_const_def)
  then show "finite_fp (PRINTF_FLOAT_NOTATION_THRESHOLD t)" "fp_real (PRINTF_FLOAT_NOTATION_THRESHOLD t) = 1000000000"
    using fp_const_exact [of 1000000000 1 t] r by simp_all
qed

lemma largest:
  "finite_fp (FP_TYPE_MAX t)" "canonical t (FP_TYPE_MAX t)"
  "finite_fp x \<Longrightarrow> canonical t x \<Longrightarrow> \<bar>fp_real x\<bar> \<le> fp_real (FP_TYPE_MAX t)"
proof -
  show "finite_fp (FP_TYPE_MAX t)" by (simp add: FP_TYPE_MAX_def)
  have "pow2 (MANT_DIG t - 1) \<le> pow2 (MANT_DIG t) - 1"
    using mantissa_half [of t] pow2_pos(4) [of "MANT_DIG t - 1"] by linarith
  then show "canonical t (FP_TYPE_MAX t)" using MANT_DIG_pos(2) [of t] by (simp add: FP_TYPE_MAX_def)
  assume fin: "finite_fp x" "canonical t x"
  obtain s m e where x: "x = Fin s m e" using fin(1) by (metis finite_fp.elims(2))
  with fin(2) have m: "0 \<le> m" "m \<le> pow2 (MANT_DIG t) - 1" "e \<le> emax t" by simp_all
  have "real_of_int m \<le> real_of_int (pow2 (MANT_DIG t) - 1)" using m(2) by (simp only: of_int_le_iff)
  moreover have "(0 :: real) \<le> real_of_int (pow2 (MANT_DIG t) - 1)" by simp
  ultimately have "real_of_int m * 2 powi e \<le> real_of_int (pow2 (MANT_DIG t) - 1) * 2 powi (emax t)"
    using powi_mono [OF m(3)] by (intro mult_mono) simp_all
  then show "\<bar>fp_real x\<bar> \<le> fp_real (FP_TYPE_MAX t)"
    using m(1) by (simp add: x FP_TYPE_MAX_def abs_mult)
qed

lemma not_special:
  assumes "finite_fp x" "canonical t x"
  shows "fp_eq x x" "\<not> fp_less x (fp_neg (FP_TYPE_MAX t))" "\<not> fp_less (FP_TYPE_MAX t) x"
proof -
  have le: "\<bar>fp_real x\<bar> \<le> fp_real (FP_TYPE_MAX t)" by (rule largest(3) [OF assms])
  show "fp_eq x x" using fp_compare(2) [OF assms(1) assms(1)] by simp
  show "\<not> fp_less x (fp_neg (FP_TYPE_MAX t))"
    using fp_compare(1) [OF assms(1), of "fp_neg (FP_TYPE_MAX t)"] largest(1) [of t] le by auto
  show "\<not> fp_less (FP_TYPE_MAX t) x"
    using fp_compare(1) [OF largest(1) assms(1)] le by auto
qed

lemma limit_precision_small:
  "precision \<le> PRINTF_MAX_SUPPORTED_PRECISION \<Longrightarrow> limit_precision precision buf = Some (precision, buf)"
  by (subst limit_precision.simps) auto

lemma literal_half:
  "finite_fp (fp_literal Double 5 2)" "fp_real (fp_literal Double 5 2) = 5 / 2"
proof -
  have "representable Double (5 / 2)" unfolding representable_def
    by (intro exI [of _ 5] exI [of _ "- 1"]) (simp add: pow2_eq emin_def emax_def)
  then show "finite_fp (fp_literal Double 5 2)" "fp_real (fp_literal Double 5 2) = 5 / 2"
    using round_fp_exact [of 5 2 Double False] by (simp_all add: fp_literal_def)
qed

end
