(* ===== verification/Printf_Exponential.thy ===== *)
theory Printf_Exponential
  imports Printf_Decimal
begin

text \<open>
  Exponential notation and the selection between the notations, the conversions
  \<^verbatim>\<open>%e\<close> and \<^verbatim>\<open>%g\<close> of \<^verbatim>\<open>sdk/librv/printf.c\<close>: every conversion of a number
  prints one text, independent of the destination, or is undefined; the text of
  \<^verbatim>\<open>%f\<close> and of \<^verbatim>\<open>%e\<close> without scaling; the exponent of the
  representation and the floor the code computes; and the precisions at which the code
  reads behind its table of powers.
\<close>

section \<open>The text of a conversion\<close>

definition exponential_text ::
  "fp_type \<Rightarrow> fp \<Rightarrow> u32 \<Rightarrow> u32 \<Rightarrow> u32 \<Rightarrow> u8 list \<Rightarrow> u8 list option" where
  "exponential_text t number precision width flags buf = do {
     let negative = get_sign_bit t number \<noteq> 0;
     let adapt = flag flags FLAGS_ADAPT_EXP;
     let precision = (if adapt then if 1 < precision then precision - 1 else 0 else precision);
     let flags = (if adapt then flags OR FLAGS_PRECISION else flags);
     (fall_back, e, precision, c) \<leftarrow> exponential_parts t adapt negative precision (sign negative number);
     let exp_width = (if fall_back then 0 else if \<bar>e\<bar> < 100 then 4 else 5);
     let decimal_width = (if flag flags FLAGS_LEFT \<and> exp_width \<noteq> 0 then 0
       else if exp_width < width then width - exp_width else 0);
     xs \<leftarrow> broken_up_text c precision decimal_width flags buf;
     let ys = xs @ (if flag flags FLAGS_UPPERCASE then 0x45 else 0x65) #
       integer_text (ABS_FOR_PRINTING (of_int e)) (e < 0) BASE_DECIMAL 0 (exp_width - 1) (FLAGS_ZEROPAD OR FLAGS_PLUS);
     Some (if fall_back then xs
       else if flag flags FLAGS_LEFT then ys @ replicate (unat width - length ys) 0x20 else ys) }"

definition float_text ::
  "bool \<Rightarrow> fp_type \<Rightarrow> fp \<Rightarrow> u32 \<Rightarrow> u32 \<Rightarrow> u32 \<Rightarrow> bool \<Rightarrow> u8 list option" where
  "float_text exponential t x precision width flags prefer_exponential =
     (if \<not> fp_eq x x then Some (rev_text [0x6E, 0x61, 0x6E] width flags)
      else if fp_less x (fp_neg (FP_TYPE_MAX t)) then Some (rev_text [0x66, 0x6E, 0x69, 0x2D] width flags)
      else if fp_less (FP_TYPE_MAX t) x then
        Some (rev_text ([0x66, 0x6E, 0x69] @ (if flag flags FLAGS_PLUS then [0x2B] else [])) width flags)
      else if \<not> prefer_exponential \<and> (fp_less (PRINTF_FLOAT_NOTATION_THRESHOLD t) x \<or>
          fp_less x (fp_neg (PRINTF_FLOAT_NOTATION_THRESHOLD t))) then
        if exponential then exponential_text t x precision width flags [] else Some []
      else do {
        let precision = (if \<not> flag flags FLAGS_PRECISION then PRINTF_DEFAULT_FLOAT_PRECISION else precision);
        (precision, buf) \<leftarrow> limit_precision precision [];
        if exponential \<and> prefer_exponential then exponential_text t x precision width flags buf
        else do { c \<leftarrow> get_components t x precision; broken_up_text c precision width flags buf } })"

lemma broken_up_print:
  "length buf \<le> 32 \<Longrightarrow> print_broken_up_decimal c g precision width flags buf =
    do { xs \<leftarrow> broken_up_text c precision width flags buf; put_all xs g }"
  using print_broken_up_decimal_eq [of buf c precision width flags] by auto

lemma length_rev_text_bound:
  assumes "length buf \<le> 32"
  shows "length (rev_text buf width flags) \<le> max (unat width) 32"
  using assms by (auto simp: length_rev_text)

lemma length_broken_up_text:
  assumes "length buf \<le> 32" "broken_up_text c precision width flags buf = Some xs"
  shows "length xs \<le> max (unat width) 32"
proof -
  obtain b1 where b1: "write_fraction (fractional c) precision flags buf = Some b1" "length b1 \<le> 32"
    using write_fraction_total [OF assms(1)] by blast
  obtain n b2 where b2: "write_digits (integral c) 0 b1 = Some (n, b2)" "length b2 \<le> 32"
    using write_digits_total [OF b1(2)] by blast
  define w where "w = final_width (is_negative c) width flags"
  define b3 where "b3 = (if \<not> flag flags FLAGS_LEFT \<and> flag flags FLAGS_ZEROPAD
    then b2 @ replicate (min (unat w) 32 - length b2) 0x30 else b2)"
  have "length b3 \<le> 32" using b2(2) by (auto simp: b3_def)
  then have "length (rev_text (signed_text b3 (is_negative c) flags) w flags) \<le> max (unat w) 32"
    by (intro length_rev_text_bound length_signed_text)
  moreover have "unat w \<le> unat width" by (auto simp: w_def final_width_def unat_sub_if' unat_gt_0 Suc_le_eq)
  moreover have "xs = rev_text (signed_text b3 (is_negative c) flags) w flags"
    using assms(2) by (simp add: broken_up_text_def b1 b2 w_def [symmetric] b3_def [symmetric] Let_def)
  ultimately show ?thesis by simp
qed

lemma limit_precision_length:
  "length buf \<le> 32 \<Longrightarrow> \<exists>q b. limit_precision precision buf = Some (q, b) \<and> length b \<le> 32"
proof (induction precision buf rule: limit_precision.induct)
  case (1 precision buf)
  then show ?case
    by (subst limit_precision.simps) (auto simp: push_decimal_def PRINTF_DECIMAL_BUFFER_SIZE_def)
qed

lemma exponent_integer:
  "print_integer g v neg BASE_DECIMAL 0 w flags = put_all (integer_text v neg BASE_DECIMAL 0 w flags) g"
  by (rule print_integer_eq) (simp_all add: c_consts)

lemma length_integer_text:
  assumes "flag flags FLAGS_ZEROPAD" "\<not> flag flags FLAGS_LEFT"
  shows "length (integer_text v neg base precision w flags) \<le> 32"
  using assms length_final_buffer [OF length_number_buffer]
  by (simp add: integer_text_def Let_def length_rev_text number_flags_other)

lemma print_exponential_number_eq:
  assumes "length buf \<le> 32"
  shows "print_exponential_number t g x precision width flags buf =
    do { xs \<leftarrow> exponential_text t x precision width flags buf; put_all xs g }"
proof -
  define negative where "negative = (get_sign_bit t x \<noteq> 0)"
  define adapt where "adapt = flag flags FLAGS_ADAPT_EXP"
  define p where "p = (if adapt then if 1 < precision then precision - 1 else 0 else precision)"
  define fl where "fl = (if adapt then flags OR FLAGS_PRECISION else flags)"
  show ?thesis
  proof (cases "exponential_parts t adapt negative p (sign negative x)")
    case None
    then show ?thesis
      unfolding print_exponential_number_def exponential_text_def Let_def
        negative_def [symmetric] adapt_def [symmetric] p_def [symmetric] by simp
  next
    case (Some r)
    obtain fall_back e q c where r: "r = (fall_back, e, q, c)" by (cases r) auto
    define ew :: u32 where "ew = (if fall_back then 0 else if \<bar>e\<bar> < 100 then 4 else 5)"
    define dw where "dw = (if flag fl FLAGS_LEFT \<and> ew \<noteq> 0 then 0 else if ew < width then width - ew else 0)"
    obtain xs where xs: "broken_up_text c q dw fl buf = Some xs"
      using print_broken_up_decimal_eq [OF assms, of c q dw fl] by blast
    define E where "E = integer_text (ABS_FOR_PRINTING (of_int e)) (e < 0) BASE_DECIMAL 0 (ew - 1) (FLAGS_ZEROPAD OR FLAGS_PLUS)"
    define ys where "ys = xs @ (if flag fl FLAGS_UPPERCASE then 0x45 else 0x65) # E"
    have E: "length E \<le> 32"
      unfolding E_def by (rule length_integer_text) (simp_all add: flag_def c_consts)
    have pad: "pad_right (g_pos g) width h = put_all (replicate (unat width - length ys) 0x20) h"
      if "put_all ys g = Some h" "flag fl FLAGS_LEFT" "\<not> fall_back" for h
    proof -
      have "dw = 0" using that(2,3) by (simp add: dw_def ew_def)
      then have "length xs \<le> 32" using length_broken_up_text [OF assms xs] by simp
      then have "length ys < 2 ^ 32" using E by (simp add: ys_def)
      then have "unat (of_nat (length ys) :: u32) = length ys" by (simp add: unat_of_nat)
      then show ?thesis using put_all_pos [OF that(1)] by (simp add: pad_right_eq)
    qed
    have lhs: "print_exponential_number t g x precision width flags buf = do {
        g1 \<leftarrow> put_all xs g;
        if \<not> fall_back then do {
          g2 \<leftarrow> putchar_via_gadget g1 (if flag fl FLAGS_UPPERCASE then 0x45 else 0x65);
          g3 \<leftarrow> put_all E g2;
          if flag fl FLAGS_LEFT then pad_right (g_pos g) width g3 else Some g3 }
        else Some g1 }"
      unfolding print_exponential_number_def Let_def negative_def [symmetric] adapt_def [symmetric]
        p_def [symmetric] fl_def [symmetric] Some r bind.bind_lunit prod.case
        ew_def [symmetric] dw_def [symmetric] broken_up_print [OF assms] xs exponent_integer E_def [symmetric] ..
    have rhs: "exponential_text t x precision width flags buf = Some (if fall_back then xs
       else if flag fl FLAGS_LEFT then ys @ replicate (unat width - length ys) 0x20 else ys)"
      unfolding exponential_text_def Let_def negative_def [symmetric] adapt_def [symmetric]
        p_def [symmetric] fl_def [symmetric] Some r bind.bind_lunit prod.case
        ew_def [symmetric] dw_def [symmetric] xs E_def [symmetric] ys_def [symmetric] ..
    have ys: "put_all ys g = do {
        g1 \<leftarrow> put_all xs g;
        g2 \<leftarrow> putchar_via_gadget g1 (if flag fl FLAGS_UPPERCASE then 0x45 else 0x65);
        put_all E g2 }"
      by (simp add: ys_def fold_option_append)
    show ?thesis
    proof (cases "fall_back")
      case True
      then show ?thesis by (simp add: lhs rhs)
    next
      case False
      then have "print_exponential_number t g x precision width flags buf = do {
          g3 \<leftarrow> put_all ys g;
          if flag fl FLAGS_LEFT then pad_right (g_pos g) width g3 else Some g3 }"
        by (simp add: lhs ys)
      then show ?thesis
        using False pad by (auto simp: rhs fold_option_append split: bind_split)
    qed
  qed
qed

lemma print_floating_point_eq:
  "print_floating_point exponential t g x precision width flags prefer =
    do { xs \<leftarrow> float_text exponential t x precision width flags prefer; put_all xs g }"
proof -
  have names: "out_rev g [0x6E, 0x61, 0x6E] 3 width flags = put_all (rev_text [0x6E, 0x61, 0x6E] width flags) g"
    "out_rev g [0x66, 0x6E, 0x69, 0x2D] 4 width flags = put_all (rev_text [0x66, 0x6E, 0x69, 0x2D] width flags) g"
    "out_rev g [0x66, 0x6E, 0x69, 0x2B] 4 width flags = put_all (rev_text [0x66, 0x6E, 0x69, 0x2B] width flags) g"
    "out_rev g [0x66, 0x6E, 0x69] 3 width flags = put_all (rev_text [0x66, 0x6E, 0x69] width flags) g"
    using out_rev_eq [of "[0x6E, 0x61, 0x6E]"] out_rev_eq [of "[0x66, 0x6E, 0x69, 0x2D]"]
      out_rev_eq [of "[0x66, 0x6E, 0x69, 0x2B]"] out_rev_eq [of "[0x66, 0x6E, 0x69]"] by simp_all
  obtain q b where lim: "limit_precision (if \<not> flag flags FLAGS_PRECISION then PRINTF_DEFAULT_FLOAT_PRECISION else precision) [] = Some (q, b)"
    "length b \<le> 32"
    using limit_precision_length [of "[]" "if \<not> flag flags FLAGS_PRECISION then PRINTF_DEFAULT_FLOAT_PRECISION else precision"]
    by auto
  have num: "print_exponential_number t g x precision width flags [] =
      do { xs \<leftarrow> exponential_text t x precision width flags []; put_all xs g }"
    by (rule print_exponential_number_eq) simp
  have dec: "print_decimal_number t g x q width flags b =
      do { xs \<leftarrow> do { c \<leftarrow> get_components t x q; broken_up_text c q width flags b }; put_all xs g }"
    by (simp add: print_decimal_number_def broken_up_print [OF lim(2)])
  show ?thesis
    unfolding print_floating_point_def float_text_def Let_def lim(1) bind.bind_lunit prod.case names num dec
      print_exponential_number_eq [OF lim(2)]
    by simp
qed

section \<open>The conversion \<open>%f\<close>\<close>

lemma float_text_decimal:
  fixes precision :: u32
  assumes x: "finite_fp x" "canonical t x" "\<bar>fp_real x\<bar> \<le> 1000000000"
    and flags: "flags AND decimal_flags = 0"
  defines "digs \<equiv> (if flag flags FLAGS_PRECISION then precision else 6)"
  assumes digs: "uint digs \<le> PRINTF_MAX_PRECOMPUTED_POWER_OF_10 t"
  defines "p \<equiv> unat digs"
  shows "\<exists>n. float_text exponential t x precision width flags False =
      Some (rev_text (rev (decimal_notation (get_sign_bit t x \<noteq> 0) p n)) width flags) \<and>
    \<bar>real n - \<bar>fp_real x\<bar> * 10 ^ p\<bar> \<le> 1 / 2 + 10 ^ p / 2 powi (MANT_DIG t) \<and>
    (representable t (frac \<bar>fp_real x\<bar> * 10 ^ p) \<longrightarrow> int n = nearest_even (\<bar>fp_real x\<bar> * 10 ^ p))"
proof -
  have "\<bar>fp_real x\<bar> < 2 ^ 63" using x(3) by simp
  then obtain c where c: "get_components t x digs = Some c" "is_negative c = (get_sign_bit t x \<noteq> 0)"
    "valid_components c p" "real_of_int (integral c) \<le> \<bar>fp_real x\<bar> + 1"
    "\<bar>real_of_int (components_value c p) - \<bar>fp_real x\<bar> * 10 ^ p\<bar> \<le> 1 / 2 + 10 ^ p / 2 powi (MANT_DIG t)"
    "representable t (frac \<bar>fp_real x\<bar> * 10 ^ p) \<Longrightarrow> components_value c p = nearest_even (\<bar>fp_real x\<bar> * 10 ^ p)"
    using components_of_number [OF x(1,2) _ digs, folded p_def] by metis
  have "integral c \<le> 1000000001" using c(4) x(3) by linarith
  then have small: "integral c < 10 ^ 10" by simp
  have "int p \<le> PRINTF_MAX_PRECOMPUTED_POWER_OF_10 t" using digs by (simp add: p_def)
  then have p17: "p \<le> 17" using power_bound(1) [of t] by linarith
  have v: "0 \<le> components_value c p" using c(3) by (simp add: valid_components_def components_value_def)
  have shown: "broken_up_text c digs width flags [] = Some (rev_text (rev (decimal_notation (get_sign_bit t x \<noteq> 0) p
      (nat (components_value c p)))) width flags)"
    using broken_up_text_plain [OF flags c(3) small, of digs width] p17 c(2) by (simp add: p_def)
  have lim: "limit_precision digs [] = Some (digs, [])"
    using p17 by (intro limit_precision_small)
      (simp add: p_def PRINTF_MAX_SUPPORTED_PRECISION_def NUM_DECIMAL_DIGITS_IN_INT64_T_def word_le_nat_alt)
  have thr: "\<not> fp_less (PRINTF_FLOAT_NOTATION_THRESHOLD t) x" "\<not> fp_less x (fp_neg (PRINTF_FLOAT_NOTATION_THRESHOLD t))"
    using fp_compare(1) [OF threshold(1) x(1)] fp_compare(1) [OF x(1), of "fp_neg (PRINTF_FLOAT_NOTATION_THRESHOLD t)"]
      threshold [of t] x(3) by auto
  have dg: "(if \<not> flag flags FLAGS_PRECISION then PRINTF_DEFAULT_FLOAT_PRECISION else precision) = digs"
    by (simp add: digs_def PRINTF_DEFAULT_FLOAT_PRECISION_def)
  have "float_text exponential t x precision width flags False =
      Some (rev_text (rev (decimal_notation (get_sign_bit t x \<noteq> 0) p (nat (components_value c p)))) width flags)"
    unfolding float_text_def Let_def dg lim by (simp add: not_special [OF x(1,2)] thr c(1) shown)
  then show ?thesis
    using c(5,6) v by (intro exI [of _ "nat (components_value c p)"]) auto
qed

text \<open>C21. \<^verbatim>\<open>%f\<close> of any number up to \<open>10 ^ 9\<close>, with up to the 17 (or, for \<open>float\<close>, 10) digits of the
  table of powers, prints sign, integral part and exactly \<open>p\<close> digits of a decimal number that differs
  from the argument by half a unit of the last digit and one rounding error of the internal type; the
  nearest decimal number, ties to even, where scaling the fraction is exact.\<close>

theorem print_float_decimal:
  fixes precision :: u32
  assumes x: "finite_fp x" "canonical t x" "\<bar>fp_real x\<bar> \<le> 1000000000"
    and flags: "flags AND decimal_flags = 0"
  defines "digs \<equiv> (if flag flags FLAGS_PRECISION then precision else 6)"
  assumes digs: "uint digs \<le> PRINTF_MAX_PRECOMPUTED_POWER_OF_10 t"
  defines "p \<equiv> unat digs"
  shows "\<exists>n. (\<forall>g. print_floating_point exponential t g x precision width flags False =
      put_all (rev_text (rev (decimal_notation (get_sign_bit t x \<noteq> 0) p n)) width flags) g) \<and>
    \<bar>real n - \<bar>fp_real x\<bar> * 10 ^ p\<bar> \<le> 1 / 2 + 10 ^ p / 2 powi (MANT_DIG t) \<and>
    (representable t (frac \<bar>fp_real x\<bar> * 10 ^ p) \<longrightarrow> int n = nearest_even (\<bar>fp_real x\<bar> * 10 ^ p))"
  using float_text_decimal [OF x flags, of precision exponential width, folded digs_def, OF digs]
  unfolding p_def [symmetric] print_floating_point_eq by fastforce

theorem print_float_decimal_witness:
  "\<forall>g. print_floating_point True Double g (fp_literal Double 5 2) 0 3 FLAGS_PRECISION False =
    put_all [0x20, 0x20, 0x32] g"
proof -
  let ?x = "fp_literal Double 5 2"
  note x = literal_half
  have c: "canonical Double ?x" by simp
  have s: "\<not> get_sign_bit Double ?x \<noteq> 0"
    by code_simp
  have k: "decimal_flags AND FLAGS_PRECISION = 0" "flag FLAGS_PRECISION FLAGS_PRECISION"
    by (simp_all add: decimal_flags_def c_consts flag_def)
  have r: "representable Double (frac (5 / 2) * 10 ^ 0)"
  proof -
    have "frac (5 / 2 :: real) = 1 / 2" by (simp add: frac_def)
    then show ?thesis unfolding representable_def
      by (intro exI [of _ 1] exI [of _ "- 1"]) (simp add: pow2_eq emin_def emax_def)
  qed
  have ne: "nearest_even (5 / 2) = 2" by (simp add: nearest_even_def Let_def)
  obtain n where n: "\<forall>g. print_floating_point True Double g ?x 0 3 FLAGS_PRECISION False =
      put_all (rev_text (rev (decimal_notation False 0 n)) 3 FLAGS_PRECISION) g" "int n = nearest_even (5 / 2)"
    using print_float_decimal [where x = ?x and t = Double and flags = FLAGS_PRECISION and precision = 0
        and exponential = True and width = 3] x c s k r
    by (auto simp: PRINTF_MAX_PRECOMPUTED_POWER_OF_10_def NUM_DECIMAL_DIGITS_IN_INT64_T_def and.commute)
  from n(2) ne have "n = 2" by simp
  moreover have "rev_text (rev (decimal_notation False 0 2)) 3 FLAGS_PRECISION = [0x20, 0x20, 0x32]"
    by (simp add: decimal_notation_def radix_digits.simps digit_ascii_def rev_text_def flag_def c_consts) (simp add: numeral_2_eq_2)
  ultimately show ?thesis using n(1) by simp
qed

section \<open>Reading the representation\<close>

lemma exponent_mask: "0 \<le> u \<Longrightarrow> u AND FP_TYPE_EXPONENT_MASK t = u mod (max_biased t + 1)" for u :: int
proof -
  have "FP_TYPE_EXPONENT_MASK t = mask (case t of Float \<Rightarrow> 8 | Double \<Rightarrow> 11)"
    by (cases t) (simp_all add: FP_TYPE_EXPONENT_MASK_def mask_eq_exp_minus_1)
  moreover have "max_biased t + 1 = 2 ^ (case t of Float \<Rightarrow> 8 | Double \<Rightarrow> 11)"
    by (cases t) (simp_all add: max_biased_def)
  ultimately show ?thesis by (simp add: take_bit_eq_mask [symmetric] take_bit_eq_mod)
qed

lemma get_exp2_eq:
  assumes "canonical t (Fin s m e)"
  shows "get_exp2 t (fp_bits t (Fin s m e)) =
    (if m < pow2 (MANT_DIG t - 1) then - BASE_EXPONENT t else e + MANT_DIG t - 1)"
proof -
  let ?u = "fp_bits t (Fin s m e)" and ?h = "pow2 (MANT_DIG t - 1)"
  have m: "0 \<le> m" "emin t \<le> e" "e = emin t \<or> ?h \<le> m" using assms by simp_all
  have "0 \<le> ?u" using m by (simp add: fp_pack_def Let_def)
  then have "0 \<le> ?u div ?h" by (simp add: pos_imp_zdiv_nonneg_iff)
  then show ?thesis
    using bits_read(2) [OF assms] exponent_mask [of "?u div ?h" t]
    by (cases t) (simp_all add: get_exp2_def FP_TYPE_STORED_MANTISSA_BITS_def emin_def del: fp_bits.simps)
qed

lemma get_exp2_bounds:
  assumes "canonical t x" "2 powi (1 - BASE_EXPONENT t) \<le> \<bar>fp_real x\<bar>"
  shows "2 powi (get_exp2 t (fp_bits t x)) \<le> \<bar>fp_real x\<bar>"
    "\<bar>fp_real x\<bar> < 2 powi (get_exp2 t (fp_bits t x) + 1)"
proof -
  obtain s m e where x: "x = Fin s m e" using assms(2) by (cases x) simp_all
  note c = assms(1) [unfolded x]
  then have m: "0 \<le> m" "m < pow2 (MANT_DIG t)" "e = emin t \<or> pow2 (MANT_DIG t - 1) \<le> m" by simp_all
  have a: "\<bar>fp_real x\<bar> = real_of_int m * 2 powi e" using m(1) by (simp add: x abs_mult)
  have M: "0 \<le> MANT_DIG t - 1" "0 \<le> MANT_DIG t" using MANT_DIG_pos(1) [of t] by simp_all
  have normal: "pow2 (MANT_DIG t - 1) \<le> m"
  proof (rule ccontr)
    assume n: "\<not> pow2 (MANT_DIG t - 1) \<le> m"
    with m(3) have e: "e = emin t" by simp
    have "real_of_int m < real_of_int (pow2 (MANT_DIG t - 1))" using n by (simp only: of_int_less_iff not_le)
    then have "real_of_int m * 2 powi e < 2 powi (MANT_DIG t - 1) * 2 powi e"
      unfolding pow2_real [OF M(1)] by simp
    also have "\<dots> = 2 powi (1 - BASE_EXPONENT t)"
      by (simp add: e emin_def power_int_add [symmetric])
    finally show False using assms(2) a by simp
  qed
  have g: "get_exp2 t (fp_bits t x) = e + MANT_DIG t - 1"
    using get_exp2_eq [OF c] normal by (simp add: x del: fp_bits.simps)
  have "real_of_int (pow2 (MANT_DIG t - 1)) * 2 powi e \<le> real_of_int m * 2 powi e"
    using normal by (intro mult_right_mono) (simp_all only: of_int_le_iff, simp)
  then show "2 powi (get_exp2 t (fp_bits t x)) \<le> \<bar>fp_real x\<bar>"
    unfolding g a pow2_real [OF M(1)] by (simp add: power_int_add [symmetric] algebra_simps)
  have "real_of_int m * 2 powi e < real_of_int (pow2 (MANT_DIG t)) * 2 powi e"
    using m(2) by (intro mult_strict_right_mono) (simp_all only: of_int_less_iff, simp)
  then show "\<bar>fp_real x\<bar> < 2 powi (get_exp2 t (fp_bits t x) + 1)"
    unfolding g a pow2_real [OF M(2)] by (simp add: power_int_add [symmetric] algebra_simps)
qed

section \<open>The floor\<close>

lemma bastardized_floor_eq:
  assumes x: "finite_fp x" "canonical t x" "\<bar>fp_real x\<bar> < 2147483647"
  shows "bastardized_floor t x = Some \<lfloor>fp_real x\<rfloor>"
proof -
  have z: "finite_fp (fp_of_int t 0)" "fp_real (fp_of_int t 0) = 0"
    using fp_of_int_exact [of t 0] representable_int [of 0 t] by simp_all
  have b: "pow2 31 = 2147483648" by (simp add: pow2_eq)
  note le = fp_compare(3) [OF z(1) x(1), unfolded z(2)]
  show ?thesis
  proof (cases "0 \<le> fp_real x")
    case True
    then have "fp_trunc 32 x = Some \<lfloor>fp_real x\<rfloor>"
      using x(3) by (intro fp_trunc_nonneg [OF x(1,2)]) (simp_all add: b)
    then show ?thesis using True le by (simp add: bastardized_floor_def)
  next
    case False
    define n where "n = - \<lfloor>- fp_real x\<rfloor>"
    have "0 \<le> \<lfloor>- fp_real x\<rfloor>" using False by simp
    moreover have "\<lfloor>- fp_real x\<rfloor> \<le> 2147483647" using x(3) by linarith
    ultimately have n: "fp_trunc 32 x = Some n"
      using fp_trunc_eq [OF x(1,2), of 32] False by (simp add: truncated_def n_def b del: floor_le_iff le_floor_iff zero_le_floor)
    have "representable t (- fp_real x)" "0 \<le> - fp_real x"
      using canonical_representable [OF x(2)] False by simp_all
    from representable_floor(1) [OF this] have "representable t (- real_of_int \<lfloor>- fp_real x\<rfloor>)" by simp
    then have "representable t (real_of_int n)" by (simp add: n_def)
    note i = fp_of_int_exact [OF this]
    have "(if fp_eq (fp_of_int t n) x then n else n - 1) = \<lfloor>fp_real x\<rfloor>"
    proof (cases "real_of_int n = fp_real x")
      case True
      then show ?thesis using fp_compare(2) [OF i(1) x(1)] i(2) by (metis floor_of_int)
    next
      case False
      have "real_of_int n - 1 < fp_real x" "fp_real x \<le> real_of_int n" unfolding n_def by simp_all linarith+
      with False have "\<lfloor>fp_real x\<rfloor> = n - 1" by (intro floor_unique) simp_all
      then show ?thesis using False fp_compare(2) [OF i(1) x(1)] i(2) by simp
    qed
    then show ?thesis using False le n by (simp add: bastardized_floor_def)
  qed
qed

section \<open>Precisions the table of powers does not cover\<close>

lemma powers_of_10_None: "PRINTF_MAX_PRECOMPUTED_POWER_OF_10 t < i \<Longrightarrow> powers_of_10 t i = None"
  by (simp add: powers_of_10_def)

lemma get_components_None:
  "PRINTF_MAX_PRECOMPUTED_POWER_OF_10 t < uint precision \<Longrightarrow> get_components t x precision = None"
  by (cases "fp_trunc 64 (sign (get_sign_bit t x \<noteq> 0) x)")
     (simp_all add: get_components_def powers_of_10_None Let_def)

lemma exponential_components_None:
  assumes "PRINTF_MAX_PRECOMPUTED_POWER_OF_10 t < uint precision"
  shows "exponential_components t negative precision x = None"
proof -
  have "get_normalized_components t negative precision x n e = None" for n e
    by (cases "fp_trunc 64 (apply_scaling t x n)")
       (simp_all add: get_normalized_components_def get_components_None [OF assms] powers_of_10_None [OF assms] Let_def)
  then have c: "(if e = 0 then get_components t y precision else do { n \<leftarrow> norm;
      get_normalized_components t negative precision x n e }) = None" for e y norm
    by (cases norm) (simp_all add: get_components_None [OF assms])
  show ?thesis unfolding exponential_components_def c by (simp split: bind_split)
qed

text \<open>\<^verbatim>\<open>%.<p>f\<close> of a number above \<open>10 ^ 9\<close> is undefined for every precision the table of powers does
  not cover: such a number is printed in exponential notation before its precision has been limited,
  and the code reads behind the table.\<close>

lemma large_number_overread:
  assumes x: "finite_fp x" "canonical t x" "1000000000 < \<bar>fp_real x\<bar>"
    and "PRINTF_MAX_PRECOMPUTED_POWER_OF_10 t < uint precision" "\<not> flag flags FLAGS_ADAPT_EXP"
  shows "print_floating_point True t g x precision width flags False = None"
proof -
  have "fp_less (PRINTF_FLOAT_NOTATION_THRESHOLD t) x \<or> fp_less x (fp_neg (PRINTF_FLOAT_NOTATION_THRESHOLD t))"
    using fp_compare(1) [OF threshold(1) x(1)] fp_compare(1) [OF x(1), of "fp_neg (PRINTF_FLOAT_NOTATION_THRESHOLD t)"]
      threshold [of t] x(3) by (auto simp: abs_if split: if_splits)
  moreover have "print_exponential_number t g x precision width flags [] = None"
    using assms(5) by (simp add: print_exponential_number_def exponential_parts_def Let_def
        exponential_components_None [OF assms(4)])
  ultimately show ?thesis by (simp add: print_floating_point_def not_special [OF x(1,2)])
qed

lemma large_number_overread_example:
  "\<forall>g. print_floating_point True Double g (fp_literal Double (10 ^ 10) 1) 20 0 FLAGS_PRECISION False = None"
proof -
  let ?x = "fp_literal Double (10 ^ 10) 1"
  have "representable Double (10 ^ 10)"
    by (rule power_representable) (simp add: PRINTF_MAX_PRECOMPUTED_POWER_OF_10_def NUM_DECIMAL_DIGITS_IN_INT64_T_def)
  then have x: "finite_fp ?x" "fp_real ?x = 10 ^ 10"
    using round_fp_exact [of "10 ^ 10" 1 Double False] by (simp_all add: fp_literal_def)
  have "canonical Double ?x" by simp
  with x show ?thesis
    by (intro allI large_number_overread)
       (simp_all add: PRINTF_MAX_PRECOMPUTED_POWER_OF_10_def NUM_DECIMAL_DIGITS_IN_INT64_T_def flag_def c_consts)
qed

text \<open>With \<open>float\<close> as internal type the table ends at \<open>10 ^ 10\<close>, below the precision the code allows.\<close>

lemma limit_precision_ge:
  "k < precision \<Longrightarrow> k < PRINTF_MAX_SUPPORTED_PRECISION \<Longrightarrow>
    limit_precision precision buf = Some (q, b) \<Longrightarrow> k < q"
proof (induction precision buf rule: limit_precision.induct)
  case (1 precision buf)
  show ?case
  proof (cases "length buf < PRINTF_DECIMAL_BUFFER_SIZE \<and> PRINTF_MAX_SUPPORTED_PRECISION < precision")
    case True
    then have len: "length buf < 32" by (simp add: PRINTF_DECIMAL_BUFFER_SIZE_def)
    have "PRINTF_MAX_SUPPORTED_PRECISION \<le> precision - 1"
      using True by (auto simp: word_le_nat_alt word_less_nat_alt unat_sub_if')
    then have k: "k < precision - 1" using 1(3) by simp
    have "limit_precision (precision - 1) (buf @ [0x30]) = Some (q, b)"
      using 1(4) True push_decimal_Some [OF len] by (subst (asm) limit_precision.simps) simp
    from 1(1) [OF True push_decimal_Some [OF len] k 1(3) this] show ?thesis .
  next
    case False
    then show ?thesis using 1(2,4) by (subst (asm) limit_precision.simps) auto
  qed
qed

lemma float_precision_overread:
  assumes x: "finite_fp x" "canonical Float x" "\<bar>fp_real x\<bar> \<le> 1000000000"
    and "flag flags FLAGS_PRECISION" "10 < precision"
  shows "print_floating_point exponential Float g x precision width flags False = None"
proof -
  obtain q b where lim: "limit_precision precision [] = Some (q, b)"
    using limit_precision_length [of "[]" precision] by auto
  have "10 < q" by (rule limit_precision_ge [OF assms(5) _ lim])
      (simp add: PRINTF_MAX_SUPPORTED_PRECISION_def NUM_DECIMAL_DIGITS_IN_INT64_T_def)
  then have "10 < uint q" by (simp add: word_less_def)
  then have none: "get_components Float x q = None"
    by (intro get_components_None) (simp add: PRINTF_MAX_PRECOMPUTED_POWER_OF_10_def)
  have "\<not> fp_less (PRINTF_FLOAT_NOTATION_THRESHOLD Float) x" "\<not> fp_less x (fp_neg (PRINTF_FLOAT_NOTATION_THRESHOLD Float))"
    using fp_compare(1) [OF threshold(1) x(1)] fp_compare(1) [OF x(1), of "fp_neg (PRINTF_FLOAT_NOTATION_THRESHOLD Float)"]
      threshold [of Float] x(3) by auto
  then show ?thesis
    using assms(4) by (simp add: print_floating_point_def not_special [OF x(1,2)] Let_def lim
        print_decimal_number_def none)
qed

section \<open>Numbers that are not finite\<close>

text \<open>Infinities and values that are not numbers are printed by name, padded to the width.\<close>

lemma float_special_values:
  shows "print_floating_point exponential t g NaN precision width flags prefer =
      put_all (rev_text (rev [0x6E, 0x61, 0x6E]) width flags) g \<and>
    print_floating_point exponential t g (Inf True) precision width flags prefer =
      put_all (rev_text (rev [0x2D, 0x69, 0x6E, 0x66]) width flags) g \<and>
    print_floating_point exponential t g (Inf False) precision width flags prefer =
      put_all (rev_text (rev ((if flag flags FLAGS_PLUS then [0x2B] else []) @ [0x69, 0x6E, 0x66])) width flags) g"
proof -
  have "FP_TYPE_MAX t = Fin False (pow2 (MANT_DIG t) - 1) (emax t)" by (simp add: FP_TYPE_MAX_def)
  then show ?thesis by (simp add: print_floating_point_eq float_text_def)
qed

section \<open>The buffer\<close>

text \<open>C24. No components, precision, width or flags overflow the 32-byte buffer of
  \<open>print_broken_up_decimal\<close>; it prints one text, independent of the destination, of at most the width
  or 32 characters.\<close>

theorem decimal_buffer_safe:
  assumes "length buf \<le> 32"
  shows "\<exists>xs. (\<forall>g. print_broken_up_decimal c g precision width flags buf = put_all xs g) \<and>
    length xs \<le> max (unat width) 32"
  using print_broken_up_decimal_eq [OF assms, of c precision width flags] length_broken_up_text [OF assms]
  by blast

theorem decimal_buffer_safe_witness:
  "\<exists>xs. (\<forall>g. print_broken_up_decimal \<lparr>integral = - 5, fractional = - 11, is_negative = True\<rparr> g 4000000000 50
      FLAGS_ZEROPAD [] = put_all xs g) \<and> length xs \<le> 50"
  using decimal_buffer_safe [of "[]" "\<lparr>integral = - 5, fractional = - 11, is_negative = True\<rparr>" 4000000000 50 FLAGS_ZEROPAD]
  by simp

section \<open>Numbers that need no scaling\<close>

text \<open>The exponent as printed behind the \<open>e\<close>: a sign and at least two digits.\<close>

definition exponent_notation :: "int \<Rightarrow> u8 list" where
  "exponent_notation e = (if e < 0 then 0x2D else 0x2B) # map (digit_ascii False) (fixed_digits 2 (nat \<bar>e\<bar>))"

lemma exponent_texts:
  "list_all (\<lambda>e. integer_text (ABS_FOR_PRINTING (of_int e)) (e < 0) BASE_DECIMAL 0 3 (FLAGS_ZEROPAD OR FLAGS_PLUS) =
    exponent_notation e) [- 18..18]"
  by code_simp

lemma exponent_text:
  assumes "\<bar>e\<bar> \<le> 18"
  shows "integer_text (ABS_FOR_PRINTING (of_int e)) (e < 0) BASE_DECIMAL 0 3 (FLAGS_ZEROPAD OR FLAGS_PLUS) =
    exponent_notation e"
proof -
  have "e \<in> {- 18..18}" using assms by auto
  then show ?thesis using exponent_texts unfolding list_all_iff set_upto by blast
qed

lemma exponential_text_plain:
  assumes parts: "exponential_parts t False (get_sign_bit t x \<noteq> 0) precision (sign (get_sign_bit t x \<noteq> 0) x) =
      Some (False, e, precision, c)" "\<bar>e\<bar> \<le> 18"
    and flags: "flags AND decimal_flags = 0" "\<not> flag flags FLAGS_LEFT" "\<not> flag flags FLAGS_UPPERCASE"
    and c: "valid_components c p" "integral c < 10" "p \<le> 29" "p = unat precision"
  defines "ys \<equiv> decimal_notation (is_negative c) p (nat (components_value c p)) @ 0x65 # exponent_notation e"
  shows "exponential_text t x precision width flags [] = Some (replicate (unat width - length ys) 0x20 @ ys)"
proof -
  let ?dw = "if 4 < width then width - 4 else 0"
  have w: "unat ?dw = unat width - 4" by (auto simp: unat_sub_if' word_less_nat_alt)
  have "integral c < 10 ^ 1" using c(2) by simp
  from broken_up_text_plain [OF flags(1) c(1) this, of precision ?dw] c(3,4)
  have b: "broken_up_text c precision ?dw flags [] = Some
      (rev_text (rev (decimal_notation (is_negative c) p (nat (components_value c p)))) ?dw flags)" by simp
  have r: "rev_text (rev zs) ?dw flags = replicate (unat width - 4 - length zs) 0x20 @ zs" for zs
    using flags(2) no_decimal_flags(1) [OF flags(1)] w by (simp add: rev_text_def)
  have "exponential_text t x precision width flags [] = Some (rev_text (rev (decimal_notation (is_negative c) p
      (nat (components_value c p)))) ?dw flags @ 0x65 # exponent_notation e)"
    unfolding exponential_text_def Let_def using no_decimal_flags(5) [OF flags(1)] parts(2)
    by (simp add: parts(1) b exponent_text flags(2,3) split del: if_split cong: if_cong)
  then show ?thesis unfolding r by (simp add: ys_def exponent_notation_def)
qed

text \<open>From the components to the text, with the roll-over.\<close>

lemma exponential_print:
  fixes precision :: u32 and e :: int and c :: floating_point_components and p :: nat
  assumes x: "finite_fp x" "canonical t x"
    and flags: "flags AND decimal_flags = 0" "\<not> flag flags FLAGS_LEFT" "\<not> flag flags FLAGS_UPPERCASE"
  defines "s \<equiv> get_sign_bit t x \<noteq> 0"
    and "digs \<equiv> (if flag flags FLAGS_PRECISION then precision else 6)"
  assumes comps: "exponential_components t s digs (sign s x) = Some (e, c)" "\<bar>e\<bar> < 18"
    and c: "is_negative c = s" "valid_components c p" "p = unat digs" "p \<le> 17"
  defines "n \<equiv> nat (components_value c p)"
  defines "ys \<equiv> (if n < 10 * 10 ^ p then decimal_notation s p n @ 0x65 # exponent_notation e
    else decimal_notation s p (10 ^ p) @ 0x65 # exponent_notation (e + 1))"
  shows "print_floating_point True t g x precision width flags True =
      put_all (replicate (unat width - length ys) 0x20 @ ys) g" "int n = components_value c p"
proof -
  note v = c(2) [unfolded valid_components_def]
  define c' where "c' = (if 10 \<le> integral c then c\<lparr>integral := 1, fractional := 0\<rparr> else c)"
  define e' where "e' = (if 10 \<le> integral c then e + 1 else e)"
  have parts: "exponential_parts t False s digs (sign s x) = Some (False, e', digs, c')" "\<bar>e'\<bar> \<le> 18"
    using comps(2) by (simp_all add: exponential_parts_def comps(1) c'_def e'_def abs_le_iff, arith)
  have v': "valid_components c' p" "integral c' < 10" using v by (auto simp: c'_def valid_components_def)
  have lim: "limit_precision digs [] = Some (digs, [])"
    using c(3,4) by (intro limit_precision_small)
      (simp add: PRINTF_MAX_SUPPORTED_PRECISION_def NUM_DECIMAL_DIGITS_IN_INT64_T_def word_le_nat_alt)
  have dg: "(if \<not> flag flags FLAGS_PRECISION then PRINTF_DEFAULT_FLOAT_PRECISION else precision) = digs"
    by (simp add: digs_def PRINTF_DEFAULT_FLOAT_PRECISION_def)
  show n: "int n = components_value c p" using v by (simp add: n_def components_value_def)
  have big: "n < 10 * 10 ^ p \<longleftrightarrow> integral c < 10"
  proof -
    have "int n < 10 * 10 ^ p \<longleftrightarrow> integral c < 10"
    proof
      assume "int n < 10 * 10 ^ p"
      then have "integral c * 10 ^ p < 10 * 10 ^ p" using v unfolding n components_value_def by linarith
      then show "integral c < 10" by (simp add: mult_less_cancel_right)
    next
      assume "integral c < 10"
      then have "(integral c + 1) * 10 ^ p \<le> 10 * 10 ^ p" by (intro mult_right_mono) simp_all
      then have "integral c * 10 ^ p + 10 ^ p \<le> 10 * 10 ^ p" by (simp only: distrib_right mult_1)
      then show "int n < 10 * 10 ^ p" using v unfolding n components_value_def by linarith
    qed
    then show ?thesis by (subst of_nat_less_iff [where 'a = int, symmetric]) simp
  qed
  have ys: "ys = decimal_notation (is_negative c') p (nat (components_value c' p)) @ 0x65 # exponent_notation e'"
    using big c(1) by (auto simp: ys_def c'_def e'_def n_def components_value_def nat_power_eq)
  have "exponential_text t x digs width flags [] = Some (replicate (unat width - length ys) 0x20 @ ys)"
    unfolding ys
    by (rule exponential_text_plain [OF parts(1) [unfolded s_def] parts(2) flags v']) (use c(3,4) in simp_all)
  then show "print_floating_point True t g x precision width flags True =
      put_all (replicate (unat width - length ys) 0x20 @ ys) g"
    unfolding print_floating_point_def Let_def dg lim
    by (simp add: not_special [OF x] print_exponential_number_eq)
qed

lemma zero_magnitude:
  assumes "finite_fp x" "canonical t x"
  shows "fp_eq (sign (get_sign_bit t x \<noteq> 0) x) (fp_const t 0 1) \<longleftrightarrow> fp_real x = 0"
proof -
  have z: "finite_fp (fp_const t 0 1)" "fp_real (fp_const t 0 1) = 0"
    using fp_const_exact [of 0 1 t] representable_int [of 0] by simp_all
  show ?thesis using fp_compare(2) [OF magnitude(1) [OF assms(2,1)] z(1)] magnitude(3) [OF assms(2,1)] z(2) by simp
qed



section \<open>Numbers of the type\<close>

lemma canonical_of_bits:
  "canonical t (fp_of_bits t u)"
proof -
  define h where "h = pow2 (MANT_DIG t - 1)"
  define m e where "m = u mod h" and "e = u div h mod (max_biased t + 1)"
  have m: "0 \<le> m" "m < h" by (simp_all add: m_def h_def)
  have M: "2 \<le> max_biased t" "emin t \<le> emax t" "max_biased t = emax t - emin t + 2"
    using max_biased_emax [of t] MANT_DIG_pos(2) [of t] by simp_all
  then have e: "0 \<le> e" "e < max_biased t + 1" by (simp_all add: e_def)
  have H: "pow2 (MANT_DIG t) = 2 * h" by (simp add: mantissa_half h_def)
  have "fp_of_bits t u = (if e = max_biased t then if m = 0 then Inf (odd (u div pow2 (SIZE_IN_BITS t - 1))) else NaN
      else if e = 0 then Fin (odd (u div pow2 (SIZE_IN_BITS t - 1))) m (emin t)
      else Fin (odd (u div pow2 (SIZE_IN_BITS t - 1))) (m + h) (e - 1 + emin t))"
    by (simp add: fp_of_bits_def Let_def m_def e_def h_def)
  then show ?thesis using m e M(1,2) by (simp add: H M(3) h_def [symmetric])
qed

lemma canonical_const [simp]: "0 \<le> n \<Longrightarrow> 0 < d \<Longrightarrow> canonical t (fp_const t n d)"
  by (simp add: fp_const_def canonical_valid [OF canonical_literal])

lemma canonical_sign [simp]: "canonical t (sign s x) = canonical t x"
  by (simp add: sign_def)

lemma canonical_log10: "canonical t (log10_of_positive t x)"
  by (simp add: log10_of_positive_def Let_def)

lemma canonical_powers: "powers_of_10 t i = Some p \<Longrightarrow> canonical t p"
  by (auto simp: powers_of_10_def split: if_splits)

lemma canonical_pow10: "pow10_of_int t e = Some p \<Longrightarrow> canonical t p"
  by (auto simp: pow10_of_int_def FP_TYPE_MAX_SUBNORMAL_POWER_OF_10_def Let_def canonical_of_bits
      bind_eq_Some_conv split: if_splits fp_type.splits)

definition canonical_factor :: "fp_type \<Rightarrow> scaling_factor \<Rightarrow> bool" where
  "canonical_factor t n \<longleftrightarrow> canonical t (raw_factor n)"

lemma canonical_scaling:
  assumes "canonical t x" "canonical_factor t n"
  shows "canonical t (apply_scaling t x n)" "canonical t (unapply_scaling t x n)"
    "canonical_factor t (update_normalization t n x)"
  using assms by (simp_all add: apply_scaling_def unapply_scaling_def update_normalization_def canonical_factor_def Let_def)



section \<open>Wrong digits\<close>

text \<open>\<^verbatim>\<open>%.16e\<close> of 0.8999999999999999 prints characters that are no digits: the remainder behind the
  integral digit, 9 after rounding, is negative, and so are the digits of the fraction.\<close>

lemma negative_fraction_digits:
  "print_floating_point True Double g (fp_literal Double 8999999999999999 (10 ^ 16)) 16 0 FLAGS_PRECISION True =
    put_all [0x39, 0x2E, 0x30, 0x30, 0x30, 0x30, 0x30, 0x30, 0x30, 0x30, 0x30, 0x30, 0x30, 0x30, 0x30, 0x30,
      0x2F, 0x2F, 0x65, 0x2D, 0x30, 0x31] g"
proof -
  have "float_text True Double (fp_literal Double 8999999999999999 (10 ^ 16)) 16 0 FLAGS_PRECISION True =
    Some [0x39, 0x2E, 0x30, 0x30, 0x30, 0x30, 0x30, 0x30, 0x30, 0x30, 0x30, 0x30, 0x30, 0x30, 0x30, 0x30,
      0x2F, 0x2F, 0x65, 0x2D, 0x30, 0x31]" by code_simp
  then show ?thesis by (simp add: print_floating_point_eq)
qed

text \<open>\<^verbatim>\<open>%.17g\<close> of a small number falls back to decimal notation with more digits than the table of powers covers.\<close>

lemma adapted_precision_overread:
  "print_floating_point True Double g (fp_literal Double 1 8192) 17 0 (FLAGS_ADAPT_EXP OR FLAGS_PRECISION) True = None"
proof -
  have "float_text True Double (fp_literal Double 1 8192) 17 0 (FLAGS_ADAPT_EXP OR FLAGS_PRECISION) True = None" by code_simp
  then show ?thesis by (simp add: print_floating_point_eq)
qed

end
