(* ===== verification/Printf_Scaling.thy ===== *)
theory Printf_Scaling
  imports Printf_Exponential
begin

text \<open>
  Accuracy of exponential notation in \<^verbatim>\<open>sdk/librv/printf.c\<close>: \<open>get_normalized_components\<close> with a
  power of ten from the table.  Every floating-point operation on the way is bounded by one
  rounding, and the errors add up to a multiple of the precision of the type.
\<close>

section \<open>The scaling factors\<close>

lemma power_exponents:
  assumes f: "canonical t f" "fp_real f = 10 ^ n" and q: "canonical t q" "fp_real q = 10 ^ p"
  shows "\<bar>get_exp2 t (fp_bits t q)\<bar> < \<bar>get_exp2 t (fp_bits t f)\<bar> \<longleftrightarrow> p < n"
proof -
  let ?g = "get_exp2 t (fp_bits t f)" and ?h = "get_exp2 t (fp_bits t q)"
  have one: "1 \<le> (10 :: real) ^ k" for k by simp
  have m: "2 powi (1 - BASE_EXPONENT t) \<le> (1 :: real)"
    using powi_mono [of "1 - BASE_EXPONENT t" 0] by (cases t) simp_all
  have g: "2 powi ?g \<le> (10 :: real) ^ n" "(10 :: real) ^ n < 2 powi (?g + 1)"
    and h: "2 powi ?h \<le> (10 :: real) ^ p" "(10 :: real) ^ p < 2 powi (?h + 1)"
    using get_exp2_bounds [OF f(1)] get_exp2_bounds [OF q(1)] order_trans [OF m one] by (simp_all add: f(2) q(2))
  have pos: "0 \<le> k" if "(10 :: real) ^ j < 2 powi (k + 1)" for j k
  proof (rule ccontr)
    assume "\<not> 0 \<le> k"
    then have "(2 :: real) powi (k + 1) \<le> 2 powi 0" by (intro powi_mono) simp
    then have "(10 :: real) ^ j < 1" using that by (simp only: power_int_0_right)
    with one [of j] show False by linarith
  qed
  have less: "a < b" if "(2 :: real) powi a < 2 powi b" for a b
    using that powi_mono [of b a] by (cases "a < b") simp_all
  have "?h < ?g" if "p < n"
  proof -
    have "(2 :: real) powi (?h + 1) \<le> 2 * 10 ^ p" using h(1) by (simp add: power_int_add)
    also have "\<dots> \<le> 10 ^ Suc p" by simp
    also have "\<dots> \<le> 10 ^ n" using that by (intro power_increasing) simp_all
    also have "\<dots> < 2 powi (?g + 1)" by (rule g(2))
    finally show ?thesis using less by fastforce
  qed
  moreover have "?g \<le> ?h" if "n \<le> p"
  proof -
    have "(2 :: real) powi ?g \<le> 10 ^ p" using g(1) that power_increasing [of n p "10 :: real"] by linarith
    then have "(2 :: real) powi ?g < 2 powi (?h + 1)" using h(2) by linarith
    then show ?thesis using less by fastforce
  qed
  ultimately show ?thesis using pos [OF g(2)] pos [OF h(2)] by (cases "p < n") auto
qed

text \<open>The factor that also accounts for the precision.\<close>

lemma precision_scaling:
  assumes f: "finite_fp f" "canonical t f" "fp_real f = 10 ^ n" "int n \<le> PRINTF_MAX_PRECOMPUTED_POWER_OF_10 t"
    and q: "finite_fp q" "canonical t q" "fp_real q = 10 ^ p" "int p \<le> PRINTF_MAX_PRECOMPUTED_POWER_OF_10 t"
    and r: "finite_fp r" "canonical t r" "\<bar>fp_real r\<bar> \<le> 2 * T" and T: "T = (if neg then 1 / 10 ^ n else 10 ^ n)"
  obtains v where "rounded t v (apply_scaling t r (update_normalization t \<lparr>raw_factor = f, multiply = neg\<rparr> q))"
    "\<bar>v - fp_real r * (10 ^ p / T)\<bar> \<le> 2 * 10 ^ p / 2 powi (MANT_DIG t)"
proof -
  have np: "n \<le> 17" "p \<le> 17" using f(4) q(4) power_bound(1) [of t] by simp_all
  have small: "(10 :: real) ^ n \<le> 10 ^ 17" "(10 :: real) ^ p \<le> 10 ^ 17"
    using power_increasing [of n 17 "10 :: real"] power_increasing [of p 17 "10 :: real"] np by simp_all
  have Tpos: "0 < T" by (simp add: T)
  have rP: "\<bar>fp_real r * (10 ^ p / T)\<bar> \<le> 2 * 10 ^ p"
  proof -
    have "\<bar>fp_real r\<bar> * (10 ^ p / T) \<le> 2 * T * (10 ^ p / T)" using r(3) Tpos by (intro mult_right_mono) simp_all
    then show ?thesis using Tpos by (simp add: abs_mult)
  qed
  have lim: "\<bar>v\<bar> \<le> 2 powi (emax t + MANT_DIG t - 1)" if "\<bar>v\<bar> \<le> 10 ^ 36" for v :: real
    using that type_range(2) [of t] by linarith
  show thesis
  proof (cases neg)
    case True
    have T': "T = 1 / 10 ^ n" using True T by simp
    have prod: "(10 :: real) ^ n * 10 ^ p \<le> 10 ^ 17 * 10 ^ 17" using small by (intro mult_mono) simp_all
    have F: "rounded t (10 ^ n * 10 ^ p) (fp_mul t f q)"
      using rounded_mul [OF f(1) q(1) f(2) q(2)] prod lim [of "10 ^ n * 10 ^ p"] by (simp add: f(3) q(3))
    let ?F = "fp_mul t f q"
    have "(1 :: real) * 1 \<le> 10 ^ n * 10 ^ p" by (intro mult_mono) simp_all
    then have eF: "\<bar>fp_real ?F - 10 ^ n * 10 ^ p\<bar> \<le> 10 ^ n * 10 ^ p / 2 powi (MANT_DIG t)"
      by (intro rounded_error_le [OF F]) simp_all
    have M: "1 \<le> (2 :: real) powi (MANT_DIG t)" using powi_mono [of 0 "MANT_DIG t"] MANT_DIG_pos(1) [of t] by simp
    have "10 ^ n * 10 ^ p / 2 powi (MANT_DIG t) \<le> (10 :: real) ^ n * 10 ^ p"
      using M by (simp add: divide_le_eq mult_le_cancel_left1 mult_less_0_iff)
    then have absF: "\<bar>fp_real ?F\<bar> \<le> 2 * (10 ^ n * 10 ^ p)" using eF by linarith
    have d: "\<bar>fp_real r * fp_real ?F - fp_real r * (10 ^ p / T)\<bar> \<le> 2 * 10 ^ p / 2 powi (MANT_DIG t)"
    proof -
      have "fp_real r * fp_real ?F - fp_real r * (10 ^ p / T) = fp_real r * (fp_real ?F - 10 ^ n * 10 ^ p)"
        by (simp add: T' algebra_simps)
      then have "\<bar>fp_real r * fp_real ?F - fp_real r * (10 ^ p / T)\<bar> = \<bar>fp_real r\<bar> * \<bar>fp_real ?F - 10 ^ n * 10 ^ p\<bar>"
        by (simp add: abs_mult)
      also have "\<dots> \<le> 2 * T * (10 ^ n * 10 ^ p / 2 powi (MANT_DIG t))" using r(3) eF by (intro mult_mono) simp_all
      also have "\<dots> = 2 * 10 ^ p / 2 powi (MANT_DIG t)" by (simp add: T')
      finally show ?thesis .
    qed
    have "\<bar>fp_real r * fp_real ?F\<bar> \<le> 10 ^ 36"
    proof -
      have "\<bar>fp_real r\<bar> * \<bar>fp_real ?F\<bar> \<le> 2 * T * (2 * (10 ^ n * 10 ^ p))" using r(3) absF by (intro mult_mono) simp_all
      also have "\<dots> = 4 * 10 ^ p" by (simp add: T')
      also have "\<dots> \<le> 10 ^ 36" using small(2) by simp
      finally show ?thesis by (simp add: abs_mult)
    qed
    then have "rounded t (fp_real r * fp_real ?F) (fp_mul t r ?F)"
      using rounded_mul [OF r(1) roundedD(1) [OF F] r(2) roundedD(2) [OF F]] lim by blast
    then show thesis
      using that d True by (simp add: apply_scaling_def update_normalization_def)
  next
    case False
    have T': "T = 10 ^ n" using False T by simp
    have big: "\<bar>fp_real r * (10 ^ p / T)\<bar> \<le> 10 ^ 36" using rP small(2) by simp
    note cmp = power_exponents [OF f(2,3) q(2,3)]
    show thesis
    proof (cases "p < n")
      case True
      have k: "(10 :: real) ^ n / 10 ^ p = 10 ^ (n - p)" using True by (simp add: power_diff)
      have rk: "representable t (10 ^ (n - p))" using f(4) by (intro power_representable) simp
      have D: "rounded t (10 ^ (n - p)) (fp_div t f q)"
        using rounded_div [OF f(1) q(1) f(2) q(2)] lim [of "10 ^ (n - p)"] power_increasing [of "n - p" 36 "10 :: real"] np(1)
        by (simp add: f(3) q(3) k)
      let ?D = "fp_div t f q"
      have val: "fp_real ?D = 10 ^ (n - p)" using roundedD(4) [OF D rk] .
      have v: "fp_real r / fp_real ?D = fp_real r * (10 ^ p / T)"
        unfolding val k [symmetric] T' by simp
      have "rounded t (fp_real r / fp_real ?D) (fp_div t r ?D)"
        by (rule rounded_div [OF r(1) roundedD(1) [OF D] r(2) roundedD(2) [OF D]]) (simp add: val, simp only: v lim [OF big])
      then show thesis
        using that [of "fp_real r / fp_real ?D"] False cmp True
        by (simp add: apply_scaling_def update_normalization_def Let_def v)
    next
      case le: False
      have k: "(10 :: real) ^ p / 10 ^ n = 10 ^ (p - n)" using le by (simp add: power_diff)
      have rk: "representable t (10 ^ (p - n))" using q(4) by (intro power_representable) simp
      have D: "rounded t (10 ^ (p - n)) (fp_div t q f)"
        using rounded_div [OF q(1) f(1) q(2) f(2)] lim [of "10 ^ (p - n)"] power_increasing [of "p - n" 36 "10 :: real"] np(2)
        by (simp add: f(3) q(3) k)
      let ?D = "fp_div t q f"
      have val: "fp_real ?D = 10 ^ (p - n)" using roundedD(4) [OF D rk] .
      have v: "fp_real r * fp_real ?D = fp_real r * (10 ^ p / T)"
        unfolding val k [symmetric] T' by simp
      have "rounded t (fp_real r * fp_real ?D) (fp_mul t r ?D)"
        by (rule rounded_mul [OF r(1) roundedD(1) [OF D] r(2) roundedD(2) [OF D]]) (simp only: v lim [OF big])
      then show thesis
        using that [of "fp_real r * fp_real ?D"] False cmp le
        by (simp add: apply_scaling_def update_normalization_def Let_def v)
    qed
  qed
qed

section \<open>Rounding the fraction\<close>

lemma and_minus_two: "x AND - 2 = 2 * (x div 2)" for x :: int
proof -
  have "x AND NOT (mask 1) = push_bit 1 (drop_bit 1 x)"
    by (rule bit_eqI) (auto simp: bit_and_iff bit_not_iff bit_push_bit_iff bit_drop_bit_eq bit_mask_iff simp del: mask_Suc_0 One_nat_def not_one_eq)
  then show ?thesis by (simp add: push_bit_eq_mult drop_bit_eq_div)
qed

lemma scaled_rounding:
  assumes w: "finite_fp w" "canonical t w" "- 1 < fp_real w" "fp_real w < 2 ^ 63"
  defines "f \<equiv> (if fp_real w < 0 then 0 else \<lfloor>fp_real w\<rfloor>)"
  defines "rest \<equiv> fp_sub t w (fp_of_int t f)"
  defines "j \<equiv> f + of_bool (fp_le (fp_const t 1 2) rest)"
  defines "m \<equiv> (if fp_real w < 0 then 0 else nearest_even (fp_real w))"
  shows "fp_trunc 64 w = Some f" "(if fp_eq rest (fp_const t 1 2) then j AND NOT 1 else j) = m"
    "finite_fp (fp_of_int t m)" "fp_real (fp_of_int t m) = real_of_int m"
proof -
  have r0: "representable t (real_of_int 0)" by (rule representable_int) simp
  show "fp_trunc 64 w = Some f"
  proof (cases "fp_real w < 0")
    case True
    then have "\<lfloor>- fp_real w\<rfloor> = 0" using w(3) by (intro floor_unique) simp_all
    then show ?thesis using fp_trunc_eq [OF w(1,2), of 64] True by (simp add: truncated_def f_def)
  next
    case False
    then show ?thesis using rounded_number(1) [OF w(1,2) _ w(4)] by (simp add: f_def)
  qed
  have rf: "representable t (real_of_int f)" "representable t (fp_real w - real_of_int f)"
    using representable_floor [OF canonical_representable [OF w(2)]] canonical_representable [OF w(2)] r0
    by (auto simp: f_def)
  note i = fp_of_int_exact [OF rf(1)]
  have s: "finite_fp rest" "fp_real rest = fp_real w - real_of_int f"
    using fp_sub_exact [OF w(1) i(1), of t] i(2) rf(2) by (simp_all add: rest_def)
  note cmp = fp_compare(3) [OF half(1) s(1), of t] fp_compare(2) [OF s(1) half(1), of t]
  show "(if fp_eq rest (fp_const t 1 2) then j AND NOT 1 else j) = m"
  proof (cases "fp_real w < 0")
    case True
    then show ?thesis unfolding j_def cmp s(2) half(3) by (simp add: f_def m_def)
  next
    case False
    then show ?thesis unfolding j_def cmp s(2) half(3)
      by (auto simp: f_def m_def nearest_even_def Let_def and_minus_two elim!: oddE evenE)
  qed
  show "finite_fp (fp_of_int t m)" "fp_real (fp_of_int t m) = real_of_int m"
    using rounded_number(3,4) [OF w(1,2) _ w(4)] fp_of_int_exact [OF r0] by (auto simp: m_def)
qed

section \<open>The components\<close>

text \<open>The error of the scaled fraction, from the errors of the single operations.\<close>

lemma scaled_estimate:
  fixes y T P eps u r v w i s :: real
  assumes eps: "0 \<le> eps" "eps \<le> 1 / 1000" and T: "0 < T" and P: "1 \<le> P"
    and s: "\<bar>s - y\<bar> \<le> 10 * eps" "i \<le> s" "y \<le> i + 1"
    and u: "\<bar>u - i * T\<bar> \<le> 10 * T * eps"
  shows "\<bar>y * T - u\<bar> \<le> 2 * T"
    "\<bar>r - (y * T - u)\<bar> \<le> 2 * T * eps \<Longrightarrow> \<bar>r\<bar> \<le> 2 * T"
    "\<bar>r - (y * T - u)\<bar> \<le> 2 * T * eps \<Longrightarrow> \<bar>v - r * (P / T)\<bar> \<le> 2 * P * eps \<Longrightarrow> \<bar>v\<bar> \<le> 2 * P"
    "\<bar>r - (y * T - u)\<bar> \<le> 2 * T * eps \<Longrightarrow> \<bar>v - r * (P / T)\<bar> \<le> 2 * P * eps \<Longrightarrow> \<bar>w - v\<bar> \<le> 2 * P * eps \<Longrightarrow>
      \<bar>w - (y - i) * P\<bar> \<le> 16 * (P * eps)"
proof -
  define u' where "u' = u / T"
  have u': "u = u' * T" using T by (simp add: u'_def)
  have eu: "\<bar>u' - i\<bar> \<le> 10 * eps"
  proof -
    have "u - i * T = (u' - i) * T" by (simp add: u' algebra_simps)
    with u have "\<bar>u' - i\<bar> * T \<le> 10 * eps * T" using T by (simp add: abs_mult mult_ac)
    then show ?thesis by (simp only: mult_le_cancel_right_pos [OF T])
  qed
  have yi: "- 10 * eps \<le> y - i" "y - i \<le> 1" using s by linarith+
  have d: "\<bar>y - u'\<bar> \<le> 1 + 20 * eps" using eu yi eps by linarith
  have e1: "y * T - u = (y - u') * T" by (simp add: left_diff_distrib u' [symmetric])
  show A: "\<bar>y * T - u\<bar> \<le> 2 * T"
    unfolding e1 abs_mult using T d eps by (simp add: mult_right_mono)
  define r' where "r' = r / T"
  have r': "r = r' * T" using T by (simp add: r'_def)
  assume r: "\<bar>r - (y * T - u)\<bar> \<le> 2 * T * eps"
  have er: "\<bar>r' - (y - u')\<bar> \<le> 2 * eps"
  proof -
    have "r - (y * T - u) = (r' - (y - u')) * T" unfolding e1 by (simp add: r' left_diff_distrib)
    with r have "\<bar>r' - (y - u')\<bar> * T \<le> 2 * eps * T" using T by (simp add: abs_mult mult_ac)
    then show ?thesis by (simp only: mult_le_cancel_right_pos [OF T])
  qed
  then have rb: "\<bar>r'\<bar> \<le> 1 + 22 * eps" using d by linarith
  then show "\<bar>r\<bar> \<le> 2 * T" using T eps by (simp add: r' abs_mult)
  assume v: "\<bar>v - r * (P / T)\<bar> \<le> 2 * P * eps"
  have rP: "r * (P / T) = r' * P" using T by (simp add: r')
  have "\<bar>r'\<bar> * P \<le> (1 + 22 * eps) * P" using rb P by (intro mult_right_mono) simp_all
  moreover have "\<bar>r' * P\<bar> = \<bar>r'\<bar> * P" "(1 + 22 * eps) * P = P + 22 * (P * eps)"
    using P by (simp_all add: abs_mult distrib_right)
  ultimately have rP': "\<bar>r' * P\<bar> \<le> P + 22 * (P * eps)" by linarith
  have "P * eps \<le> P * (1 / 1000)" using eps P by (intro mult_left_mono) simp_all
  then have Pe: "P * eps \<le> P / 1000" by simp
  have v2: "\<bar>v - r' * P\<bar> \<le> 2 * (P * eps)" using v unfolding rP by simp
  show "\<bar>v\<bar> \<le> 2 * P" using v2 rP' Pe P by linarith
  assume w: "\<bar>w - v\<bar> \<le> 2 * P * eps"
  have "\<bar>r' - (y - i)\<bar> \<le> 12 * eps" using er eu by linarith
  then have "\<bar>r' - (y - i)\<bar> * P \<le> 12 * eps * P" using P by (intro mult_right_mono) simp_all
  moreover have "r' * P - (y - i) * P = (r' - (y - i)) * P" by (simp add: algebra_simps)
  ultimately have "\<bar>r' * P - (y - i) * P\<bar> \<le> 12 * (P * eps)"
    using P by (simp add: abs_mult mult_ac)
  then show "\<bar>w - (y - i) * P\<bar> \<le> 16 * (P * eps)" using w v2 by linarith
qed

lemma normalized_components:
  fixes precision :: u32 and y :: real
  assumes x: "finite_fp x" "canonical t x" "fp_real x = y * 10 powi e" "1 \<le> y" "y \<le> 10"
    and e: "\<bar>e\<bar> < PRINTF_MAX_PRECOMPUTED_POWER_OF_10 t" "powers_of_10 t \<bar>e\<bar> = Some f"
    and prec: "uint precision \<le> PRINTF_MAX_PRECOMPUTED_POWER_OF_10 t"
  defines "p \<equiv> unat precision"
  assumes fit: "32 * 10 ^ p \<le> (2 :: real) powi (MANT_DIG t)"
  obtains c where "get_normalized_components t negative precision x \<lparr>raw_factor = f, multiply = e < 0\<rparr> e = Some c"
    "is_negative c = negative" "valid_components c p"
    "\<bar>real_of_int (components_value c p) - y * 10 ^ p\<bar> \<le> 1 / 2 + 16 * (10 ^ p / 2 powi (MANT_DIG t))"
proof -
  define n where "n = nat \<bar>e\<bar>"
  define T where "T = (if e < 0 then 1 / 10 ^ n else 10 ^ n :: real)"
  define N where "N = \<lparr>raw_factor = f, multiply = e < 0\<rparr>"
  define eps where "eps = 1 / (2 :: real) powi (MANT_DIG t)"
  define P where "P = (10 :: real) ^ p"
  have n: "int n \<le> PRINTF_MAX_PRECOMPUTED_POWER_OF_10 t" "n \<le> 17" "n \<le> 36"
    using e(1) power_bound(1) [of t] by (simp_all add: n_def)
  have p1: "int p \<le> PRINTF_MAX_PRECOMPUTED_POWER_OF_10 t" using prec by (simp add: p_def)
  then have p: "int p \<le> PRINTF_MAX_PRECOMPUTED_POWER_OF_10 t" "p \<le> 17"
    using power_bound(1) [of t] by linarith+
  have T: "10 powi e = T" "0 < T" by (simp_all add: T_def n_def power_int_def inverse_eq_divide power_one_over split: if_split)
  have x': "fp_real x = y * T" using x(3) T(1) by simp
  have pn: "1 \<le> (10 :: real) ^ n" "(10 :: real) ^ n \<le> 10 ^ 17" "(10 :: real) ^ p \<le> 10 ^ 17"
    using power_increasing [OF n(2), of "10 :: real"] power_increasing [OF p(2), of "10 :: real"] by simp_all
  have inv: "1 / 10 ^ 17 \<le> 1 / (10 :: real) ^ n" "1 / (10 :: real) ^ n \<le> 1"
    using frac_le [of 1 1 "10 ^ n" "10 ^ 17 :: real"] pn(1,2) by simp_all
  have "1 / 10 ^ 17 \<le> T \<and> T \<le> 10 ^ 17"
  proof (cases "e < 0")
    case True
    then have "T = 1 / 10 ^ n" by (simp add: T_def)
    moreover have "(1 :: real) \<le> 10 ^ 17" by simp
    ultimately show ?thesis using inv by (metis order_trans)
  next
    case False
    then have "T = 10 ^ n" by (simp add: T_def)
    moreover have "1 / 10 ^ 17 \<le> (1 :: real)" by simp
    ultimately show ?thesis using pn(1,2) by (metis order_trans)
  qed
  then have Tb: "1 / 10 ^ 17 \<le> T" "T \<le> 10 ^ 17" by blast+
  have P: "1 \<le> P" "P \<le> 10 ^ 17" using pn(3) by (simp_all add: P_def)
  have lim: "\<bar>v\<bar> \<le> 2 powi (emax t + MANT_DIG t - 1)" if "\<bar>v\<bar> \<le> 10 ^ 36" for v :: real
    using that type_range(2) [of t] by linarith
  have eps: "0 \<le> eps" "eps \<le> 1 / 1000"
  proof -
    have "(2 :: real) powi 24 \<le> 2 powi (MANT_DIG t)" by (rule powi_mono) (cases t; simp)
    then have "1 / (2 :: real) powi (MANT_DIG t) \<le> 1 / 2 powi 24" by (intro frac_le) simp_all
    then show "eps \<le> 1 / 1000" by (simp add: eps_def)
  qed (simp add: eps_def)
  have fit': "32 * (P * eps) \<le> 1" using fit by (simp add: P_def eps_def divide_le_eq)
  obtain f' where "powers_of_10 t \<bar>e\<bar> = Some f'" "finite_fp f'" "canonical t f'" "fp_real f' = 10 ^ n"
    by (rule powers_of_10_Some [of "\<bar>e\<bar>" t]) (use e(1) in \<open>simp_all add: n_def\<close>)
  with e(2) have f: "finite_fp f" "canonical t f" "fp_real f = 10 ^ n" by simp_all
  obtain q where q: "powers_of_10 t (uint precision) = Some q" "finite_fp q" "canonical t q" "fp_real q = 10 ^ p"
    by (rule powers_of_10_Some [of "uint precision" t]) (use prec in \<open>simp_all add: p_def\<close>)
  \<comment> \<open>the integral digit\<close>
  define s where "s = apply_scaling t x N"
  have s: "rounded t y s"
  proof (cases "e < 0")
    case True
    have v: "fp_real x * fp_real f = y" using True by (simp add: x' f(3) T_def)
    then show ?thesis
      using rounded_mul [OF x(1) f(1) x(2) f(2)] True lim [of y] x(4,5)
      by (simp add: s_def N_def apply_scaling_def)
  next
    case False
    have v: "fp_real x / fp_real f = y" using False by (simp add: x' f(3) T_def)
    then show ?thesis
      using rounded_div [OF x(1) f(1) x(2) f(2)] False lim [of y] x(4,5) f(3)
      by (simp add: s_def N_def apply_scaling_def)
  qed
  have int_rep: "representable t (real_of_int k)" if "0 \<le> k" "k \<le> 11" for k
    using that pow2_mono [of 4 "MANT_DIG t"] by (intro representable_int) (cases t; simp add: pow2_eq)
  have s10: "1 \<le> fp_real s" "fp_real s \<le> 10"
    using roundedD(5) [OF s, of 10] roundedD(6) [OF s, of 1] x(4,5) int_rep [of 1] int_rep [of 10] by simp_all
  define i where "i = \<lfloor>fp_real s\<rfloor>"
  have i: "1 \<le> i" "i \<le> 10" using s10 by (simp_all add: i_def le_floor_iff floor_le_iff)
  have si: "real_of_int i \<le> fp_real s" by (simp add: i_def)
  have yi: "y \<le> real_of_int i + 1"
  proof (rule ccontr)
    assume "\<not> y \<le> real_of_int i + 1"
    then have "real_of_int (i + 1) \<le> fp_real s"
      using roundedD(6) [OF s, of "real_of_int (i + 1)"] i x(4) int_rep [of "i + 1"] by simp
    then show False by (simp add: i_def) linarith
  qed
  have trunc: "fp_trunc 64 s = Some i"
    using rounded_number(1) [OF roundedD(1,2) [OF s]] s10 by (simp add: i_def)
  have ei: "\<bar>fp_real s - y\<bar> \<le> 10 * eps"
    using rounded_error_le [OF s, of 10] x(4,5) by (simp add: eps_def)
  \<comment> \<open>the remainder\<close>
  have ir: "representable t (real_of_int i)" by (rule int_rep) (use i in simp_all)
  note oi = fp_of_int_exact [OF ir]
  define u where "u = unapply_scaling t (fp_of_int t i) N"
  have iT: "\<bar>real_of_int i * T\<bar> \<le> 10 * T" using i T(2) by (simp add: abs_mult)
  then have iT': "\<bar>real_of_int i * T\<bar> \<le> 10 ^ 36" using Tb(2) by simp
  have u: "rounded t (real_of_int i * T) u"
  proof (cases "e < 0")
    case True
    have v: "fp_real (fp_of_int t i) / fp_real f = real_of_int i * T" using True by (simp add: oi(2) f(3) T_def)
    have "rounded t (fp_real (fp_of_int t i) / fp_real f) (fp_div t (fp_of_int t i) f)"
      by (rule rounded_div [OF oi(1) f(1) _ f(2)]) (simp_all only: canonical_of_int v lim [OF iT'], simp add: f(3))
    with True show ?thesis by (simp only: v) (simp add: u_def N_def unapply_scaling_def)
  next
    case False
    have v: "fp_real (fp_of_int t i) * fp_real f = real_of_int i * T" using False by (simp add: oi(2) f(3) T_def)
    have "rounded t (fp_real (fp_of_int t i) * fp_real f) (fp_mul t (fp_of_int t i) f)"
      by (rule rounded_mul [OF oi(1) f(1) _ f(2)]) (simp_all only: canonical_of_int v lim [OF iT'])
    with False show ?thesis by (simp only: v) (simp add: u_def N_def unapply_scaling_def)
  qed
  have "1 / 10 ^ 36 \<le> 10 * T" using Tb(1) by simp
  then have eu: "\<bar>fp_real u - real_of_int i * T\<bar> \<le> 10 * T * eps"
    using rounded_error_le [OF u iT] by (simp add: eps_def)
  note est = scaled_estimate [OF eps T(2) P(1) ei si yi eu]
  define r where "r = fp_sub t x u"
  have "\<bar>y * T - fp_real u\<bar> \<le> 10 ^ 36" using est(1) Tb(2) by simp
  then have r: "rounded t (y * T - fp_real u) r"
    unfolding r_def x' [symmetric] by (intro rounded_sub [OF x(1) roundedD(1) [OF u]]) (simp only: x' lim)
  have "1 / 10 ^ 36 \<le> 2 * T" using Tb(1) by simp
  then have er: "\<bar>fp_real r - (y * T - fp_real u)\<bar> \<le> 2 * T * eps"
    using rounded_error_le [OF r est(1)] by (simp add: eps_def)
  \<comment> \<open>the scaled fraction\<close>
  define w where "w = apply_scaling t r (update_normalization t N q)"
  obtain v where v: "rounded t v w" "\<bar>v - fp_real r * (P / T)\<bar> \<le> 2 * P * eps"
    using precision_scaling [OF f n(1) q(2-4) p(1) roundedD(1,2) [OF r] est(2) [OF er] T_def]
    by (auto simp: w_def N_def eps_def P_def)
  have "1 / 10 ^ 36 \<le> 2 * P" using P(1) by simp
  then have "\<bar>fp_real w - v\<bar> \<le> 2 * P * eps"
    using rounded_error_le [OF v(1) est(3) [OF er v(2)]] by (simp add: eps_def)
  note ew = est(4) [OF er v(2) this]
  have low: "- (10 * (P * eps)) \<le> (y - real_of_int i) * P"
  proof -
    have "- (10 * eps) * P \<le> (y - real_of_int i) * P" using ei si P(1) by (intro mult_right_mono) linarith+
    then show ?thesis by (simp add: mult_ac)
  qed
  have high: "(y - real_of_int i) * P \<le> P" using yi P(1) by (simp add: mult_le_cancel_right1)
  have wb: "- 1 < fp_real w" "fp_real w < 2 ^ 63"
    using ew low high fit' P by (simp_all, linarith+)
  note sr = scaled_rounding [OF roundedD(1,2) [OF v(1)] wb]
  define m where "m = (if fp_real w < 0 then 0 else nearest_even (fp_real w))"
  have m0: "0 \<le> m" by (simp add: m_def nearest_even_def Let_def)
  have em: "\<bar>real_of_int m - (y - real_of_int i) * P\<bar> \<le> 1 / 2 + 16 * (P * eps)"
  proof (cases "fp_real w < 0")
    case True
    have "0 \<le> P * eps" using P eps by simp
    with True ew low show ?thesis by (simp add: m_def)
  next
    case False
    then have "m = nearest_even (fp_real w)" by (simp add: m_def)
    then show ?thesis using nearest_even_error [of "fp_real w"] ew by linarith
  qed
  have cmp: "fp_le q (fp_of_int t m) \<longleftrightarrow> 10 ^ p \<le> m"
  proof -
    have "fp_le q (fp_of_int t m) \<longleftrightarrow> 10 ^ p \<le> real_of_int m"
      using fp_compare(3) [OF q(2) sr(3) [folded m_def]] q(4) sr(4) [folded m_def] by simp
    then show ?thesis by (metis of_int_le_iff of_int_numeral of_int_power)
  qed
  have near: "\<not> FP_TYPE_MAX_10_EXP t - 1 \<le> - e + sint precision"
  proof -
    have "sint precision = uint precision"
    proof -
      have "- (2 ^ 31) \<le> uint precision" by (rule order_trans [OF _ uint_ge_0]) simp
      moreover have "uint precision < 2 ^ 31" using prec power_bound(1) [of t] by simp
      ultimately show ?thesis by (simp add: sint_uint signed_take_bit_int_eq_self)
    qed
    then show ?thesis
      using e(1) prec by (cases t) (simp_all add: FP_TYPE_MAX_10_EXP_def PRINTF_MAX_PRECOMPUTED_POWER_OF_10_def NUM_DECIMAL_DIGITS_IN_INT64_T_def)
  qed
  define c where "c = (if 10 ^ p \<le> m then \<lparr>integral = i + 1, fractional = 0, is_negative = negative\<rparr>
    else \<lparr>integral = i, fractional = m, is_negative = negative\<rparr>)"
  show thesis
  proof (rule that)
    show "get_normalized_components t negative precision x \<lparr>raw_factor = f, multiply = e < 0\<rparr> e = Some c"
      unfolding get_normalized_components_def Let_def N_def [symmetric] if_not_P [OF near] s_def [symmetric] trunc
        bind.bind_lunit u_def [symmetric] r_def [symmetric] q(1) w_def [symmetric] sr(1) sr(2) m_def [symmetric] cmp
      by (simp add: c_def)
    show "is_negative c = negative" by (simp add: c_def)
    show "valid_components c p" using i m0 by (simp add: c_def valid_components_def)
    show "\<bar>real_of_int (components_value c p) - y * 10 ^ p\<bar> \<le> 1 / 2 + 16 * (10 ^ p / 2 powi (MANT_DIG t))"
    proof -
      have e16: "10 ^ p / 2 powi (MANT_DIG t) = P * eps" by (simp add: P_def eps_def)
      have split: "(y - real_of_int i) * P = y * P - real_of_int i * P" by (rule left_diff_distrib)
      have "\<bar>real_of_int (components_value c p) - y * P\<bar> \<le> 1 / 2 + 16 * (P * eps)"
      proof (cases "10 ^ p \<le> m")
        case True
        then have "P \<le> real_of_int m" unfolding P_def by (metis of_int_le_iff of_int_numeral of_int_power)
        moreover have "real_of_int (components_value c p) = real_of_int i * P + P"
          using True by (simp add: c_def components_value_def P_def distrib_right)
        ultimately show ?thesis using em high unfolding split by linarith
      next
        case False
        then have "real_of_int (components_value c p) = real_of_int i * P + real_of_int m"
          by (simp add: c_def components_value_def P_def)
        then show ?thesis using em unfolding split by linarith
      qed
      then show ?thesis unfolding e16 P_def .
    qed
  qed
qed

section \<open>The conversion \<open>%e\<close>\<close>

text \<open>C23. \<^verbatim>\<open>%e\<close> of a number whose decimal exponent the table of powers covers, for the precisions the type
  has room for: sign, one digit, point and \<open>p\<close> digits of a decimal number, which differs from
  the scaled argument by half a unit of the last digit and sixteen roundings, and the exponent
  with its sign and two digits; when rounding reaches 10 it prints 1 and the next exponent.\<close>

theorem exponential_scaled:
  fixes precision :: u32
  assumes x: "finite_fp x" "canonical t x" "10 powi e \<le> \<bar>fp_real x\<bar>" "\<bar>fp_real x\<bar> < 10 powi (e + 1)"
    and scale: "decimal_exponent t (sign (get_sign_bit t x \<noteq> 0) x) = Some (e, True, f)" "e \<noteq> 0"
    and flags: "flags AND decimal_flags = 0" "\<not> flag flags FLAGS_LEFT" "\<not> flag flags FLAGS_UPPERCASE"
  defines "digs \<equiv> (if flag flags FLAGS_PRECISION then precision else 6)"
  assumes digs: "uint digs \<le> PRINTF_MAX_PRECOMPUTED_POWER_OF_10 t"
  defines "p \<equiv> unat digs"
  assumes room: "32 * 10 ^ p \<le> (2 :: real) powi (MANT_DIG t)"
  shows "\<exists>n ys. (\<forall>g. print_floating_point True t g x precision width flags True =
      put_all (replicate (unat width - length ys) 0x20 @ ys) g) \<and>
    ys = (if n < 10 * 10 ^ p then decimal_notation (get_sign_bit t x \<noteq> 0) p n @ 0x65 # exponent_notation e
      else decimal_notation (get_sign_bit t x \<noteq> 0) p (10 ^ p) @ 0x65 # exponent_notation (e + 1)) \<and>
    \<bar>real n - \<bar>fp_real x\<bar> / 10 powi e * 10 ^ p\<bar> \<le> 1 / 2 + 16 * (10 ^ p / 2 powi (MANT_DIG t))"
proof -
  define s where "s = (get_sign_bit t x \<noteq> 0)"
  define y where "y = \<bar>fp_real x\<bar> / 10 powi e"
  note a = magnitude [OF x(2,1), folded s_def]
  have ye: "fp_real (sign s x) = y * 10 powi e" by (simp add: a(3) y_def)
  have y: "1 \<le> y" "y \<le> 10"
    using x(3,4) by (simp_all add: y_def le_divide_eq divide_le_eq power_int_add)
  have fc: "\<bar>e\<bar> < PRINTF_MAX_PRECOMPUTED_POWER_OF_10 t" "powers_of_10 t \<bar>e\<bar> = Some f"
    using scale(1) by (auto simp: decimal_exponent_def Let_def s_def bind_eq_Some_conv split: if_splits)
  obtain c where c: "get_normalized_components t s digs (sign s x) \<lparr>raw_factor = f, multiply = e < 0\<rparr> e = Some c"
    "is_negative c = s" "valid_components c p"
    "\<bar>real_of_int (components_value c p) - y * 10 ^ p\<bar> \<le> 1 / 2 + 16 * (10 ^ p / 2 powi (MANT_DIG t))"
    using normalized_components [OF a(1,2) ye y fc digs, folded p_def, OF room, of s] by metis
  have "0 < \<bar>fp_real x\<bar>" by (rule less_le_trans [OF _ x(3)]) simp
  then have comps: "exponential_components t s digs (sign s x) = Some (e, c)"
    using zero_magnitude [OF x(1,2)] scale
    by (simp add: exponential_components_def c(1) s_def [symmetric])
  have "int p \<le> PRINTF_MAX_PRECOMPUTED_POWER_OF_10 t" using digs by (simp add: p_def)
  then have p17: "p \<le> 17" and e18: "\<bar>e\<bar> < 18" using power_bound(1) [of t] fc(1) by linarith+
  note out = exponential_print [OF x(1,2) flags, where precision = precision, folded s_def digs_def,
      OF comps e18 c(2,3) meta_eq_to_obj_eq [OF p_def] p17]
  define n where "n = nat (components_value c p)"
  define ys where "ys = (if n < 10 * 10 ^ p then decimal_notation s p n @ 0x65 # exponent_notation e
    else decimal_notation s p (10 ^ p) @ 0x65 # exponent_notation (e + 1))"
  show ?thesis
  proof (intro exI conjI allI)
    show "print_floating_point True t g x precision width flags True = put_all (replicate (unat width - length ys) 0x20 @ ys) g" for g
      unfolding ys_def n_def by (rule out(1))
    show "ys = (if n < 10 * 10 ^ p then decimal_notation (get_sign_bit t x \<noteq> 0) p n @ 0x65 # exponent_notation e
      else decimal_notation (get_sign_bit t x \<noteq> 0) p (10 ^ p) @ 0x65 # exponent_notation (e + 1))"
      by (simp add: s_def ys_def)
    have "int n = components_value c p" unfolding n_def by (rule out(2))
    then have "real n = real_of_int (components_value c p)" by (metis of_int_of_nat_eq)
    then show "\<bar>real n - \<bar>fp_real x\<bar> / 10 powi e * 10 ^ p\<bar> \<le> 1 / 2 + 16 * (10 ^ p / 2 powi (MANT_DIG t))"
      using c(4) by (simp add: y_def)
  qed
qed

lemma quarter_exponent: "\<exists>f. decimal_exponent Double (Fin False 4503599627370496 (- 54)) = Some (- 1, True, f)"
proof -
  have "map_option (\<lambda>(e, c, f). (e, c)) (decimal_exponent Double (Fin False 4503599627370496 (- 54))) = Some (- 1, True)"
    by code_simp
  then show ?thesis by auto
qed

theorem exponential_scaled_witness:
  "\<forall>g. print_floating_point True Double g (Fin True 4503599627370496 (- 54)) 2 10 FLAGS_PRECISION True =
    put_all [0x20, 0x2D, 0x32, 0x2E, 0x35, 0x30, 0x65, 0x2D, 0x30, 0x31] g"
proof -
  let ?x = "Fin True 4503599627370496 (- 54)"
  have k: "FLAGS_PRECISION AND decimal_flags = 0" "flag FLAGS_PRECISION FLAGS_PRECISION"
      "\<not> flag FLAGS_PRECISION FLAGS_LEFT" "\<not> flag FLAGS_PRECISION FLAGS_UPPERCASE"
    by (simp_all add: decimal_flags_def c_consts flag_def)
  have x: "finite_fp ?x" "canonical Double ?x" by (simp_all add: emin_def emax_def pow2_eq)
  have v: "\<bar>fp_real ?x\<bar> = 1 / 4" by (simp add: power_int_def power_one_over)
  have s: "get_sign_bit Double ?x = 1" by code_simp
  obtain f where f: "decimal_exponent Double (sign (get_sign_bit Double ?x \<noteq> 0) ?x) = Some (- 1, True, f)"
    using quarter_exponent by (auto simp: s sign_def)
  have "\<exists>n ys. (\<forall>g. print_floating_point True Double g ?x 2 10 FLAGS_PRECISION True =
      put_all (replicate (10 - length ys) 0x20 @ ys) g) \<and>
    ys = (if n < 10 * 10 ^ 2 then decimal_notation True 2 n @ 0x65 # exponent_notation (- 1)
      else decimal_notation True 2 (10 ^ 2) @ 0x65 # exponent_notation 0) \<and>
    \<bar>real n - 250\<bar> \<le> 1 / 2 + 16 * (10 ^ 2 / 2 powi 53)"
    using exponential_scaled [where x = ?x and t = Double and flags = FLAGS_PRECISION and precision = 2
        and width = 10, OF x _ _ f _ k(1,3,4)] s k(2) v
    by (simp add: PRINTF_MAX_PRECOMPUTED_POWER_OF_10_def NUM_DECIMAL_DIGITS_IN_INT64_T_def power_int_minus
        del: canonical.simps fp_real.simps split del: if_split cong: if_cong)
  then obtain n ys where n: "\<forall>g. print_floating_point True Double g ?x 2 10 FLAGS_PRECISION True =
      put_all (replicate (10 - length ys) 0x20 @ ys) g"
    "ys = (if n < 10 * 10 ^ 2 then decimal_notation True 2 n @ 0x65 # exponent_notation (- 1)
      else decimal_notation True 2 (10 ^ 2) @ 0x65 # exponent_notation 0)"
    "\<bar>real n - 250\<bar> \<le> 1 / 2 + 16 * (10 ^ 2 / 2 powi 53)" by blast
  from n(3) have "\<bar>real n - 250\<bar> < 1" by simp
  then have "n = 250" by linarith
  moreover have "decimal_notation True 2 250 = [0x2D, 0x32, 0x2E, 0x35, 0x30]"
    by (simp add: decimal_notation_def radix_digits.simps digit_ascii_def numeral_2_eq_2)
  moreover have "exponent_notation (- 1) = [0x2D, 0x30, 0x31]"
    by (simp add: exponent_notation_def digit_ascii_def numeral_2_eq_2)
  ultimately have "ys = [0x2D, 0x32, 0x2E, 0x35, 0x30, 0x65, 0x2D, 0x30, 0x31]" using n(2) by simp
  then show ?thesis using n(1) by (simp add: numeral_2_eq_2)
qed

end
