(* ===== verification/Printf.thy ===== *)
theory Printf
  imports Printf_Format Printf_Scaling
begin

text \<open>
  What the functions of \<^verbatim>\<open>sdk/librv/printf.c\<close> print.  \<open>format_text\<close> gives the
  text of a format and its arguments, independently of the destination and of what
  \<^verbatim>\<open>%n\<close> stores; the entry points deliver this text to a buffer, to a callback or to \<open>putchar_\<close>.
\<close>

section \<open>The rendering of a conversion\<close>

text \<open>
  The text a conversion produces, as a function of the specification and the arguments alone;
  a write-back has none.
\<close>

definition string_text :: "u32 \<Rightarrow> u32 \<Rightarrow> u32 \<Rightarrow> u8 list \<Rightarrow> u8 list option" where
  "string_text flags width precision p = do {
     l \<leftarrow> strnlen_s p (if precision \<noteq> 0 then precision else PRINTF_MAX_POSSIBLE_BUFFER_SIZE);
     let l = (if flag flags FLAGS_PRECISION then min l precision else l);
     let padding = replicate (unat width - unat l) 0x20;
     let shown = takeWhile (\<lambda>c. c \<noteq> 0) p;
     let shown = (if flag flags FLAGS_PRECISION then take (unat precision) shown else shown);
     if length shown < length p
     then Some (if flag flags FLAGS_LEFT then shown @ padding else padding @ shown) else None }"

definition conv_float_flags :: "u8 \<Rightarrow> u32 \<Rightarrow> u32" where
  "conv_float_flags c flags =
     (let flags = (if c = 0x67 \<or> c = 0x47 then flags OR FLAGS_ADAPT_EXP else flags) in
      if c = 0x46 \<or> c = 0x45 \<or> c = 0x47 then flags OR FLAGS_UPPERCASE else flags)"

definition conv_text ::
  "target \<Rightarrow> u8 \<Rightarrow> u32 \<Rightarrow> u32 \<Rightarrow> u32 \<Rightarrow> va_arg list \<Rightarrow> (u8 list \<times> va_arg list) option" where
  "conv_text tg c flags width precision args =
     (if c \<in> {0x64, 0x69, 0x75, 0x78, 0x58, 0x6F, 0x62} then
        let base = conv_base c; flags = conv_flags c flags in
        if flag flags FLAGS_SIGNED then
          map_option (\<lambda>(v, args).
            (integer_text (ABS_FOR_PRINTING v) (v <s 0) base precision width flags, args))
            (signed_arg tg flags args)
        else
          let flags = flags AND NOT (FLAGS_PLUS OR FLAGS_SPACE) in
          map_option (\<lambda>(v, args). (integer_text v False base precision width flags, args))
            (unsigned_arg tg flags args)
      else if is_float_conv tg c then do {
        (x, args) \<leftarrow> next_float tg flags args;
        xs \<leftarrow> float_text (exponential_specifiers tg) (internal_type tg) x precision width
          (conv_float_flags c flags) (c \<noteq> 0x66 \<and> c \<noteq> 0x46);
        Some (xs, args) }
      else if c = 0x63 then
        map_option (\<lambda>(v, args).
          let padding = replicate (unat width - 1) 0x20 in
          (if flag flags FLAGS_LEFT then ucast v # padding else padding @ [ucast v], args))
          (next_int args)
      else if c = 0x73 then do {
        (s, args) \<leftarrow> next_str args;
        xs \<leftarrow> (case s of
          None \<Rightarrow> Some (rev_text [0x29, 0x6C, 0x6C, 0x75, 0x6E, 0x28] width flags)
        | Some p \<Rightarrow> string_text flags width precision p);
        Some (xs, args) }
      else if c = 0x70 then
        let width = (if lp64 tg then 18 else 10); flags = flags OR (FLAGS_ZEROPAD OR FLAGS_POINTER) in
        map_option (\<lambda>(v, args).
          (if v = 0 then rev_text [0x29, 0x6C, 0x69, 0x6E, 0x28] width flags
           else integer_text v False BASE_HEX precision width flags, args))
          (next_ptr tg args)
      else if c = 0x6E \<and> writeback_specifier tg then None
      else Some ([c], args))"

lemma conv_base_range: "2 \<le> unat (conv_base c)" "unat (conv_base c) \<le> 16"
  by (simp_all add: conv_base_def c_consts)

lemma put_string_eq:
  "put_string flags precision p g =
     (let shown = takeWhile (\<lambda>c. c \<noteq> 0) p;
          shown = (if flag flags FLAGS_PRECISION then take (unat precision) shown else shown)
      in if length shown < length p then put_all shown g else None)"
proof (induction p arbitrary: precision g)
  case (Cons c p)
  show ?case
  proof (cases "c \<noteq> 0 \<and> (\<not> flag flags FLAGS_PRECISION \<or> precision \<noteq> 0)")
    case True
    moreover have "unat precision = Suc (unat (precision - 1))" if "precision \<noteq> 0"
      using unat_less_step(1) [of "precision - 1" precision] that
      by (simp add: word_less_nat_alt unat_sub_if' unat_gt_0 Suc_le_eq)
    ultimately show ?thesis
      by (auto simp: Cons Let_def cong: Option.bind_cong)
  next
    case False
    then show ?thesis by (auto simp: Let_def)
  qed
qed simp


lemma out_rev_names:
  "out_rev g [0x29, 0x6C, 0x6C, 0x75, 0x6E, 0x28] 6 width flags =
    put_all (rev_text [0x29, 0x6C, 0x6C, 0x75, 0x6E, 0x28] width flags) g"
  "out_rev g [0x29, 0x6C, 0x69, 0x6E, 0x28] 5 width flags =
    put_all (rev_text [0x29, 0x6C, 0x69, 0x6E, 0x28] width flags) g"
  using out_rev_eq [of "[0x29, 0x6C, 0x6C, 0x75, 0x6E, 0x28]" g width flags]
    out_rev_eq [of "[0x29, 0x6C, 0x69, 0x6E, 0x28]" g width flags] by simp_all

lemma print_string_eq:
  "do { l \<leftarrow> strnlen_s p (if precision \<noteq> 0 then precision else PRINTF_MAX_POSSIBLE_BUFFER_SIZE);
        let l = (if flag flags FLAGS_PRECISION then if l < precision then l else precision else l);
        output \<leftarrow> (if \<not> flag flags FLAGS_LEFT then pad_spaces l width output else Some output);
        output \<leftarrow> put_string flags precision p output;
        if flag flags FLAGS_LEFT then pad_spaces l width output else Some output } =
    do { xs \<leftarrow> string_text flags width precision p; put_all xs output }"
proof (cases "strnlen_s p (if precision \<noteq> 0 then precision else PRINTF_MAX_POSSIBLE_BUFFER_SIZE)")
  case (Some l)
  have m: "(if l < precision then l else precision) = min l precision" by (auto simp: min_def)
  show ?thesis
    unfolding string_text_def Some bind.bind_lunit m put_string_eq pad_spaces_eq Let_def
    by (auto simp: fold_option_append split: bind_split)
qed (simp add: string_text_def)

lemma print_conversion_eq:
  assumes w: "\<not> (c = 0x6E \<and> writeback_specifier tg)"
  shows "print_conversion tg g c flags width precision args =
    do { (xs, args) \<leftarrow> conv_text tg c flags width precision args;
         g \<leftarrow> put_all xs g; Some (g, args) }"
proof -
  consider (int) "c \<in> {0x64, 0x69, 0x75, 0x78, 0x58, 0x6F, 0x62}"
    | (float) "is_float_conv tg c" "c \<notin> {0x64, 0x69, 0x75, 0x78, 0x58, 0x6F, 0x62, 0x63, 0x73, 0x70}"
    | (char) "c = 0x63" | (str) "c = 0x73"
    | (ptr) "c = 0x70" | (other) "\<not> is_float_conv tg c" "c \<notin> {0x64, 0x69, 0x75, 0x78, 0x58, 0x6F, 0x62, 0x63, 0x73, 0x70}"
    by blast
  moreover have others: "\<not> is_float_conv tg 0x63" "\<not> is_float_conv tg 0x73" "\<not> is_float_conv tg 0x70"
    by (simp_all add: is_float_conv_def)
  ultimately show ?thesis
  proof cases
    case int
    then have "print_conversion tg g c flags width precision args =
        print_integer_conv tg g c flags width precision args"
      by (simp only: print_conversion_def if_True)
    with int show ?thesis
      by (simp only: conv_text_def if_True print_integer_conv_def Let_def print_integer_eq [OF conv_base_range])
         (auto split: bind_split simp: bind_eq_Some_conv)
  next
    case float
    then have "c \<noteq> 0x64 \<and> c \<noteq> 0x69 \<and> c \<noteq> 0x75 \<and> c \<noteq> 0x78 \<and> c \<noteq> 0x58 \<and> c \<noteq> 0x6F \<and> c \<noteq> 0x62" by simp
    then have "c \<notin> {0x64, 0x69, 0x75, 0x78, 0x58, 0x6F, 0x62}" by blast
    with float(1) have eqs: "print_conversion tg g c flags width precision args =
        print_float_conv tg g c flags width precision args"
      "conv_text tg c flags width precision args = do {
        (x, args) \<leftarrow> next_float tg flags args;
        xs \<leftarrow> float_text (exponential_specifiers tg) (internal_type tg) x precision width
          (conv_float_flags c flags) (c \<noteq> 0x66 \<and> c \<noteq> 0x46);
        Some (xs, args) }"
      unfolding print_conversion_def conv_text_def by (simp_all only: if_False if_True)
    show ?thesis
      unfolding eqs print_float_conv_def conv_float_flags_def Let_def print_floating_point_eq
      by (cases "next_float tg flags args") (simp_all add: case_prod_beta)
  next
    case char
    then show ?thesis
      by (cases "next_int args")
         (auto simp: print_conversion_def conv_text_def others print_char_conv_def pad_spaces_eq fold_option_append
           Let_def split: bind_split)
  next
    case str
    then have "print_conversion tg g c flags width precision args =
        print_string_conv g flags width precision args"
      by (simp add: print_conversion_def others)
    with str show ?thesis
      unfolding print_string_conv_def print_string_eq out_rev_names
      by (cases "next_str args") (auto simp: conv_text_def others split: option.splits)
  next
    case ptr
    have "2 \<le> unat BASE_HEX" "unat BASE_HEX \<le> 16" by (simp_all add: c_consts)
    note hex = print_integer_eq [OF this]
    from ptr show ?thesis
      by (cases "next_ptr tg args")
         (auto simp: print_conversion_def conv_text_def others print_pointer_conv_def out_rev_names Let_def
           hex cong: Option.bind_cong)
  next
    case other
    with w show ?thesis
      by (auto simp: print_conversion_def conv_text_def cong: Option.bind_cong)
  qed
qed


section \<open>The rendering of a format\<close>

text \<open>
  What a format and its arguments denote: the text, independently of where it goes.
  \<open>None\<close> is undefined behaviour, or a write-back.
\<close>

definition spec_text :: "target \<Rightarrow> u8 list \<Rightarrow> va_arg list \<Rightarrow> (u8 list \<times> u8 list \<times> va_arg list) flow" where
  "spec_text tg format args =
     flow_bind (parse_specification tg format args) (\<lambda>(flags, width, precision, format, args).
     flow_bind (peek format) (\<lambda>c.
     flow_bind (of_option (conv_text tg c flags width precision args)) (\<lambda>(xs, args).
       Next (xs, drop 1 format, args))))"

lemma spec_text_length: "spec_text tg format args = Next (xs, format', args') \<Longrightarrow> length format' < length format"
  unfolding spec_text_def
  by (auto simp: flow_bind_Next peek_Next dest!: parse_specification_length)

function format_text :: "target \<Rightarrow> u8 list \<Rightarrow> va_arg list \<Rightarrow> u8 list option" where
  "format_text tg [] args = None"
| "format_text tg (c # format) args =
     (if c = 0 then Some []
      else if c \<noteq> 0x25 then map_option ((#) c) (format_text tg format args)
      else (case spec_text tg (c # format) args of
          Undefined \<Rightarrow> None
        | Return \<Rightarrow> Some []
        | Next (xs, format, args) \<Rightarrow> map_option ((@) xs) (format_text tg format args)))"
  by pat_completeness auto

termination
  by (relation "measure (\<lambda>(_, format, _). length format)") (auto dest: spec_text_length)

lemma conv_text_writeback: "writeback_specifier tg \<Longrightarrow> conv_text tg 0x6E flags width precision args = None"
  by (simp add: conv_text_def is_float_conv_def)

lemma print_conversion_text:
  assumes "conv_text tg c flags width precision args = Some (xs, args')"
  shows "print_conversion tg g c flags width precision args = do { g \<leftarrow> put_all xs g; Some (g, args') }"
proof -
  have "\<not> (c = 0x6E \<and> writeback_specifier tg)" using assms conv_text_writeback by auto
  then show ?thesis using assms by (simp add: print_conversion_eq)
qed

lemma format_step_char:
  "c \<noteq> 0x25 \<Longrightarrow> format_step tg g (c # format) args =
    (case putchar_via_gadget g c of None \<Rightarrow> Undefined | Some g \<Rightarrow> Next (g, format, args))"
  by (simp add: format_step_def peek_def of_option_def split: option.splits)

lemma format_step_spec:
  "spec_text tg (0x25 # format) args = Next (xs, format', args') \<Longrightarrow> format_step tg g (0x25 # format) args =
    (case put_all xs g of None \<Rightarrow> Undefined | Some g \<Rightarrow> Next (g, format', args'))"
  "spec_text tg (0x25 # format) args = Return \<Longrightarrow> format_step tg g (0x25 # format) args = Return"
  unfolding format_step_def spec_text_def
  by (cases "parse_specification tg (0x25 # format) args";
      auto simp: peek_def of_option_def print_conversion_text split: list.splits option.splits bind_splits)+

lemma format_step_undefined:
  assumes "spec_text tg (0x25 # format) args = Undefined" "\<not> writeback_specifier tg"
  shows "format_step tg g (0x25 # format) args = Undefined"
proof -
  have "print_conversion tg g c flags width precision args' = None"
    if "conv_text tg c flags width precision args' = None" for c flags width precision args'
    using that assms(2) by (simp add: print_conversion_eq)
  with assms(1) show ?thesis
    unfolding format_step_def spec_text_def
    by (cases "parse_specification tg (0x25 # format) args")
       (auto simp: peek_def of_option_def split: list.splits option.splits)
qed

text \<open>The loop prints the text; without \<^verbatim>\<open>%n\<close> it is undefined where there is none.\<close>

lemma format_string_loop_nil: "format_string_loop tg g [] args = None"
  by (simp add: format_string_loop.simps peek_def)

lemma format_string_loop_end: "format_string_loop tg g (0 # format) args = Some g"
  by (simp add: format_string_loop.simps peek_def)

lemma format_string_loop_step:
  "c \<noteq> 0 \<Longrightarrow> c \<noteq> 0x25 \<Longrightarrow> format_string_loop tg g (c # format) args =
    do { g \<leftarrow> putchar_via_gadget g c; format_string_loop tg g format args }"
  "spec_text tg (0x25 # format) args = Next (xs, format', args') \<Longrightarrow>
    format_string_loop tg g (0x25 # format) args =
      do { g \<leftarrow> put_all xs g; format_string_loop tg g format' args' }"
  "spec_text tg (0x25 # format) args = Return \<Longrightarrow> format_string_loop tg g (0x25 # format) args = Some g"
  "spec_text tg (0x25 # format) args = Undefined \<Longrightarrow> \<not> writeback_specifier tg \<Longrightarrow>
    format_string_loop tg g (0x25 # format) args = None"
  by (subst format_string_loop.simps; simp add: peek_def format_step_char format_step_spec format_step_undefined
      split: option.splits bind_split)+

lemma format_string_loop_both:
  "(format_text tg format args = Some xs \<longrightarrow> format_string_loop tg g format args = put_all xs g) \<and>
    (format_text tg format args = None \<longrightarrow> \<not> writeback_specifier tg \<longrightarrow> format_string_loop tg g format args = None)"
proof (induction tg format args arbitrary: g xs rule: format_text.induct)
  case (1 tg args)
  then show ?case by (simp add: format_string_loop_nil)
next
  case (2 tg c format args)
  consider "c = 0" | "c \<noteq> 0" "c \<noteq> 0x25" | "c = 0x25" by blast
  then show ?case
  proof cases
    case 1
    then show ?thesis by (simp add: format_string_loop_end)
  next
    case 2
    with "2.IH"(1) [OF this] show ?thesis
      by (auto simp: format_string_loop_step(1) split: bind_split)
  next
    case 3
    show ?thesis
    proof (cases "spec_text tg (0x25 # format) args")
      case (Next r)
      obtain ys f as where "r = (ys, f, as)" by (cases r)
      with Next 3 "2.IH"(2) [of "(ys, f, as)"] show ?thesis
        by (auto simp: format_string_loop_step(2) fold_option_append split: bind_split)
    qed (use 3 in \<open>simp_all add: format_string_loop_step(3,4)\<close>)
  qed
qed

lemma format_string_loop_text:
  "format_text tg format args = Some xs \<Longrightarrow> format_string_loop tg g format args = put_all xs g"
  using format_string_loop_both by blast

section \<open>The entry points\<close>

definition vsnprintf_impl ::
  "target \<Rightarrow> output_gadget_t \<Rightarrow> u8 list \<Rightarrow> va_arg list \<Rightarrow> (u32 \<times> output_gadget_t) option" where
  "vsnprintf_impl tg output format args = do {
     output \<leftarrow> format_string_loop tg output format args;
     output \<leftarrow> append_termination_with_gadget output;
     Some (g_pos output, output) }"

text \<open>
  The result is the returned \<open>int\<close> with the characters given to \<open>putchar_\<close> or to the
  callback, or with the contents of the buffer afterwards.  The functions with a variable
  argument list pass it on unchanged.
\<close>

definition vprintf :: "target \<Rightarrow> u8 list \<Rightarrow> va_arg list \<Rightarrow> (u32 \<times> u8 list) option" where
  "vprintf tg format args = do {
     (ret, gadget) \<leftarrow> vsnprintf_impl tg extern_putchar_gadget format args;
     Some (ret, rev (g_calls gadget)) }"

definition vsnprintf ::
  "target \<Rightarrow> u8 list option \<Rightarrow> nat \<Rightarrow> u8 list \<Rightarrow> va_arg list \<Rightarrow> (u32 \<times> u8 list option) option" where
  "vsnprintf tg s n format args = do {
     (ret, gadget) \<leftarrow> vsnprintf_impl tg (buffer_gadget s n) format args;
     Some (ret, g_buffer gadget) }"

definition vsprintf ::
  "target \<Rightarrow> u8 list option \<Rightarrow> u8 list \<Rightarrow> va_arg list \<Rightarrow> (u32 \<times> u8 list option) option" where
  "vsprintf tg s format args =
     vsnprintf tg s (unat PRINTF_MAX_POSSIBLE_BUFFER_SIZE) format args"

definition vfctprintf :: "target \<Rightarrow> bool \<Rightarrow> u8 list \<Rightarrow> va_arg list \<Rightarrow> (u32 \<times> u8 list) option" where
  "vfctprintf tg out_null format args =
     (if out_null then Some (0, [])
      else do {
        (ret, gadget) \<leftarrow> vsnprintf_impl tg function_gadget format args;
        Some (ret, rev (g_calls gadget)) })"

definition printf :: "target \<Rightarrow> u8 list \<Rightarrow> va_arg list \<Rightarrow> (u32 \<times> u8 list) option" where
  "printf tg format args = vprintf tg format args"

definition sprintf ::
  "target \<Rightarrow> u8 list option \<Rightarrow> u8 list \<Rightarrow> va_arg list \<Rightarrow> (u32 \<times> u8 list option) option" where
  "sprintf tg s format args = vsprintf tg s format args"

definition snprintf ::
  "target \<Rightarrow> u8 list option \<Rightarrow> nat \<Rightarrow> u8 list \<Rightarrow> va_arg list \<Rightarrow> (u32 \<times> u8 list option) option" where
  "snprintf tg s n format args = vsnprintf tg s n format args"

definition fctprintf :: "target \<Rightarrow> bool \<Rightarrow> u8 list \<Rightarrow> va_arg list \<Rightarrow> (u32 \<times> u8 list) option" where
  "fctprintf tg out_null format args = vfctprintf tg out_null format args"

section \<open>Delivering the text\<close>

text \<open>A buffer whose size is not checked.\<close>

definition open_received :: "u8 list \<Rightarrow> output_gadget_t \<Rightarrow> u8 list \<Rightarrow> bool" where
  "open_received buf g xs \<longleftrightarrow> length xs \<le> length buf \<and>
     g = \<lparr>g_function = False, g_calls = [], g_buffer = Some (xs @ drop (length xs) buf),
       g_pos = of_nat (length xs), g_max_chars = PRINTF_MAX_POSSIBLE_BUFFER_SIZE, g_stores = []\<rparr>"

definition open_limit :: "u8 list \<Rightarrow> nat" where
  "open_limit buf = min (length buf) (unat PRINTF_MAX_POSSIBLE_BUFFER_SIZE)"

lemma open_limit_pos:
  assumes "length xs < open_limit buf"
  shows "unat (of_nat (length xs) :: u32) = length xs"
    "(of_nat (length xs) :: u32) < PRINTF_MAX_POSSIBLE_BUFFER_SIZE" "length xs < length buf"
proof -
  have *: "length xs < 2147483647" "length xs < length buf"
    using assms by (simp_all add: open_limit_def c_consts)
  then show "unat (of_nat (length xs) :: u32) = length xs" by (simp add: unat_of_nat)
  with * show "(of_nat (length xs) :: u32) < PRINTF_MAX_POSSIBLE_BUFFER_SIZE" "length xs < length buf"
    by (simp_all add: c_consts word_less_nat_alt)
qed

lemma put_at_end: "length xs < length buf \<Longrightarrow>
    (xs @ drop (length xs) buf)[length xs := c] = xs @ c # drop (Suc (length xs)) buf"
  by (subst Cons_nth_drop_Suc [symmetric]) (simp_all add: list_update_append)

interpretation open_sink: char_sink putchar_via_gadget "open_received buf" "open_limit buf" for buf
proof
  fix g xs c
  assume r: "open_received buf g xs" and lt: "length xs < open_limit buf"
  note pos = open_limit_pos [OF lt]
  show "\<exists>g'. putchar_via_gadget g c = Some g' \<and> open_received buf g' (xs @ [c])"
    using r pos
    by (simp add: open_received_def putchar_via_gadget_def put_at_end Let_def not_le [symmetric])
qed

lemma open_gadget_received:
  "open_received buf (buffer_gadget (Some buf) (unat PRINTF_MAX_POSSIBLE_BUFFER_SIZE)) []"
  by (simp add: open_received_def buffer_gadget_def discarding_gadget_def Let_def)

lemma append_termination_open:
  assumes "open_received buf g xs" "length xs < open_limit buf"
  shows "\<exists>g'. append_termination_with_gadget g = Some g' \<and>
    g_buffer g' = Some (xs @ 0 # drop (Suc (length xs)) buf) \<and> g_pos g' = g_pos g"
  using assms(1) open_limit_pos [OF assms(2)]
  by (auto simp: open_received_def append_termination_with_gadget_def put_at_end Let_def c_consts)

lemma append_termination_other:
  "g_function g \<or> g_max_chars g = 0 \<Longrightarrow> append_termination_with_gadget g = Some g"
  by (simp add: append_termination_with_gadget_def)


lemma open_full:
  assumes "open_received buf g xs" "length xs = length buf" "length buf < unat PRINTF_MAX_POSSIBLE_BUFFER_SIZE"
  shows "putchar_via_gadget g c = None" "append_termination_with_gadget g = None"
proof -
  have "unat (of_nat (length buf) :: u32) = length buf"
    using assms(3) by (simp add: unat_of_nat c_consts)
  then show "putchar_via_gadget g c = None" "append_termination_with_gadget g = None"
    using assms
    by (auto simp: open_received_def putchar_via_gadget_def append_termination_with_gadget_def Let_def
        word_less_nat_alt word_le_nat_alt c_consts)
qed

lemma open_overflow:
  assumes "length buf \<le> length xs" "length buf < unat PRINTF_MAX_POSSIBLE_BUFFER_SIZE"
  shows "do { g \<leftarrow> put_all xs (buffer_gadget (Some buf) (unat PRINTF_MAX_POSSIBLE_BUFFER_SIZE));
    append_termination_with_gadget g } = None"
proof -
  let ?g = "buffer_gadget (Some buf) (unat PRINTF_MAX_POSSIBLE_BUFFER_SIZE)"
  have "length ([] :: u8 list) + length (take (length buf) xs) \<le> open_limit buf"
    using assms by (simp add: open_limit_def)
  from open_sink.fold_received [OF open_gadget_received this] obtain g where
    g: "put_all (take (length buf) xs) ?g = Some g" "open_received buf g (take (length buf) xs)"
    by auto
  note full = open_full [OF g(2) _ assms(2)]
  have xs: "xs = take (length buf) xs @ drop (length buf) xs" by simp
  show ?thesis
  proof (cases "drop (length buf) xs")
    case Nil
    then have "put_all xs ?g = Some g" using g(1) by (subst xs) (simp add: fold_option_append)
    then show ?thesis using full(2) assms(1) by simp
  next
    case (Cons c ys)
    have "put_all xs ?g = None"
      by (subst xs) (use g(1) full(1) assms(1) Cons in \<open>simp add: fold_option_append\<close>)
    then show ?thesis by simp
  qed
qed

section \<open>Properties of the entry points\<close>

lemma vsnprintf_impl_eq:
  "format_text tg format args = Some xs \<Longrightarrow> vsnprintf_impl tg g format args = do {
     g \<leftarrow> put_all xs g;
     g \<leftarrow> append_termination_with_gadget g;
     Some (g_pos g, g) }"
  by (simp add: vsnprintf_impl_def format_string_loop_text)

lemma vsnprintf_impl_discard:
  assumes "discard_received b g []" "format_text tg format args = Some xs"
  shows "\<exists>g'. vsnprintf_impl tg g format args = Some (of_nat (length xs), g') \<and> g_buffer g' = b"
proof -
  from discard_sink.fold_received [OF assms(1), of xs "length xs"] obtain g' where
    g': "put_all xs g = Some g'" "discard_received b g' xs" by auto
  then have "append_termination_with_gadget g' = Some g'"
    by (simp add: append_termination_other discard_received_def discarding_gadget_def)
  with g' assms(2) show ?thesis by (simp add: vsnprintf_impl_eq discard_received_def)
qed

lemma printf_eq:
  assumes "format_text tg format args = Some xs" "length xs \<le> unat PRINTF_MAX_POSSIBLE_BUFFER_SIZE"
  shows "printf tg format args = Some (of_nat (length xs), xs) \<and>
    fctprintf tg False format args = Some (of_nat (length xs), xs)"
proof -
  have "length xs < char_limit" using assms(2) by (simp add: char_limit_def c_consts)
  with function_sink.fold_received [OF function_gadget_received, of xs] obtain g where
    g: "put_all xs function_gadget = Some g" "function_received g xs" by auto
  then have "append_termination_with_gadget g = Some g"
    by (simp add: append_termination_other function_received_def)
  with g assms show ?thesis
    by (simp add: printf_def vprintf_def fctprintf_def vfctprintf_def extern_putchar_gadget_def
        vsnprintf_impl_eq function_received_def)
qed

lemma printf_text:
  "format_text tg format args = Some xs \<Longrightarrow> length xs \<le> unat PRINTF_MAX_POSSIBLE_BUFFER_SIZE \<Longrightarrow>
    printf tg format args = Some (of_nat (length xs), xs)"
  using printf_eq by blast

lemma snprintf_size_query:
  assumes "format_text tg format args = Some xs"
  shows "snprintf tg None n format args = Some (of_nat (length xs), None) \<and>
    snprintf tg (Some buf) 0 format args = Some (of_nat (length xs), Some buf)"
  using vsnprintf_impl_discard [OF discard_gadget_received(1) [of n] assms]
    vsnprintf_impl_discard [OF discard_gadget_received(2) [of buf] assms]
  by (auto simp: snprintf_def vsnprintf_def)

lemma snprintf_eq:
  assumes "format_text tg format args = Some xs" "length xs < char_limit"
    and "n \<le> length buf" "0 < n"
  shows "snprintf tg (Some buf) n format args =
    (let m = min n (unat PRINTF_MAX_POSSIBLE_BUFFER_SIZE) - 1 in
     Some (of_nat (length xs), Some (take m xs @ 0 # drop (Suc (min m (length xs))) buf)))"
proof -
  let ?n = "min n (unat PRINTF_MAX_POSSIBLE_BUFFER_SIZE)"
  from buffer_sink.fold_received [OF buffer_gadget_received [OF assms(3)], of xs] assms(2)
  obtain g where g: "put_all xs (buffer_gadget (Some buf) n) = Some g" "buffer_received buf ?n g xs"
    by auto
  have "0 < ?n" using assms(4) by (simp add: c_consts)
  from append_termination_received [OF g(2) assms(2) this] g(2) show ?thesis
    by (auto simp: snprintf_def vsnprintf_def vsnprintf_impl_eq assms(1) g(1) buffer_received_def Let_def)
qed

text \<open>C16. \<open>snprintf\<close> into a buffer of at least \<open>n\<close> bytes returns the length of the whole text and
  leaves in the buffer its first \<open>n - 1\<close> characters, the terminator and the old bytes behind it; no write
  is outside the first \<open>n\<close> bytes.  With size 0, or without a buffer, it writes nothing and returns the length.\<close>

theorem snprintf_delivers:
  assumes "format_text tg format args = Some xs" "length xs < char_limit"
    and "n \<le> length buf" "0 < n"
  shows "snprintf tg (Some buf) n format args =
      (let m = min n (unat PRINTF_MAX_POSSIBLE_BUFFER_SIZE) - 1 in
       Some (of_nat (length xs), Some (take m xs @ 0 # drop (Suc (min m (length xs))) buf))) \<and>
    snprintf tg (Some buf) 0 format args = Some (of_nat (length xs), Some buf) \<and>
    snprintf tg None n format args = Some (of_nat (length xs), None)"
  using snprintf_eq [OF assms] snprintf_size_query [OF assms(1)] by simp

theorem snprintf_delivers_witness:
  "snprintf (printf_config True) (Some [1, 2, 3]) 2 [0x68, 0x69, 0] [] = Some (2, Some [0x68, 0, 3])"
  using snprintf_delivers [of "printf_config True" "[0x68, 0x69, 0]" "[]" "[0x68, 0x69]" 2 "[1, 2, 3]"]
  by (simp add: char_limit_def c_consts)

text \<open>C17. \<open>sprintf\<close> writes the text and its terminator when they fit into the buffer, and is undefined
  behaviour exactly when they do not.\<close>

theorem sprintf_delivers:
  assumes "format_text tg format args = Some xs" 
    and "length buf < unat PRINTF_MAX_POSSIBLE_BUFFER_SIZE"
  shows "sprintf tg (Some buf) format args =
    (if length xs < length buf
     then Some (of_nat (length xs), Some (xs @ 0 # drop (Suc (length xs)) buf)) else None)"
proof (cases "length xs < length buf")
  case True
  then have lt: "length xs < open_limit buf" using assms(2) by (simp add: open_limit_def)
  from open_sink.fold_received [OF open_gadget_received, of xs buf] lt obtain g where
    g: "put_all xs (buffer_gadget (Some buf) (unat PRINTF_MAX_POSSIBLE_BUFFER_SIZE)) = Some g"
      "open_received buf g xs" by auto
  from append_termination_open [OF g(2) lt] g(2) True show ?thesis
    by (auto simp: sprintf_def vsprintf_def vsnprintf_def vsnprintf_impl_eq assms(1) g(1) open_received_def)
next
  case False
  with open_overflow [of buf xs] assms show ?thesis
    by (auto simp: sprintf_def vsprintf_def vsnprintf_def vsnprintf_impl_eq bind_eq_None_conv)
qed

theorem sprintf_delivers_witness:
  "sprintf (printf_config True) (Some [1, 2, 3, 4]) [0x68, 0x69, 0] [] = Some (2, Some [0x68, 0x69, 0, 4]) \<and>
    sprintf (printf_config True) (Some [1, 2]) [0x68, 0x69, 0] [] = None"
  using sprintf_delivers [of "printf_config True" "[0x68, 0x69, 0]" "[]" "[0x68, 0x69]" "[1, 2, 3, 4]"]
    sprintf_delivers [of "printf_config True" "[0x68, 0x69, 0]" "[]" "[0x68, 0x69]" "[1, 2]"]
  by (simp add: c_consts)

text \<open>C18. \<open>printf\<close> and \<open>fctprintf\<close> give \<open>putchar_\<close> or the callback exactly the characters of the text, in order,
  and return their number.\<close>

theorem printf_delivers:
  assumes "format_text tg format args = Some xs" "length xs \<le> unat PRINTF_MAX_POSSIBLE_BUFFER_SIZE"
  shows "printf tg format args = Some (of_nat (length xs), xs) \<and>
    fctprintf tg False format args = Some (of_nat (length xs), xs)"
  by (rule printf_eq [OF assms])

theorem printf_delivers_witness:
  "printf (printf_config True) [0x68, 0x69, 0] [] = Some (2, [0x68, 0x69])"
  using printf_delivers [of "printf_config True" "[0x68, 0x69, 0]" "[]" "[0x68, 0x69]"] by (simp add: c_consts)

end
