(* ===== verification/Printf_Formats.thy ===== *)
theory Printf_Formats
  imports Printf
begin

text \<open>
  Formats and what they print: the rendering of single conversions of
  \<^verbatim>\<open>sdk/librv/printf.c\<close>, the composition of a format from literal text and conversions,
  what \<^verbatim>\<open>%n\<close> stores, and formats that end too early.
\<close>

section \<open>Rendering of conversions\<close>

text \<open>The decimal text of an integer.\<close>

definition int_text :: "int \<Rightarrow> u8 list" where
  "int_text i = (if i < 0 then [0x2D] else []) @ map (digit_ascii False) (radix_digits 10 (nat \<bar>i\<bar>))"

lemma abs_for_printing: "unat (ABS_FOR_PRINTING v) = nat \<bar>sint v\<bar>"
proof (cases "0 <s v")
  case True
  then have "0 < sint v" by (simp add: word_sless_alt)
  moreover have "sint v < 2 ^ 63" using sint_less [of v] by simp
  moreover have "uint v = sint v mod 2 ^ 64" using uint_sint [of v] by (simp add: take_bit_eq_mod)
  ultimately have "uint v = \<bar>sint v\<bar>" by simp
  with True show ?thesis by (simp add: ABS_FOR_PRINTING_def unat_eq_nat_uint del: nat_uint_eq)
next
  case False
  then have le: "sint v \<le> 0" by (simp add: word_sless_alt)
  have ge: "- (2 ^ 63) \<le> sint v" using sint_greater_eq [of v] by simp
  have "uint (- v) = uint (word_of_int (- sint v) :: u64)" by simp
  also have "\<dots> = - sint v" using le ge by (subst uint_word_of_int) simp
  finally have "uint (- v) = \<bar>sint v\<bar>" using le by simp
  with False show ?thesis by (simp add: ABS_FOR_PRINTING_def unat_eq_nat_uint del: nat_uint_eq)
qed

lemma parse_plain_specification:
  "c \<notin> {0, 0x30, 0x2D, 0x2B, 0x20, 0x23, 0x2E, 0x2A, 0x6C, 0x4C, 0x68, 0x74, 0x6A, 0x7A, 0x49} \<Longrightarrow> \<not> is_digit c \<Longrightarrow>
    parse_specification tg (0x25 # c # rest) args = Next (0, 0, 0, c # rest, args)"
  by (simp add: parse_specification_def advance_def parse_flags_def parse_width_def peek_def
      parse_precision_def parse_length_def)


lemma format_text_plain:
  "0 \<notin> set pre \<Longrightarrow> 0x25 \<notin> set pre \<Longrightarrow>
    format_text tg (pre @ rest) args = map_option ((@) pre) (format_text tg rest args)"
  by (induction pre) (auto simp: option.map_comp o_def map_option.identity [unfolded id_def] cong: map_option_cong)

lemma format_text_spec:
  "spec_text tg (0x25 # format) args = Next (xs, format', args') \<Longrightarrow>
    format_text tg (0x25 # format) args = map_option ((@) xs) (format_text tg format' args')"
  by simp

lemma spec_text_plain:
  "c \<notin> {0, 0x30, 0x2D, 0x2B, 0x20, 0x23, 0x2E, 0x2A, 0x6C, 0x4C, 0x68, 0x74, 0x6A, 0x7A, 0x49} \<Longrightarrow> \<not> is_digit c \<Longrightarrow>
    conv_text tg c 0 0 0 args = Some (xs, args') \<Longrightarrow>
    spec_text tg (0x25 # c # rest) args = Next (xs, rest, args')"
  by (simp add: spec_text_def parse_plain_specification peek_def of_option_def)

lemma plain_flags:
  assumes "flags AND 0x283F = 0"
  shows "flags AND 0x281E = 0" "\<not> flag flags FLAGS_ZEROPAD" "\<not> flag flags FLAGS_UPPERCASE"
  using flag_subset [OF assms, of "0x281E"] flag_subset [OF assms, of FLAGS_ZEROPAD]
    flag_subset [OF assms, of FLAGS_UPPERCASE]
  by (simp_all add: flag_def c_consts)

lemma integer_text_decimal_width:
  assumes "flags AND 0x283F = 0"
  shows "integer_text (ABS_FOR_PRINTING v) (v <s 0) BASE_DECIMAL 0 width flags =
    replicate (unat width - length (int_text (sint v))) 0x20 @ int_text (sint v)"
  using integer_text_padded [of BASE_DECIMAL flags "v <s 0" "ABS_FOR_PRINTING v" width] plain_flags [OF assms]
  by (simp add: int_text_def c_consts abs_for_printing word_sless_alt Let_def)

lemma integer_text_decimal:
  assumes "flags AND 0x283F = 0"
  shows "integer_text (ABS_FOR_PRINTING v) (v <s 0) BASE_DECIMAL 0 0 flags = int_text (sint v)"
  by (simp add: integer_text_decimal_width [OF assms])

lemma conv_text_signed:
  assumes "flags \<in> {0, FLAGS_LONG, FLAGS_LONG_LONG, FLAGS_LONG OR FLAGS_LONG_LONG}"
  shows "conv_text tg 0x64 flags 0 0 args =
    map_option (\<lambda>(v, args). (int_text (sint v), args)) (signed_arg tg flags args)"
proof -
  have "conv_flags 0x64 flags = flags OR FLAGS_SIGNED"
    using assms by (auto simp: conv_flags_def conv_base_def flag_def c_consts)
  moreover have "flag (flags OR FLAGS_SIGNED) FLAGS_SIGNED" "(flags OR FLAGS_SIGNED) AND 0x283F = 0"
    using assms by (auto simp: flag_def c_consts)
  moreover have "signed_arg tg (flags OR FLAGS_SIGNED) args = signed_arg tg flags args"
    using assms by (auto simp: signed_arg_def flag_def c_consts)
  ultimately show ?thesis
    by (simp add: conv_text_def Let_def integer_text_decimal conv_base_def)
qed

lemma spec_text_signed:
  "spec_text tg (0x25 # 0x64 # rest) (Arg_int v # args) = Next (int_text (sint v), rest, args)"
  "lp64 tg \<Longrightarrow> spec_text tg (0x25 # 0x6C # 0x64 # rest) (Arg_long w # args) = Next (int_text (sint w), rest, args)"
  "spec_text tg (0x25 # 0x6C # 0x6C # 0x64 # rest) (Arg_llong w # args) = Next (int_text (sint w), rest, args)"
  by (simp_all add: spec_text_def parse_specification_def advance_def parse_flags_def parse_width_def
      peek_def parse_precision_def parse_length_def is_digit_def of_option_def conv_text_signed
      signed_arg_def next_int_def next_long_def next_llong_def flag_def sint_scast_up)
    (simp_all add: c_consts flag_def)


lemma loop_plain:
  "0 \<notin> set pre \<Longrightarrow> 0x25 \<notin> set pre \<Longrightarrow>
    format_string_loop tg g (pre @ rest) args = do { g \<leftarrow> put_all pre g; format_string_loop tg g rest args }"
proof (induction pre arbitrary: g)
  case (Cons c pre)
  then have "c \<noteq> 0" "c \<noteq> 0x25" by auto
  with Cons show ?case by (simp add: format_string_loop_step(1) cong: Option.bind_cong)
qed simp

lemma loop_spec:
  assumes "0 \<notin> set pre" "0x25 \<notin> set pre"
    and "spec_text tg (0x25 # rest) args = Next (xs, format, args')"
  shows "format_string_loop tg g (pre @ 0x25 # rest) args =
    do { g \<leftarrow> put_all (pre @ xs) g; format_string_loop tg g format args' }"
  by (simp add: loop_plain [OF assms(1,2)] format_string_loop_step(2) [OF assms(3)] fold_option_append)

lemma loop_fails:
  assumes "parse_specification tg (0x25 # format) args = Next (flags, width, precision, c # rest, args')"
    and "conv_text tg c flags width precision args' = None" "c \<noteq> 0x6E"
  shows "format_string_loop tg g (0x25 # format) args = None"
  using assms
  by (simp add: format_string_loop.simps peek_def format_step_def of_option_def print_conversion_eq)

lemma strnlen_s_terminated: "0 \<in> set p \<Longrightarrow> \<exists>l. strnlen_s p m = Some l"
proof (induction p arbitrary: m)
  case (Cons c p)
  show ?case
  proof (cases "c = 0")
    case False
    with Cons obtain l where "strnlen_s p (m - 1) = Some l" by auto
    then show ?thesis by simp
  qed simp
qed simp

lemma strnlen_s_unterminated: "0 \<notin> set p \<Longrightarrow> length p \<le> unat m \<Longrightarrow> strnlen_s p m = None"
proof (induction p arbitrary: m)
  case (Cons c p)
  then have "m \<noteq> 0" by (auto simp: unat_eq_zero)
  moreover from this have "unat m = Suc (unat (m - 1))"
    using unat_less_step(1) [of "m - 1" m] by (simp add: word_less_nat_alt unat_sub_if' unat_gt_0 Suc_le_eq)
  ultimately show ?case using Cons by simp
qed simp

lemma takeWhile_terminated: "0 \<notin> set str \<Longrightarrow> takeWhile (\<lambda>c. c \<noteq> 0) (str @ 0 # rest) = str"
  by (induction str) auto

lemma string_text_terminated:
  assumes "0 \<notin> set str"
  shows "string_text flags 0 precision (str @ 0 # junk) =
    Some (if flag flags FLAGS_PRECISION then take (unat precision) str else str)"
proof -
  obtain l where "strnlen_s (str @ 0 # junk)
      (if precision \<noteq> 0 then precision else PRINTF_MAX_POSSIBLE_BUFFER_SIZE) = Some l"
    using strnlen_s_terminated [of "str @ 0 # junk"] by auto
  then show ?thesis
    unfolding string_text_def by (simp add: takeWhile_terminated [OF assms] Let_def less_Suc_eq_le min.coboundedI1)
qed

lemma string_text_unterminated:
  assumes "0 \<notin> set p" "length p \<le> unat precision"
  shows "string_text flags width precision p = None"
proof -
  have "takeWhile (\<lambda>c. c \<noteq> 0) p = p" using assms(1) by (subst takeWhile_eq_all_conv) auto
  then have "length (takeWhile (\<lambda>c. c \<noteq> 0) p) = length p" by (rule arg_cong)
  with assms(2) show ?thesis
    by (cases "strnlen_s p (if precision \<noteq> 0 then precision else PRINTF_MAX_POSSIBLE_BUFFER_SIZE)")
       (simp_all add: string_text_def Let_def)
qed

lemma spec_text_string:
  assumes "0 \<notin> set str"
  shows "spec_text tg (0x25 # 0x73 # rest) (Arg_str (Some (str @ 0 # junk)) # args) = Next (str, rest, args)"
  by (rule spec_text_plain)
     (simp_all add: is_digit_def conv_text_def next_str_def string_text_terminated [OF assms] flag_def)

lemma digit_nonzero: "is_digit d \<Longrightarrow> d \<noteq> 0"
  by (auto simp: is_digit_def)

lemma parse_precision_digit:
  assumes "is_digit d" "c \<notin> {0x6C, 0x4C, 0x68, 0x74, 0x6A, 0x7A, 0x49}" "\<not> is_digit c"
  shows "parse_specification tg (0x25 # 0x2E # d # c # rest) args =
    Next (FLAGS_PRECISION, 0, ucast d - 0x30, c # rest, args)"
proof -
  have "d \<noteq> 0x2D" "d \<noteq> 0x2A" "d \<noteq> 0" "\<not> is_digit 0x2E" using assms(1) by (auto simp: is_digit_def)
  then show ?thesis
    using assms
    by (simp add: parse_specification_def advance_def parse_flags_def parse_width_def peek_def
        parse_precision_def parse_length_def atou_def)
qed

lemma digit_value: "is_digit d \<Longrightarrow> unat (ucast d - 0x30 :: u32) = unat d - 48"
proof -
  assume "is_digit d"
  then have "48 \<le> unat d" by (simp add: is_digit_def word_le_nat_alt)
  moreover have "unat (ucast d :: u32) = unat d" by (rule unat_ucast_up) simp
  ultimately show ?thesis by (simp add: unat_sub_if')
qed


lemma spec_text_string_precision:
  assumes "0 \<notin> set str" "is_digit d"
  shows "spec_text tg (0x25 # 0x2E # d # 0x73 # rest) (Arg_str (Some (str @ 0 # junk)) # args) =
    Next (take (unat d - 48) str, rest, args)"
  by (simp add: spec_text_def parse_precision_digit [OF assms(2)] is_digit_def peek_def of_option_def
      conv_text_def next_str_def string_text_terminated [OF assms(1)] digit_value [OF assms(2)])
    (simp add: flag_def c_consts)

section \<open>Hexadecimal with zero padding\<close>

lemma spec_text_hex:
  assumes "d \<in> {0x31..0x39}"
  shows "spec_text tg (0x25 # 0x30 # d # 0x78 # rest) (Arg_int v # args) =
    Next (integer_text (ucast v) False BASE_HEX 0 (ucast d - 0x30) FLAGS_ZEROPAD, rest, args)"
proof -
  have d: "is_digit d" "d \<notin> {0, 0x30, 0x2D, 0x2B, 0x20, 0x23}"
    using assms by (auto simp: is_digit_def word_le_nat_alt)
  have "conv_flags 0x78 FLAGS_ZEROPAD = FLAGS_ZEROPAD" "\<not> flag FLAGS_ZEROPAD FLAGS_SIGNED"
    "\<not> flag FLAGS_ZEROPAD FLAGS_LONG" "\<not> flag FLAGS_ZEROPAD FLAGS_LONG_LONG" "\<not> flag FLAGS_ZEROPAD FLAGS_CHAR"
    "\<not> flag FLAGS_ZEROPAD FLAGS_SHORT" "FLAGS_ZEROPAD AND NOT (FLAGS_PLUS OR FLAGS_SPACE) = FLAGS_ZEROPAD"
    by (simp_all add: conv_flags_def conv_base_def flag_def c_consts)
  with d show ?thesis
    by (simp add: spec_text_def parse_specification_def advance_def parse_flags_def parse_width_def
        peek_def parse_precision_def parse_length_def atou_def is_digit_def [of "0x78"] of_option_def conv_text_def
        unsigned_arg_def next_int_def conv_base_def)
qed

lemma parse_digits_zeros: "parse_digits b (replicate k 0x30 @ cs) = parse_digits b cs"
proof -
  have "foldl (\<lambda>n c. n * b + ascii_digit c) 0 (replicate k 0x30) = 0"
    by (induction k) (simp_all add: ascii_digit_def)
  then show ?thesis by (simp add: parse_digits_def)
qed

lemma hex_digits:
  fixes v :: u32
  shows "length (radix_digits 16 (unat v)) \<le> 8"
    "parse_digits 16 (map (digit_ascii upper) (radix_digits 16 (unat v))) = unat v"
proof -
  have v: "unat v < 16 ^ 8" using unat_less [of v] by simp
  then have r: "radix_digits 16 (unat v) = rev (digits 8 16 (unat v))"
    by (intro radix_digits_eq) simp_all
  then show "length (radix_digits 16 (unat v)) \<le> 8" using length_digits [of 8] by simp
  have "parse_digits 16 (rev (map (digit_ascii upper) (digits 8 16 (unat v)))) =
      digits_value 16 (digits 8 16 (unat v))"
    using digits_less [of 16] by (intro parse_rev_digits) simp
  then show "parse_digits 16 (map (digit_ascii upper) (radix_digits 16 (unat v))) = unat v"
    using v by (simp add: r rev_map digits_value_digits)
qed

section \<open>Decimal numbers in a format\<close>

lemma ascii_of_digit:
  "d < 10 \<Longrightarrow> is_digit (digit_ascii False d) \<and> i * 10 + (ucast (digit_ascii False d) - 0x30) = i * 10 + (of_nat d :: u32)"
  using less_16_cases [of d] by (auto simp: digit_ascii_def is_digit_def)

lemma atou_loop_digits:
  assumes "\<not> is_digit c"
  shows "\<forall>d \<in> set ds. d < 10 \<Longrightarrow> atou_loop i (map (digit_ascii False) ds @ c # rest) =
    Next (foldl (\<lambda>i d. i * 10 + of_nat d) i ds, c # rest)"
proof (induction ds arbitrary: i)
  case (Cons d ds)
  then have "d < 10" by simp
  note digit = ascii_of_digit [OF this]
  with Cons show ?case by (simp add: digit)
qed (simp add: assms)

lemma radix_digits_decimal:
  "(\<forall>d \<in> set (radix_digits 10 n). d < 10) \<and>
    foldl (\<lambda>i d. i * 10 + of_nat d) 0 (radix_digits 10 n) = (of_nat n :: u32)"
proof (induction "10 :: nat" n rule: radix_digits.induct)
  case (1 n)
  have "of_nat (n div 10) * 10 + of_nat (n mod 10) = (of_nat (n div 10 * 10 + n mod 10) :: u32)"
    by (simp only: of_nat_add of_nat_mult) simp
  then have n: "of_nat (n div 10) * 10 + of_nat (n mod 10) = (of_nat n :: u32)" by simp
  show ?case
  proof (cases "n < 10")
    case True
    then show ?thesis by (subst (1 2) radix_digits.simps) simp
  next
    case False
    with 1 n show ?thesis by (subst (1 2) radix_digits.simps) auto
  qed
qed


section \<open>Width and unsigned decimal\<close>

lemma spec_text_width:
  assumes "d \<in> {0x31..0x39}"
  shows "spec_text tg (0x25 # d # 0x64 # rest) (Arg_int v # args) =
    Next (replicate (unat d - 48 - length (int_text (sint v))) 0x20 @ int_text (sint v), rest, args)"
proof -
  have d: "is_digit d" "d \<notin> {0, 0x30, 0x2D, 0x2B, 0x20, 0x23}"
    using assms by (auto simp: is_digit_def word_le_nat_alt)
  have "conv_flags 0x64 0 = FLAGS_SIGNED" "flag FLAGS_SIGNED FLAGS_SIGNED" "FLAGS_SIGNED AND 0x283F = 0"
    "\<not> flag FLAGS_SIGNED FLAGS_LONG" "\<not> flag FLAGS_SIGNED FLAGS_LONG_LONG" "\<not> flag FLAGS_SIGNED FLAGS_CHAR"
    "\<not> flag FLAGS_SIGNED FLAGS_SHORT"
    by (simp_all add: conv_flags_def conv_base_def flag_def c_consts)
  with d show ?thesis
    by (simp add: spec_text_def parse_specification_def advance_def parse_flags_def parse_width_def
        peek_def parse_precision_def parse_length_def atou_def is_digit_def [of "0x64"] of_option_def conv_text_def
        signed_arg_def next_int_def conv_base_def integer_text_decimal_width digit_value sint_scast_up)
qed

lemma integer_text_unsigned:
  assumes "flags AND 0x283F = 0"
  shows "integer_text v False BASE_DECIMAL 0 0 flags = int_text (uint v)"
  using integer_text_padded [of BASE_DECIMAL flags False v 0] plain_flags [OF assms]
  by (simp add: int_text_def c_consts)

lemma conv_text_unsigned:
  assumes "flags \<in> {0, FLAGS_LONG, FLAGS_LONG OR FLAGS_LONG_LONG}"
  shows "conv_text tg 0x75 flags 0 0 args =
    map_option (\<lambda>(v, args). (int_text (uint v), args)) (unsigned_arg tg flags args)"
proof -
  have "conv_flags 0x75 flags = flags" "\<not> flag flags FLAGS_SIGNED"
    "flags AND NOT (FLAGS_PLUS OR FLAGS_SPACE) = flags" "flags AND 0x283F = 0"
    using assms by (auto simp: conv_flags_def conv_base_def flag_def c_consts)
  then show ?thesis
    by (simp add: conv_text_def Let_def integer_text_unsigned conv_base_def)
qed

lemma uint_ucast_up: "uint (ucast v :: u64) = uint v" for v :: u32
proof -
  have "int (unat (ucast v :: u64)) = int (unat v)" by (subst unat_ucast_up) simp_all
  then show ?thesis by simp
qed

lemma spec_text_unsigned:
  "spec_text tg (0x25 # 0x75 # rest) (Arg_int v # args) = Next (int_text (uint v), rest, args)"
  "spec_text tg (0x25 # 0x6C # 0x6C # 0x75 # rest) (Arg_llong w # args) = Next (int_text (uint w), rest, args)"
  by (simp_all add: spec_text_def parse_specification_def advance_def parse_flags_def parse_width_def
      peek_def parse_precision_def parse_length_def is_digit_def of_option_def conv_text_unsigned
      unsigned_arg_def next_int_def next_llong_def flag_def)
    (simp_all add: c_consts flag_def uint_ucast_up)

lemma spec_text_percent: "spec_text tg (0x25 # 0x25 # rest) args = Next ([0x25], rest, args)"
  by (rule spec_text_plain) (simp_all add: is_digit_def conv_text_def)

lemma spec_text_hex_upper:
  "spec_text tg (0x25 # 0x58 # rest) (Arg_int v # args) =
    Next (map (digit_ascii True) (radix_digits 16 (unat v)), rest, args)"
proof (rule spec_text_plain)
  have "conv_flags 0x58 0 = FLAGS_UPPERCASE" "\<not> flag FLAGS_UPPERCASE FLAGS_SIGNED" "conv_base 0x58 = BASE_HEX"
    "\<not> flag FLAGS_UPPERCASE FLAGS_LONG" "\<not> flag FLAGS_UPPERCASE FLAGS_LONG_LONG" "\<not> flag FLAGS_UPPERCASE FLAGS_CHAR"
    "\<not> flag FLAGS_UPPERCASE FLAGS_SHORT" "FLAGS_UPPERCASE AND NOT (FLAGS_PLUS OR FLAGS_SPACE) = FLAGS_UPPERCASE"
    by (simp_all add: conv_flags_def conv_base_def flag_def c_consts)
  moreover have "integer_text (ucast v) False BASE_HEX 0 0 FLAGS_UPPERCASE =
      map (digit_ascii True) (radix_digits 16 (unat v))"
    by (subst integer_text_padded) (simp_all add: c_consts flag_def unat_ucast_up)
  ultimately show "conv_text tg 0x58 0 0 0 (Arg_int v # args) =
      Some (map (digit_ascii True) (radix_digits 16 (unat v)), args)"
    by (simp add: conv_text_def unsigned_arg_def next_int_def)
qed (simp_all add: is_digit_def)

lemma length_radix_digits: "n < 10 ^ k \<Longrightarrow> 0 < k \<Longrightarrow> length (radix_digits 10 n) \<le> k"
  using radix_digits_eq [of 10 n k] length_digits by simp

lemma length_int_text: "nat \<bar>i\<bar> < 10 ^ 20 \<Longrightarrow> length (int_text i) \<le> 21"
  using length_radix_digits [of "nat \<bar>i\<bar>" 20] by (cases "i < 0") (simp_all add: int_text_def)

lemma length_int_text_32: "length (int_text (sint (x :: u32))) \<le> 21"
  using sint_lt [of x] sint_ge [of x] by (intro length_int_text) simp

section \<open>The prefix \<open>I\<close>\<close>

text \<open>\<^verbatim>\<open>%I64d\<close> takes the argument that has 64 bits; a format that ends after \<^verbatim>\<open>%I16\<close> is read
  beyond its end, because this prefix alone advances without a test.\<close>

lemma spec_text_int64:
  assumes "msvc_specifiers tg"
  shows "lp64 tg \<Longrightarrow> spec_text tg (0x25 # 0x49 # 0x36 # 0x34 # 0x64 # rest) (Arg_long w # args) = Next (int_text (sint w), rest, args)"
    "\<not> lp64 tg \<Longrightarrow> spec_text tg (0x25 # 0x49 # 0x36 # 0x34 # 0x64 # rest) (Arg_llong w # args) = Next (int_text (sint w), rest, args)"
proof -
  have "parse_specification tg (0x25 # 0x49 # 0x36 # 0x34 # 0x64 # rest) as = Next (FLAGS_INT64 tg, 0, 0, 0x64 # rest, as)" for as
    by (simp add: parse_specification_def advance_def parse_flags_def parse_width_def peek_def parse_precision_def
        parse_length_def parse_msvc_length_def is_digit_def assms)
  then show "lp64 tg \<Longrightarrow> spec_text tg (0x25 # 0x49 # 0x36 # 0x34 # 0x64 # rest) (Arg_long w # args) = Next (int_text (sint w), rest, args)"
    "\<not> lp64 tg \<Longrightarrow> spec_text tg (0x25 # 0x49 # 0x36 # 0x34 # 0x64 # rest) (Arg_llong w # args) = Next (int_text (sint w), rest, args)"
    by (simp_all add: spec_text_def peek_def of_option_def FLAGS_INT64_def conv_text_signed signed_arg_def
        next_long_def next_llong_def flag_def) (simp_all add: c_consts)
qed

lemma int16_overread:
  assumes "msvc_specifiers tg"
  shows "format_string_loop tg g [0x25, 0x49, 0x31, 0x36, 0] args = None"
proof -
  have "spec_text tg [0x25, 0x49, 0x31, 0x36, 0] args = Next ([0], [], args)"
    by (simp add: spec_text_def parse_specification_def advance_def parse_flags_def parse_width_def peek_def
        parse_precision_def parse_length_def parse_msvc_length_def is_digit_def assms of_option_def conv_text_def)
  from format_string_loop_step(2) [OF this] show ?thesis
    by (simp add: format_string_loop_nil)
qed

section \<open>Floating point in a format\<close>

lemma conv_text_float:
  assumes "decimal_specifiers tg" "\<not> flag flags FLAGS_LONG_DOUBLE"
  shows "conv_text tg 0x66 flags width precision (Arg_double x # args) =
    map_option (\<lambda>xs. (xs, args)) (float_text (exponential_specifiers tg) (internal_type tg)
      (fp_convert (internal_type tg) x) precision width flags False)"
  using assms by (simp add: conv_text_def is_float_conv_def next_float_def conv_float_flags_def map_conv_bind_option o_def)

lemma spec_text_float:
  assumes "decimal_specifiers tg" "is_digit d"
    and "float_text (exponential_specifiers tg) (internal_type tg) (fp_convert (internal_type tg) x)
      (ucast d - 0x30) 0 FLAGS_PRECISION False = Some xs"
  shows "spec_text tg (0x25 # 0x2E # d # 0x66 # rest) (Arg_double x # args) = Next (xs, rest, args)"
proof -
  have "\<not> flag FLAGS_PRECISION FLAGS_LONG_DOUBLE" by (simp add: flag_def c_consts)
  from conv_text_float [OF assms(1) this] assms(3) show ?thesis
    by (simp add: spec_text_def parse_precision_digit [OF assms(2)] is_digit_def peek_def of_option_def)
qed

section \<open>The conversion \<^verbatim>\<open>%n\<close>\<close>

lemma parse_long_long:
  "parse_specification tg (0x25 # 0x6C # 0x6C # c # rest) args =
    (if c = 0 then Return else Next (FLAGS_LONG OR FLAGS_LONG_LONG, 0, 0, c # rest, args))"
  by (simp add: parse_specification_def advance_def parse_flags_def parse_width_def
      peek_def parse_precision_def parse_length_def is_digit_def)

lemma loop_writeback:
  assumes "parse_specification tg (0x25 # format) args = Next (flags, width, precision, 0x6E # rest, Arg_ref l # args')"
    and "writeback_specifier tg"
  shows "format_string_loop tg g (0x25 # format) args = format_string_loop tg
    (g\<lparr>g_stores := (l, object_bytes (writeback_size tg flags) (ucast (g_pos g))) # g_stores g\<rparr>) rest args'"
  using assms
  by (subst format_string_loop.simps)
     (simp add: peek_def format_step_def of_option_def print_conversion_def print_writeback_conv_def next_ref_def)

section \<open>Properties of formats\<close>



text \<open>C27. \<open>%s\<close> prints a terminated string, and \<open>%.<d>s\<close> its first \<open>d\<close> characters.\<close>

theorem printf_string:
  assumes "0 \<notin> set pre" "0x25 \<notin> set pre" "0 \<notin> set str" "is_digit d"
  shows "format_string_loop tg g (pre @ [0x25, 0x73] @ rest) (Arg_str (Some (str @ 0 # junk)) # args) =
      do { g \<leftarrow> put_all (pre @ str) g; format_string_loop tg g rest args } \<and>
    format_string_loop tg g (pre @ [0x25, 0x2E, d, 0x73] @ rest) (Arg_str (Some (str @ 0 # junk)) # args) =
      do { g \<leftarrow> put_all (pre @ take (unat d - 48) str) g; format_string_loop tg g rest args }"
  by (simp add: loop_spec [OF assms(1,2) spec_text_string [OF assms(3)]]
      loop_spec [OF assms(1,2) spec_text_string_precision [OF assms(3,4)]])

theorem printf_string_witness:
  "format_string_loop (printf_config True) function_gadget [0x25, 0x2E, 0x31, 0x73, 0] [Arg_str (Some [0x68, 0x69, 0])] =
    put_all [0x68] function_gadget"
  using printf_string [of "[]" "[0x68, 0x69]" "0x31" "printf_config True" function_gadget "[0]" "[]" "[]"]
  by (simp add: format_string_loop.simps [of _ _ "[0]"] peek_def is_digit_def)

text \<open>\<open>%08x\<close> prints exactly eight characters, which denote the argument in base 16.\<close>

lemma printf_hex_padded:
  assumes "0 \<notin> set pre" "0x25 \<notin> set pre"
  shows "\<exists>str. length str = 8 \<and> parse_digits 16 str = unat v \<and>
    (\<forall>g. format_string_loop tg g (pre @ [0x25, 0x30, 0x38, 0x78] @ rest) (Arg_int v # args) =
      do { g \<leftarrow> put_all (pre @ str) g; format_string_loop tg g rest args })"
proof -
  let ?ds = "map (digit_ascii False) (radix_digits 16 (unat v))"
  let ?str = "replicate (8 - length ?ds) 0x30 @ ?ds"
  have "unat (ucast v :: u64) = unat v" by (rule unat_ucast_up) simp
  then have "integer_text (ucast v) False BASE_HEX 0 8 FLAGS_ZEROPAD = ?str"
    using integer_text_padded [of BASE_HEX FLAGS_ZEROPAD False "ucast v" 8]
    by (simp add: c_consts flag_def)
  then have "spec_text tg (0x25 # 0x30 # 0x38 # 0x78 # rest) (Arg_int v # args) = Next (?str, rest, args)"
    using spec_text_hex [of "0x38"] by simp
  from loop_spec [OF assms this] hex_digits(1) [of v] hex_digits(2) [of False v] show ?thesis
    by (intro exI [of _ ?str]) (simp add: parse_digits_zeros)
qed

lemma printf_hex_padded_example:
  "\<exists>str. length str = 8 \<and> parse_digits 16 str = 255 \<and>
    format_string_loop (printf_config True) function_gadget [0x25, 0x30, 0x38, 0x78, 0] [Arg_int 255] = put_all str function_gadget"
  using printf_hex_padded [of "[]" 255 "printf_config True" "[0]" "[]"]
  by (auto simp: format_string_loop.simps [of _ _ "[0]"] peek_def)

text \<open>Characters other than \<open>%\<close> are printed as they are up to the terminator, \<open>%%\<close> prints \<open>%\<close>,
  and \<open>%c\<close> its argument converted to a character.\<close>

lemma printf_literal:
  assumes "0 \<notin> set str" "0x25 \<notin> set str"
  shows "format_string_loop tg g (str @ 0 # junk) args = put_all str g \<and>
    format_string_loop tg g (str @ [0x25, 0x25] @ rest) args =
      do { g \<leftarrow> put_all (str @ [0x25]) g; format_string_loop tg g rest args } \<and>
    format_string_loop tg g (str @ [0x25, 0x63] @ rest) (Arg_int v # args) =
      do { g \<leftarrow> put_all (str @ [ucast v]) g; format_string_loop tg g rest args }"
proof (intro conjI)
  show "format_string_loop tg g (str @ 0 # junk) args = put_all str g"
    by (simp add: loop_plain [OF assms] format_string_loop_end)
  from loop_spec [OF assms spec_text_percent] show "format_string_loop tg g (str @ [0x25, 0x25] @ rest) args =
      do { g \<leftarrow> put_all (str @ [0x25]) g; format_string_loop tg g rest args }" by simp
  have "spec_text tg (0x25 # 0x63 # rest) (Arg_int v # args) = Next ([ucast v], rest, args)"
    by (rule spec_text_plain) (simp_all add: is_digit_def conv_text_def next_int_def)
  from loop_spec [OF assms this] show "format_string_loop tg g (str @ [0x25, 0x63] @ rest) (Arg_int v # args) =
      do { g \<leftarrow> put_all (str @ [ucast v]) g; format_string_loop tg g rest args }" by simp
qed

lemma printf_literal_example:
  "format_string_loop (printf_config True) function_gadget [0x68, 0x69, 0] [] = put_all [0x68, 0x69] function_gadget"
  using printf_literal [of "[0x68, 0x69]" "printf_config True" function_gadget "[]" "[]"] by simp

text \<open>C30. A format that ends after the digits of a width: the terminator is taken for the specifier
  and printed, and formatting goes on behind it, out of the array when nothing follows.  After a lone
  \<open>%\<close> the function returns.\<close>

theorem incomplete_specification:
  assumes "is_digit d"
  shows "format_string_loop tg g (0x25 # d # 0 # rest) args =
      do { g \<leftarrow> putchar_via_gadget g 0; format_string_loop tg g rest args } \<and>
    format_string_loop tg g [0x25, d, 0] args = None \<and>
    format_string_loop tg g (0x25 # 0 # rest) args = Some g"
proof -
  have d: "d \<notin> {0, 0x2D, 0x2B, 0x20, 0x23, 0x2A}" using assms by (auto simp: is_digit_def)
  have nul: "\<not> is_digit 0" by (simp add: is_digit_def)
  have "spec_text tg (0x25 # d # 0 # rest) args = Next ([0], rest, args)" for rest
    using d assms nul
    by (cases "d = 0x30")
       (simp_all add: spec_text_def parse_specification_def advance_def parse_flags_def parse_width_def
        peek_def parse_precision_def parse_length_def atou_def of_option_def conv_text_def)
  note loop_spec [OF _ _ this, of "[]"]
  then have *: "format_string_loop tg g (0x25 # d # 0 # rest) args =
      do { g \<leftarrow> putchar_via_gadget g 0; format_string_loop tg g rest args }" for rest
    by (simp cong: Option.bind_cong)
  have "format_string_loop tg g [] args = None" for g
    by (simp add: format_string_loop.simps peek_def)
  moreover have "format_string_loop tg g (0x25 # 0 # rest) args = Some g"
    by (rule format_string_loop_step(3)) (simp add: spec_text_def parse_specification_def advance_def)
  ultimately show ?thesis using * [of "[]"] * [of rest] by (simp split: bind_split)
qed

theorem incomplete_specification_witness:
  "format_string_loop (printf_config True) function_gadget [0x25, 0x35, 0] [] = None"
  by (rule incomplete_specification [THEN conjunct2, THEN conjunct1]) (simp add: is_digit_def)

text \<open>\<open>%.<d>s\<close> of an array of \<open>d\<close> characters without a terminator reads behind its end.\<close>

lemma string_precision_overread:
  assumes "0 \<notin> set p" "length p \<le> 9"
  shows "format_string_loop tg g (0x25 # 0x2E # of_nat (48 + length p) # 0x73 # rest)
    (Arg_str (Some p) # args) = None"
proof -
  define d :: u8 where "d = of_nat (48 + length p)"
  have "unat d = (48 + length p) mod 2 ^ 8" unfolding d_def by (simp only: unat_of_nat) simp
  with assms(2) have len: "unat d = 48 + length p" by simp
  with assms(2) have digit: "is_digit d" by (simp add: is_digit_def word_le_nat_alt)
  have "string_text FLAGS_PRECISION 0 (ucast d - 0x30) p = None"
    using digit_value [OF digit] len by (intro string_text_unterminated assms(1)) linarith
  then have "conv_text tg 0x73 FLAGS_PRECISION 0 (ucast d - 0x30) (Arg_str (Some p) # args) = None"
    by (simp add: conv_text_def next_str_def)
  from loop_fails [OF parse_precision_digit [OF digit] this] show ?thesis
    unfolding d_def [symmetric] by (simp add: is_digit_def)
qed

lemma string_precision_overread_example:
  "format_string_loop (printf_config True) function_gadget [0x25, 0x2E, 0x32, 0x73, 0] [Arg_str (Some [0x68, 0x69])] = None"
  using string_precision_overread [of "[0x68, 0x69]" "printf_config True" function_gadget "[0]" "[]"] by simp

text \<open>\<open>atou\<close> reads the decimal digits of a number back, modulo \<open>2 ^ 32\<close>, and stops behind them.\<close>

lemma atou_decimal:
  assumes "\<not> is_digit c"
  shows "atou (map (digit_ascii False) (radix_digits 10 n) @ c # rest) = Next (of_nat n, c # rest)"
  using radix_digits_decimal [of n] by (simp add: atou_def atou_loop_digits [OF assms])

lemma atou_decimal_example: "atou [0x34, 0x32, 0x64] = Next (42, [0x64])"
  using atou_decimal [of "0x64" 42 "[]"]
  by (simp add: is_digit_def radix_digits.simps digit_ascii_def)



text \<open>C29. \<^verbatim>\<open>%n\<close>, compiled in, stores the number of characters printed so far as an \<open>int\<close> through its argument
  and prints nothing.  \<^verbatim>\<open>%lln\<close> stores a \<open>long\<close>, which leaves half of a \<open>long long\<close> unwritten where
  \<open>long\<close> has 32 bits.\<close>

theorem printf_writeback:
  assumes "0 \<notin> set pre" "0x25 \<notin> set pre" "writeback_specifier tg"
  shows "format_string_loop tg g (pre @ [0x25, 0x6E] @ rest) (Arg_ref l # args) = do {
      g \<leftarrow> put_all pre g;
      format_string_loop tg (g\<lparr>g_stores := (l, object_bytes 4 (ucast (g_pos g))) # g_stores g\<rparr>) rest args } \<and>
    format_string_loop tg g (pre @ [0x25, 0x6C, 0x6C, 0x6E] @ rest) (Arg_ref l # args) = do {
      g \<leftarrow> put_all pre g;
      format_string_loop tg
        (g\<lparr>g_stores := (l, object_bytes (if lp64 tg then 8 else 4) (ucast (g_pos g))) # g_stores g\<rparr>) rest args } \<and>
    (\<forall>g'. put_all pre g = Some g' \<longrightarrow> g_pos g' = g_pos g + of_nat (length pre))"
proof -
  have size: "writeback_size tg 0 = 4" "writeback_size tg (FLAGS_LONG OR FLAGS_LONG_LONG) = (if lp64 tg then 8 else 4)"
    by (simp_all add: writeback_size_def flag_def c_consts)
  have "parse_specification tg (0x25 # 0x6E # rest) (Arg_ref l # args) = Next (0, 0, 0, 0x6E # rest, Arg_ref l # args)"
    by (rule parse_plain_specification) (simp_all add: is_digit_def)
  note int = loop_writeback [OF this assms(3), unfolded size]
  have "parse_specification tg (0x25 # 0x6C # 0x6C # 0x6E # rest) (Arg_ref l # args) =
      Next (FLAGS_LONG OR FLAGS_LONG_LONG, 0, 0, 0x6E # rest, Arg_ref l # args)"
    by (simp add: parse_long_long)
  note long_long = loop_writeback [OF this assms(3), unfolded size]
  show ?thesis
    by (simp add: loop_plain [OF assms(1,2)] int long_long put_all_pos cong: Option.bind_cong)
qed

theorem printf_writeback_witness:
  "\<exists>g. format_string_loop (printf_config True\<lparr>writeback_specifier := True\<rparr>) function_gadget [0x68, 0x69, 0x25, 0x6E, 0]
      [Arg_ref 7] = Some g \<and> g_stores g = [(7, [2, 0, 0, 0])] \<and> g_calls g = [0x69, 0x68]"
proof -
  let ?g = "\<lparr>g_function = True, g_calls = [0x69, 0x68], g_buffer = None, g_pos = 2, g_max_chars = 0x7FFFFFFF, g_stores = []\<rparr>"
  have put: "put_all [0x68, 0x69] function_gadget = Some ?g" by code_simp
  have bytes: "object_bytes 4 (ucast (2 :: u32)) = [2, 0, 0, 0]" by code_simp
  from printf_writeback [of "[0x68, 0x69]" "printf_config True\<lparr>writeback_specifier := True\<rparr>" function_gadget "[0]" 7 "[]"]
  have "format_string_loop (printf_config True\<lparr>writeback_specifier := True\<rparr>) function_gadget ([0x68, 0x69] @ [0x25, 0x6E] @ [0])
      [Arg_ref 7] = Some (?g\<lparr>g_stores := (7, object_bytes 4 (ucast (g_pos ?g))) # g_stores ?g\<rparr>)"
    unfolding put by (simp add: format_string_loop_end)
  then show ?thesis using bytes by simp
qed

end
