(* ===== verification/Guest_Prelude.thy ===== *)
theory Guest_Prelude
  imports Printf_Formats
begin

text \<open>
  What the models of the guest programs share: string literals and bounds-checked array accesses.
\<close>

section \<open>Strings and arrays\<close>

text \<open>A string literal.\<close>

definition c_str :: "string \<Rightarrow> u8 list" where
  "c_str s = map of_char s @ [0]"

text \<open>Reading and writing an element of an array, \<open>None\<close> out of bounds.\<close>

definition get_at :: "'a list \<Rightarrow> nat \<Rightarrow> 'a option" where
  "get_at xs i = (if i < length xs then Some (xs ! i) else None)"

definition put_at :: "'a list \<Rightarrow> nat \<Rightarrow> 'a \<Rightarrow> 'a list option" where
  "put_at xs i x = (if i < length xs then Some (xs[i := x]) else None)"

text \<open>Elements of an \<open>int\<close> array; an index out of range is \<open>None\<close>.\<close>

definition elem :: "'a list \<Rightarrow> int \<Rightarrow> 'a option" where
  "elem arr i = (if 0 \<le> i \<and> i < int (length arr) then Some (arr ! nat i) else None)"

definition set_elem :: "'a list \<Rightarrow> int \<Rightarrow> 'a \<Rightarrow> 'a list option" where
  "set_elem arr i x = (if 0 \<le> i \<and> i < int (length arr) then Some (arr[nat i := x]) else None)"

section \<open>Signed order\<close>

text \<open>The values of \<open>int\<close> in their signed order, an instance of the library's linear orders.\<close>

datatype c_int = C_int (c_int_word: u32)

instantiation c_int :: linorder
begin

definition less_eq_c_int :: "c_int \<Rightarrow> c_int \<Rightarrow> bool" where
  "x \<le> y \<longleftrightarrow> c_int_word x \<le>s c_int_word y"

definition less_c_int :: "c_int \<Rightarrow> c_int \<Rightarrow> bool" where
  "x < y \<longleftrightarrow> c_int_word x <s c_int_word y"

instance
proof
  show "x \<le> y \<Longrightarrow> y \<le> x \<Longrightarrow> x = y" for x y :: c_int
    by (metis less_eq_c_int_def word_sle_eq order_antisym signed_word_eqI c_int.expand)
qed (auto simp: less_eq_c_int_def less_c_int_def word_sle_eq word_sless_alt)

end

end
