(* ===== verification/Guest_Fibonacci.thy ===== *)
theory Guest_Fibonacci
  imports Guest_Prelude
begin

text \<open>
  The guest program \<^verbatim>\<open>tests/fibonacci/main.c\<close>: the memoised Fibonacci numbers and
  their table printed with \<open>printf\<close>.  Loop counters are natural numbers, since they stay far
  below the limits of \<open>int\<close>.
\<close>

section \<open>The Fibonacci program\<close>

definition FIB_NUM :: nat where [c_consts]: "FIB_NUM = 50"

lemma unat_pred:
  fixes a :: u64
  assumes "\<not> a \<le> 1"
  shows "unat (a - 1) = unat a - 1" "unat (a - 2) = unat a - 2" "1 < unat a"
  using assms by (simp_all add: word_le_nat_alt unat_sub_if')

text \<open>The operands of the addition are evaluated from left to right.\<close>

function fib_mem :: "u64 \<Rightarrow> u64 list \<Rightarrow> (u64 \<times> u64 list) option" where
  "fib_mem a fib_array =
     (if a \<le> 1 then do {
        fib_array \<leftarrow> put_at fib_array (unat a) a;
        v \<leftarrow> get_at fib_array (unat a);
        Some (v, fib_array) }
      else do {
        v \<leftarrow> get_at fib_array (unat a);
        fib_array \<leftarrow> (if v = 0 then do {
            (x, fib_array) \<leftarrow> fib_mem (a - 1) fib_array;
            (y, fib_array) \<leftarrow> fib_mem (a - 2) fib_array;
            put_at fib_array (unat a) (x + y) }
          else Some fib_array);
        v \<leftarrow> get_at fib_array (unat a);
        Some (v, fib_array) })"
  by pat_completeness auto
termination
proof (relation "measure (\<lambda>(a, _). unat a)")
  fix a :: u64 and xs ys :: "u64 list"
  assume "\<not> a \<le> 1"
  note a = unat_pred [OF this]
  then show "((a - 1, xs), a, ys) \<in> measure (\<lambda>(a, _). unat a)"
    "((a - 2, xs), a, ys) \<in> measure (\<lambda>(a, _). unat a)"
    by simp_all
qed simp

declare fib_mem.simps [simp del]

definition fib_line :: "target \<Rightarrow> nat \<Rightarrow> u64 \<Rightarrow> u8 list \<Rightarrow> u8 list option" where
  "fib_line tg i v out = do {
     (ret, cs) \<leftarrow> printf tg (c_str (''Fib(%2d) = %llu'' @ [CHR 0x0A])) [Arg_int (of_nat i), Arg_llong v];
     Some (out @ cs) }"

function fib_print :: "target \<Rightarrow> u64 list \<Rightarrow> nat \<Rightarrow> u8 list \<Rightarrow> u8 list option" where
  "fib_print tg fib_array i out =
     (if i \<le> FIB_NUM then do {
        v \<leftarrow> get_at fib_array i;
        out \<leftarrow> fib_line tg i v out;
        fib_print tg fib_array (i + 1) out }
      else Some out)"
  by pat_completeness auto
termination by (relation "measure (\<lambda>(_, _, i, _). FIB_NUM + 1 - i)") auto

declare fib_print.simps [simp del]

definition fibonacci_main :: "target \<Rightarrow> (nat \<times> u8 list) option" where
  "fibonacci_main tg = do {
     let fib_array = replicate (FIB_NUM + 1) 0;
     fib_array \<leftarrow> put_at fib_array 0 0;
     fib_array \<leftarrow> put_at fib_array 1 1;
     (v, fib_array) \<leftarrow> fib_mem (of_nat FIB_NUM) fib_array;
     (ret, out) \<leftarrow> printf tg (c_str (''Fibonacci Sequence up to %d:'' @ [CHR 0x0A])) [Arg_int (of_nat FIB_NUM)];
     (ret, cs) \<leftarrow> printf tg (c_str (replicate 31 CHR ''-'' @ [CHR 0x0A])) [];
     out \<leftarrow> fib_print tg fib_array 0 (out @ cs);
     Some (0, out) }"

text \<open>The Fibonacci numbers, the specification of \<open>fib_mem\<close>.\<close>

fun fib :: "nat \<Rightarrow> nat" where
  "fib 0 = 0" | "fib (Suc 0) = 1" | "fib (Suc (Suc n)) = fib (Suc n) + fib n"

text \<open>The table is filled up to \<open>n\<close>.\<close>

definition filled :: "nat \<Rightarrow> u64 list \<Rightarrow> bool" where
  "filled n xs \<longleftrightarrow> (\<forall>k < length xs. xs ! k = (if k < n then of_nat (fib k) else 0))"

lemma filled_update:
  "filled (max n a) xs \<Longrightarrow> filled (max n (Suc a)) (xs[a := of_nat (fib a)])"
proof -
  assume "filled (max n a) xs"
  then have "xs[a := of_nat (fib a)] ! k = (if k < max n (Suc a) then of_nat (fib k) else 0)" if "k < length xs" for k
    using that by (cases "k = a") (auto simp: filled_def)
  then show ?thesis by (simp add: filled_def)
qed

lemma fib_mem_filled:
  "filled n xs \<Longrightarrow> 2 \<le> n \<Longrightarrow> unat a < length xs \<Longrightarrow>
    \<exists>ys. fib_mem a xs = Some (of_nat (fib (unat a)), ys) \<and> filled (max n (Suc (unat a))) ys \<and> length ys = length xs"
proof (induction a xs arbitrary: n rule: fib_mem.induct)
  case (1 a xs)
  show ?case
  proof (cases "a \<le> 1")
    case True
    then have "unat a = 0 \<or> unat a = 1" by (auto simp: word_le_nat_alt)
    then have "fib (unat a) = unat a" "unat a < n" using 1(4) by auto
    moreover from this have xs: "xs ! unat a = a" using 1(3,5) by (simp add: filled_def)
    moreover from xs have "xs[unat a := a] = xs" by (metis list_update_id)
    moreover have "max n (Suc (unat a)) = n" using \<open>unat a < n\<close> by simp
    ultimately show ?thesis
      using True 1(3-5) by (subst fib_mem.simps) (simp add: put_at_def get_at_def)
  next
    case False
    note a = unat_pred [OF False]
    show ?thesis
    proof (cases "xs ! unat a = 0")
      case False
      with \<open>\<not> a \<le> 1\<close> 1(3,5) have "unat a < n" "xs ! unat a = of_nat (fib (unat a))"
        by (auto simp: filled_def split: if_splits)
      moreover from this have "max n (Suc (unat a)) = n" by simp
      ultimately show ?thesis
        using \<open>\<not> a \<le> 1\<close> False 1(3,5) by (subst fib_mem.simps) (auto simp: get_at_def)
    next
      case True
      then have get_at: "get_at xs (unat a) = Some 0" using 1(5) by (simp add: get_at_def)
      have l: "unat a - 1 < length xs" "unat a - 2 < length xs" using 1(5) by simp_all
      from "1.IH"(1) [OF False get_at refl 1(3,4)] a l obtain ys where
        ys: "fib_mem (a - 1) xs = Some (of_nat (fib (unat a - 1)), ys)" "filled (max n (unat a)) ys"
          "length ys = length xs" by auto
      have mx: "2 \<le> max n (unat a)" "max (max n (unat a)) (Suc (unat a - 2)) = max n (unat a)"
        using 1(4) a(3) by auto
      from "1.IH"(2) [OF False get_at refl ys(1) refl ys(2) mx(1)] a l ys(3) obtain zs where
        zs: "fib_mem (a - 2) ys = Some (of_nat (fib (unat a - 2)), zs)" "filled (max n (unat a)) zs"
          "length zs = length xs" by (auto simp: mx(2))
      obtain k where k: "unat a = Suc (Suc k)" using a(3) by (metis less_imp_Suc_add plus_1_eq_Suc)
      have "fib (unat a) = fib (unat a - 1) + fib (unat a - 2)" by (simp add: k)
      then have "of_nat (fib (unat a - 1)) + of_nat (fib (unat a - 2)) = (of_nat (fib (unat a)) :: u64)" by simp
      with False get_at ys(1) zs filled_update [OF zs(2)] 1(5) show ?thesis
        by (subst fib_mem.simps) (simp add: put_at_def get_at_def)
    qed
  qed
qed


section \<open>The output of the Fibonacci program\<close>

definition fib_text :: "nat \<Rightarrow> u8 list" where
  "fib_text i = map of_char ''Fib('' @ replicate (2 - length (int_text (int i))) 0x20 @ int_text (int i) @
     map of_char '') = '' @ int_text (int (fib i)) @ [0x0A]"

lemma fib_bound: "fib n \<le> 2 ^ n"
  by (induction n rule: fib.induct) simp_all

lemma fib_line_eq:
  assumes "i \<le> 50"
  shows "fib_line tg i (of_nat (fib i)) out = Some (out @ fib_text i)"
proof -
  have "fib i \<le> 2 ^ 50"
    using fib_bound [of i] power_increasing [of i 50 "2 :: nat"] assms by simp
  then have v: "uint (of_nat (fib i) :: u64) = int (fib i)" "nat \<bar>int (fib i)\<bar> < 10 ^ 20"
    by (simp_all add: uint_word_of_int_eq unsigned_of_nat take_bit_nat_eq_self)
  have s: "sint (of_nat i :: u32) = int i" "nat \<bar>int i\<bar> < 10 ^ 20"
    using assms by (simp_all add: signed_of_nat signed_take_bit_int_eq_self)
  have "format_text tg (c_str (''Fib(%2d) = %llu'' @ [CHR 0x0A])) [Arg_int (of_nat i), Arg_llong (of_nat (fib i))] =
      Some (fib_text i)"
    by (simp add: c_str_def spec_text_width spec_text_unsigned v(1) s(1) fib_text_def)
  moreover have "length (fib_text i) \<le> unat PRINTF_MAX_POSSIBLE_BUFFER_SIZE"
    using length_int_text [OF v(2)] length_int_text [OF s(2)] by (simp add: fib_text_def c_consts)
  ultimately show ?thesis by (simp add: fib_line_def printf_text)
qed


lemma fib_print_eq:
  assumes "filled 51 xs" "length xs = 51"
  shows "i \<le> 51 \<Longrightarrow> fib_print tg xs i out = Some (out @ concat (map fib_text [i..<51]))"
proof (induction "51 - i" arbitrary: i out)
  case 0
  then show ?case by (subst fib_print.simps) (simp add: FIB_NUM_def)
next
  case (Suc k)
  then have i: "i \<le> 50" by simp
  then have "get_at xs i = Some (of_nat (fib i))" using assms by (simp add: get_at_def filled_def)
  moreover have "[i..<51] = i # [Suc i..<51]" using i by (simp add: upt_conv_Cons)
  ultimately show ?case
    using i Suc.hyps(1) [of "Suc i" "out @ fib_text i"] Suc.hyps(2)
    by (subst fib_print.simps) (simp add: FIB_NUM_def fib_line_eq)
qed

lemma int_text_50: "int_text 50 = [0x35, 0x30]"
  by (simp add: int_text_def radix_digits.simps digit_ascii_def)

section \<open>Properties\<close>

text \<open>C37. The Fibonacci program prints its two header lines and then, for every number from 0 to 50,
  a line with the number padded to two columns and its Fibonacci number.\<close>

theorem fibonacci_output:
  "fibonacci_main tg = Some (0,
    map of_char ''Fibonacci Sequence up to 50:'' @ [0x0A] @ replicate 31 (of_char (CHR ''-'')) @ [0x0A] @
    concat (map fib_text [0..<51]))"
proof -
  let ?a = "(replicate 51 0)[1 := (1 :: u64)]"
  have "filled 2 ?a"
    by (auto simp: filled_def nth_list_update less_Suc_eq numeral_2_eq_2)
  from fib_mem_filled [OF this, of 50] obtain xs where
    xs: "fib_mem 50 ?a = Some (of_nat (fib 50), xs)" "filled 51 xs" "length xs = 51" by auto
  have h: "format_text tg (c_str (''Fibonacci Sequence up to %d:'' @ [CHR 0x0A])) [Arg_int 50] =
      Some (map of_char ''Fibonacci Sequence up to 50:'' @ [0x0A])"
    by (simp add: c_str_def spec_text_signed int_text_50)
  have d: "format_text tg (c_str (replicate 31 CHR ''-'' @ [CHR 0x0A])) [] =
      Some (replicate 31 (of_char (CHR ''-'')) @ [0x0A])"
    using format_text_plain [of "replicate 31 0x2D @ [0x0A]" tg "[0]" "[]"] by (simp add: c_str_def)
  have "put_at (replicate (FIB_NUM + 1) (0 :: u64)) 0 0 = Some (replicate 51 0)"
    "put_at (replicate 51 (0 :: u64)) 1 1 = Some ?a"
    by (simp_all add: put_at_def FIB_NUM_def list_update_same_conv)
  moreover have "fib_mem (of_nat FIB_NUM) ?a = Some (of_nat (fib 50), xs)" using xs(1) by (simp add: FIB_NUM_def)
  moreover have "printf tg (c_str (''Fibonacci Sequence up to %d:'' @ [CHR 0x0A])) [Arg_int (of_nat FIB_NUM)] =
      Some (29, map of_char ''Fibonacci Sequence up to 50:'' @ [0x0A])"
    using printf_text [OF h] by (simp add: FIB_NUM_def c_consts)
  moreover have "printf tg (c_str (replicate 31 CHR ''-'' @ [CHR 0x0A])) [] =
      Some (32, replicate 31 (of_char (CHR ''-'')) @ [0x0A])"
    using printf_text [OF d] by (simp add: c_consts)
  ultimately show ?thesis
    by (simp only: fibonacci_main_def Let_def bind.bind_lunit case_prod_conv
        fib_print_eq [OF xs(2,3), of 0, simplified] append_assoc)
qed

end
