(* ===== verification/Guest_Stress.thy ===== *)
theory Guest_Stress
  imports Guest_Prelude "HOL-Library.Multiset"
begin

text \<open>
  The guest program \<^verbatim>\<open>tests/im_stress/main.c\<close>: quicksort, a hash, a mean, and their
  output.  Array elements are machine words; indices are integers, since they stay far below the
  limits of \<open>int\<close>.
\<close>

section \<open>The sorting of the stress test\<close>

definition swap :: "u32 list \<Rightarrow> int \<Rightarrow> int \<Rightarrow> u32 list option" where
  "swap arr a b = do {
     t \<leftarrow> elem arr a;
     y \<leftarrow> elem arr b;
     arr \<leftarrow> set_elem arr a y;
     set_elem arr b t }"

text \<open>The loop of \<open>partition\<close> with its variables \<open>i\<close> and \<open>j\<close>.\<close>

function partition_loop :: "u32 list \<Rightarrow> u32 \<Rightarrow> int \<Rightarrow> int \<Rightarrow> int \<Rightarrow> (int \<times> u32 list) option" where
  "partition_loop arr pivot high i j =
     (if j \<le> high - 1 then do {
        x \<leftarrow> elem arr j;
        (i, arr) \<leftarrow> (if x <s pivot then do { arr \<leftarrow> swap arr (i + 1) j; Some (i + 1, arr) }
          else Some (i, arr));
        partition_loop arr pivot high i (j + 1) }
      else Some (i, arr))"
  by pat_completeness auto
termination by (relation "measure (\<lambda>(_, _, high, _, j). nat (high - j))") auto

declare partition_loop.simps [simp del]

definition partition_arr :: "u32 list \<Rightarrow> int \<Rightarrow> int \<Rightarrow> (int \<times> u32 list) option" where
  "partition_arr arr low high = do {
     pivot \<leftarrow> elem arr high;
     (i, arr) \<leftarrow> partition_loop arr pivot high (low - 1) low;
     arr \<leftarrow> swap arr (i + 1) high;
     Some (i + 1, arr) }"

lemma partition_loop_range:
  "partition_loop arr pivot high i j = Some (i', arr') \<Longrightarrow> j \<le> high \<Longrightarrow> i \<le> i' \<and> i' - i \<le> high - j"
proof (induction arr pivot high i j rule: partition_loop.induct)
  case (1 arr pivot high i j)
  show ?case
  proof (cases "j \<le> high - 1")
    case True
    then obtain x k ys where "elem arr j = Some x" 
      "(if x <s pivot then do { arr \<leftarrow> swap arr (i + 1) j; Some (i + 1, arr) } else Some (i, arr)) = Some (k, ys)"
      and l: "partition_loop ys pivot high k (j + 1) = Some (i', arr')"
      using 1(2) unfolding partition_loop.simps [of arr pivot high i j] by (auto simp: bind_eq_Some_conv)
    moreover from this have "k = i \<or> k = i + 1" by (auto simp: bind_eq_Some_conv split: if_splits)
    ultimately show ?thesis using 1(1) [OF True _ _ refl l] True by fastforce
  next
    case False
    then show ?thesis using 1(2,3) unfolding partition_loop.simps [of arr pivot high i j] by simp
  qed
qed

lemma partition_range:
  assumes "partition_arr arr low high = Some (p, ys)" "low \<le> high"
  shows "low \<le> p" "p \<le> high"
proof -
  from assms(1) obtain pivot i zs where "partition_loop arr pivot high (low - 1) low = Some (i, zs)" "p = i + 1"
    by (auto simp: partition_arr_def bind_eq_Some_conv)
  with partition_loop_range [OF this(1) assms(2)] show "low \<le> p" "p \<le> high" by auto
qed

function quicksort :: "u32 list \<Rightarrow> int \<Rightarrow> int \<Rightarrow> u32 list option" where
  "quicksort arr low high =
     (if low < high then do {
        (p, arr) \<leftarrow> partition_arr arr low high;
        arr \<leftarrow> quicksort arr low (p - 1);
        quicksort arr (p + 1) high }
      else Some arr)"
  by pat_completeness auto
termination
  by (relation "measure (\<lambda>(_, low, high). nat (high - low + 1))") (auto dest: partition_range)

declare quicksort.simps [simp del]

text \<open>Only the cells from \<open>l\<close> to \<open>h\<close> change, and they are permuted.\<close>

definition permuted :: "int \<Rightarrow> int \<Rightarrow> 'a list \<Rightarrow> 'a list \<Rightarrow> bool" where
  "permuted l h xs ys \<longleftrightarrow> length ys = length xs \<and> mset ys = mset xs \<and>
     (\<forall>k < length xs. int k < l \<or> h < int k \<longrightarrow> ys ! k = xs ! k)"

lemma permuted_refl: "permuted l h xs xs"
  by (simp add: permuted_def)

lemma permuted_trans: "permuted l h xs ys \<Longrightarrow> permuted l h ys zs \<Longrightarrow> permuted l h xs zs"
  by (simp add: permuted_def)

lemma permuted_weaken: "permuted l h xs ys \<Longrightarrow> l' \<le> l \<Longrightarrow> h \<le> h' \<Longrightarrow> permuted l' h' xs ys"
  by (auto simp: permuted_def)

text \<open>What holds of all cells between \<open>l\<close> and \<open>h\<close> still does.\<close>

definition between :: "int \<Rightarrow> int \<Rightarrow> 'a list \<Rightarrow> ('a \<Rightarrow> bool) \<Rightarrow> bool" where
  "between l h xs P \<longleftrightarrow> (\<forall>k < length xs. l \<le> int k \<and> int k \<le> h \<longrightarrow> P (xs ! k))"

lemma count_filter_nth:
  "size (filter_mset P (mset xs)) = card {k. k < length xs \<and> P (xs ! k)}"
  by (simp add: mset_filter [symmetric] length_filter_conv_card del: mset_filter)

lemma between_permuted:
  assumes p: "permuted l h xs ys" and b: "between l h xs P"
  shows "between l h ys P"
proof -
  let ?in = "\<lambda>k. l \<le> int k \<and> int k \<le> h"
  let ?bad = "\<lambda>zs. {k. k < length zs \<and> \<not> P (zs ! k)}"
  have "size (filter_mset (\<lambda>x. \<not> P x) (mset xs)) = size (filter_mset (\<lambda>x. \<not> P x) (mset ys))"
    using p by (simp add: permuted_def)
  then have "card (?bad xs) = card (?bad ys)" by (simp only: count_filter_nth)
  moreover have "?bad xs \<subseteq> ?bad ys" using p b by (auto simp: permuted_def between_def)
  ultimately have "?bad xs = ?bad ys" by (intro card_subset_eq) simp_all
  with b p show ?thesis by (auto simp: between_def permuted_def)
qed

lemma swap_permuted:
  assumes "l \<le> a" "a \<le> h" "l \<le> b" "b \<le> h" "0 \<le> l" "h < int (length xs)"
  shows "\<exists>ys. swap xs a b = Some ys \<and> permuted l h xs ys \<and>
    (\<forall>k < length xs. ys ! k = (if int k = b then xs ! nat a else if int k = a then xs ! nat b else xs ! k))"
  using assms
  by (auto simp: swap_def elem_def set_elem_def permuted_def mset_swap nth_list_update)


lemma between_D: "between l h xs P \<Longrightarrow> l \<le> int k \<Longrightarrow> int k \<le> h \<Longrightarrow> k < length xs \<Longrightarrow> P (xs ! k)"
  by (simp add: between_def)

lemma partition_loop_correct:
  assumes "0 \<le> l" "l \<le> j" "j \<le> h" "l - 1 \<le> i" "i < j" "h < int (length xs)"
    and "between l i xs (\<lambda>x. x <s p)" "between (i + 1) (j - 1) xs (\<lambda>x. \<not> x <s p)"
  shows "\<exists>i' ys. partition_loop xs p h i j = Some (i', ys) \<and> l - 1 \<le> i' \<and> i' < h \<and> permuted l (h - 1) xs ys \<and>
    between l i' ys (\<lambda>x. x <s p) \<and> between (i' + 1) (h - 1) ys (\<lambda>x. \<not> x <s p)"
  using assms
proof (induction xs p h i j rule: partition_loop.induct)
  case (1 xs p h i j)
  show ?case
  proof (cases "j \<le> h - 1")
    case True
    then have j: "elem xs j = Some (xs ! nat j)" using 1(2-7) by (simp add: elem_def)
    show ?thesis
    proof (cases "xs ! nat j <s p")
      case less: True
      have a: "l \<le> i + 1" "i + 1 \<le> h - 1" "j \<le> h - 1" "h - 1 < int (length xs)" using 1(2-7) True by auto
      from swap_permuted [OF a(1,2) 1(3) a(3) 1(2) a(4)] obtain ys where
        ys: "swap xs (i + 1) j = Some ys" "permuted l (h - 1) xs ys"
          "\<forall>k < length xs. ys ! k = (if int k = j then xs ! nat (i + 1) else if int k = i + 1 then xs ! nat j else xs ! k)"
        by blast
      have len: "length ys = length xs" using ys(2) by (simp add: permuted_def)
      have low: "between l (i + 1) ys (\<lambda>x. x <s p)"
        using ys(3) 1(2-8) less by (auto simp: between_def len)
      have high: "between (i + 1 + 1) (j + 1 - 1) ys (\<lambda>x. \<not> x <s p)"
        using ys(3) 1(2-7,9) less by (auto simp: between_def len)
      have s: "(if xs ! nat j <s p then do { arr \<leftarrow> swap xs (i + 1) j; Some (i + 1, arr) } else Some (i, xs)) =
          Some (i + 1, ys)" using less ys(1) by simp
      from "1.IH" [OF True j s refl 1(2) _ _ _ _ _ low high] 1(3-7) True len obtain i' zs where
        "partition_loop ys p h (i + 1) (j + 1) = Some (i', zs)" "l - 1 \<le> i'" "i' < h" "permuted l (h - 1) ys zs"
        "between l i' zs (\<lambda>x. x <s p)" "between (i' + 1) (h - 1) zs (\<lambda>x. \<not> x <s p)"
        by auto
      with True j s permuted_trans [OF ys(2)] show ?thesis
        by (subst partition_loop.simps) auto
    next
      case False
      have high: "between (i + 1) (j + 1 - 1) xs (\<lambda>x. \<not> x <s p)"
        using 1(2-7,9) False by (auto simp: between_def dest: le_imp_less_or_eq) 
      have s: "(if xs ! nat j <s p then do { arr \<leftarrow> swap xs (i + 1) j; Some (i + 1, arr) } else Some (i, xs)) =
          Some (i, xs)" using False by simp
      from "1.IH" [OF True j s refl 1(2) _ _ 1(5) _ 1(7,8) high] 1(3,4,6) True obtain i' zs where
        "partition_loop xs p h i (j + 1) = Some (i', zs)" "l - 1 \<le> i'" "i' < h" "permuted l (h - 1) xs zs"
        "between l i' zs (\<lambda>x. x <s p)" "between (i' + 1) (h - 1) zs (\<lambda>x. \<not> x <s p)"
        by auto
      with True j s show ?thesis by (subst partition_loop.simps) auto
    qed
  next
    case False
    then have "j = h" using 1(4) by simp
    with 1 False show ?thesis
      by (subst partition_loop.simps) (auto simp: permuted_refl)
  qed
qed

lemma partition_correct:
  assumes "0 \<le> l" "l \<le> h" "h < int (length xs)"
  shows "\<exists>p ys. partition_arr xs l h = Some (p, ys) \<and> l \<le> p \<and> p \<le> h \<and> permuted l h xs ys \<and>
    between l (p - 1) ys (\<lambda>x. x <s ys ! nat p) \<and> between (p + 1) h ys (\<lambda>x. \<not> x <s ys ! nat p)"
proof -
  define p where "p = xs ! nat h"
  have e: "elem xs h = Some p" using assms by (simp add: elem_def p_def)
  have "between l (l - 1) xs (\<lambda>x. x <s p)" "between (l - 1 + 1) (l - 1) xs (\<lambda>x. \<not> x <s p)"
    by (auto simp: between_def)
  from partition_loop_correct [OF assms(1) order_refl assms(2) _ _ assms(3) this] obtain i ys where
    ys: "partition_loop xs p h (l - 1) l = Some (i, ys)" "l - 1 \<le> i" "i < h" "permuted l (h - 1) xs ys"
      "between l i ys (\<lambda>x. x <s p)" "between (i + 1) (h - 1) ys (\<lambda>x. \<not> x <s p)"
    by auto
  have len: "length ys = length xs" and yh: "ys ! nat h = p"
    using ys(4) assms by (simp_all add: permuted_def p_def)
  have "l \<le> i + 1" "i + 1 \<le> h" "h < int (length ys)" using ys(2,3) assms(3) len by auto
  from swap_permuted [OF this(1,2) assms(2) order_refl assms(1) this(3)] obtain zs where
    zs: "swap ys (i + 1) h = Some zs" "permuted l h ys zs"
      "\<forall>k < length ys. zs ! k = (if int k = h then ys ! nat (i + 1) else if int k = i + 1 then ys ! nat h else ys ! k)"
    by blast
  have len': "length zs = length xs" using zs(2) len by (simp add: permuted_def)
  have pivot: "zs ! nat (i + 1) = p"
    using zs(3) [rule_format, of "nat (i + 1)"] ys(2,3) assms yh len by auto
  have "between l i zs (\<lambda>x. x <s p)"
    using ys(5) zs(3) ys(3) len len' by (auto simp: between_def)
  moreover have "between (i + 2) h zs (\<lambda>x. \<not> x <s p)"
    using ys(2,6) zs(3) ys(3) len len' assms by (auto simp: between_def)
  moreover have "permuted l h xs zs"
    using permuted_trans [OF permuted_weaken [OF ys(4)] zs(2)] by simp
  ultimately show ?thesis
    using e ys(1,2,3) zs(1) pivot
    by (intro exI [of _ "i + 1"] exI [of _ zs]) (simp add: partition_arr_def add.commute)
qed

definition sorted_between :: "int \<Rightarrow> int \<Rightarrow> u32 list \<Rightarrow> bool" where
  "sorted_between l h xs \<longleftrightarrow> (\<forall>b < length xs. \<forall>a \<le> b. l \<le> int a \<and> int b \<le> h \<longrightarrow> sint (xs ! a) \<le> sint (xs ! b))"

text \<open>The cells from \<open>l\<close> to \<open>h\<close> are sorted, recursion on both sides of the pivot.\<close>

lemma quicksort_correct:
  "0 \<le> l \<Longrightarrow> h < int (length xs) \<Longrightarrow>
    \<exists>ys. quicksort xs l h = Some ys \<and> permuted l h xs ys \<and> sorted_between l h ys"
proof (induction xs l h rule: quicksort.induct)
  case (1 xs l h)
  show ?case
  proof (cases "l < h")
    case False
    then have "a = b" if "a \<le> b" "l \<le> int a" "int b \<le> h" for a b :: nat using that by linarith
    then have "sorted_between l h xs" by (fastforce simp: sorted_between_def)
    with False show ?thesis by (subst quicksort.simps) (simp add: permuted_refl)
  next
    case True
    from partition_correct [OF 1(3) _ 1(4)] True obtain p ys where
      p: "partition_arr xs l h = Some (p, ys)" "l \<le> p" "p \<le> h" "permuted l h xs ys"
        "between l (p - 1) ys (\<lambda>x. x <s ys ! nat p)" "between (p + 1) h ys (\<lambda>x. \<not> x <s ys ! nat p)"
      by auto
    have len: "length ys = length xs" using p(4) by (simp add: permuted_def)
    from "1.IH"(1) [OF True p(1) refl 1(3)] p(3) 1(4) len obtain us where
      us: "quicksort ys l (p - 1) = Some us" "permuted l (p - 1) ys us" "sorted_between l (p - 1) us"
      by auto
    from "1.IH"(2) [OF True p(1) refl us(1)] us(2) 1(3,4) p(2) len obtain zs where
      zs: "quicksort us (p + 1) h = Some zs" "permuted (p + 1) h us zs" "sorted_between (p + 1) h zs"
      by (auto simp: permuted_def)
    have lens: "length us = length xs" "length zs = length xs"
      using us(2) zs(2) len by (simp_all add: permuted_def)
    let ?v = "ys ! nat p"
    have "between l (p - 1) us (\<lambda>x. x <s ?v)" by (rule between_permuted [OF us(2) p(5)])
    then have low: "between l (p - 1) zs (\<lambda>x. x <s ?v)"
      using zs(2) by (auto simp: between_def permuted_def)
    have "between (p + 1) h us (\<lambda>x. \<not> x <s ?v)"
      using p(6) us(2) by (auto simp: between_def permuted_def)
    then have high: "between (p + 1) h zs (\<lambda>x. \<not> x <s ?v)" by (rule between_permuted [OF zs(2)])
    have mid: "zs ! nat p = ?v"
      using us(2) zs(2) p(2,3) 1(3,4) len by (simp add: permuted_def)
    have sl: "sorted_between l (p - 1) zs"
      using us(3) zs(2) by (auto simp: sorted_between_def permuted_def)
    have "sorted_between l h zs"
      unfolding sorted_between_def
    proof (intro allI impI)
      fix a b assume ab: "b < length zs" "a \<le> b" "l \<le> int a \<and> int b \<le> h"
      consider "int b < p" | "p < int a" | "int a \<le> p" "p \<le> int b" by linarith
      then show "sint (zs ! a) \<le> sint (zs ! b)"
      proof cases
        case 1
        then show ?thesis using sl ab by (simp add: sorted_between_def)
      next
        case 2
        then show ?thesis using zs(3) ab by (simp add: sorted_between_def)
      next
        case 3
        have len: "a < length zs" using ab by simp
        have "sint (zs ! a) \<le> sint ?v"
        proof (cases "int a = p")
          case True
          then show ?thesis using mid by auto
        next
          case False
          then show ?thesis using between_D [OF low, of a] 3 ab len by (simp add: word_sless_alt)
        qed
        moreover have "sint ?v \<le> sint (zs ! b)"
        proof (cases "int b = p")
          case True
          then show ?thesis using mid by auto
        next
          case False
          then show ?thesis using between_D [OF high, of b] 3 ab by (simp add: word_sless_alt)
        qed
        ultimately show ?thesis by simp
      qed
    qed
    moreover have "permuted l h xs zs"
      by (rule permuted_trans [OF p(4) permuted_trans [OF permuted_weaken [OF us(2)] permuted_weaken [OF zs(2)]]])
        (use p(2,3) in simp_all)
    ultimately show ?thesis
      using True p(1) us(1) zs(1) by (subst quicksort.simps) auto
  qed
qed

text \<open>On a whole array \<open>quicksort\<close> is the library's sorting function for the signed order.\<close>

lemma sorted_array:
  assumes "permuted 0 (int (length arr) - 1) arr ys" "sorted_between 0 (int (length arr) - 1) ys"
  shows "map C_int ys = sort (map C_int arr)"
proof (rule properties_for_sort [symmetric])
  show "mset (map C_int ys) = mset (map C_int arr)" using assms(1) by (simp add: permuted_def)
  show "sorted (map C_int ys)"
    using assms by (auto simp: permuted_def sorted_iff_nth_mono sorted_between_def less_eq_c_int_def word_sle_eq)
qed

section \<open>Hash and mean\<close>

text \<open>An \<open>int\<close> array seen as bytes, in the byte order of the machine.\<close>

definition int_bytes :: "u32 list \<Rightarrow> u8 list" where
  "int_bytes arr = concat (map (\<lambda>x. map (\<lambda>k. ucast (drop_bit (8 * k) x)) [0..<4]) arr)"

function hash_loop :: "u8 list \<Rightarrow> int \<Rightarrow> int \<Rightarrow> u32 \<Rightarrow> u32 option" where
  "hash_loop bytes byte_length i hash =
     (if i < byte_length then do {
        b \<leftarrow> elem bytes i;
        hash_loop bytes byte_length (i + 1) ((hash XOR ucast b) * 0x01000193) }
      else Some hash)"
  by pat_completeness auto
termination by (relation "measure (\<lambda>(_, n, i, _). nat (n - i))") auto

declare hash_loop.simps [simp del]

definition calculate_hash :: "u32 list \<Rightarrow> int \<Rightarrow> u32 option" where
  "calculate_hash arr len = hash_loop (int_bytes arr) (len * 4) 0 0x811C9DC5"

function sum_loop :: "u32 list \<Rightarrow> int \<Rightarrow> int \<Rightarrow> u32 \<Rightarrow> u32 option" where
  "sum_loop arr len i acc =
     (if i < len then do {
        x \<leftarrow> elem arr i;
        sum_loop arr len (i + 1) (acc + x) }
      else Some acc)"
  by pat_completeness auto
termination by (relation "measure (\<lambda>(_, n, i, _). nat (n - i))") auto

declare sum_loop.simps [simp del]

definition calculate_mean :: "u32 list \<Rightarrow> int \<Rightarrow> u32 option" where
  "calculate_mean arr len = do {
     acc \<leftarrow> sum_loop arr len 0 0;
     if len = 0 then None else Some (c_sdiv acc (word_of_int len)) }"

section \<open>The program\<close>

definition source_data :: "u32 list" where
  "source_data = [45, - 12, 1024, 0, 77, - 99, 256, 11, 8, 333, - 1, 42, 888, 17, 55, 3]"

function copy_loop :: "u32 list \<Rightarrow> int \<Rightarrow> u32 list \<Rightarrow> u32 list option" where
  "copy_loop source i sorted_data =
     (if i < 16 then do {
        x \<leftarrow> elem source i;
        sorted_data \<leftarrow> set_elem sorted_data i x;
        copy_loop source (i + 1) sorted_data }
      else Some sorted_data)"
  by pat_completeness auto
termination by (relation "measure (\<lambda>(_, i, _). nat (16 - i))") auto

declare copy_loop.simps [simp del]

function print_loop :: "target \<Rightarrow> u32 list \<Rightarrow> int \<Rightarrow> u8 list \<Rightarrow> u8 list option" where
  "print_loop tg data i out =
     (if i < 16 then do {
        x \<leftarrow> elem data i;
        (ret, cs) \<leftarrow> printf tg (c_str ''%d%s'')
          [Arg_int x, Arg_str (Some (c_str (if i = 15 then '''' else '', '')))];
        print_loop tg data (i + 1) (out @ cs) }
      else Some out)"
  by pat_completeness auto
termination by (relation "measure (\<lambda>(_, _, i, _). nat (16 - i))") auto

declare print_loop.simps [simp del]

definition im_stress_main :: "target \<Rightarrow> (nat \<times> u8 list) option" where
  "im_stress_main tg = do {
     sorted_data \<leftarrow> copy_loop source_data 0 (replicate 16 0);
     sorted_data \<leftarrow> quicksort sorted_data 0 15;
     final_hash \<leftarrow> calculate_hash sorted_data 16;
     stats_mean \<leftarrow> calculate_mean sorted_data 16;
     (ret, out) \<leftarrow> printf tg (c_str (''Source Data:'' @ [CHR 0x0A])) [];
     out \<leftarrow> print_loop tg source_data 0 out;
     (ret, cs) \<leftarrow> printf tg (c_str ([CHR 0x0A, CHR 0x0A] @ ''Sorted Data:'' @ [CHR 0x0A])) [];
     out \<leftarrow> print_loop tg sorted_data 0 (out @ cs);
     (ret, cs1) \<leftarrow> printf tg (c_str ([CHR 0x0A, CHR 0x0A] @ ''Final Hash: %u'' @ [CHR 0x0A])) [Arg_int final_hash];
     (ret, cs2) \<leftarrow> printf tg (c_str (''Stats Mean: %d'' @ [CHR 0x0A])) [Arg_int stats_mean];
     Some (0, out @ cs1 @ cs2) }"

text \<open>The hash folds the bytes; the sum is that of the elements.\<close>

definition fnv :: "u8 list \<Rightarrow> u32" where
  "fnv bs = foldl (\<lambda>h b. (h XOR ucast b) * 0x01000193) 0x811C9DC5 bs"

text \<open>The loops visit the elements from the end of the part already seen.\<close>

lemma elem_suffix:
  assumes "drop (length arr - length (x # xs)) arr = x # xs"
  shows "elem arr (int (length arr) - int (length (x # xs))) = Some x" "drop (length arr - length xs) arr = xs"
    "int (length arr) - int (length (x # xs)) < int (length arr)"
    "int (length arr) - int (length (x # xs)) + 1 = int (length arr) - int (length xs)"
proof -
  let ?k = "length arr - length (x # xs)"
  have "length (drop ?k arr) = length (x # xs)" by (simp only: assms)
  then have k: "?k < length arr" "Suc ?k = length arr - length xs" by auto
  have "arr ! ?k # drop (Suc ?k) arr = x # xs" by (simp only: Cons_nth_drop_Suc [OF k(1)] assms)
  then have x: "arr ! ?k = x" and d: "drop (Suc ?k) arr = xs" by blast+
  have "int (length arr) - int (length (x # xs)) = int ?k" using k by simp
  moreover have "elem arr (int ?k) = Some x" unfolding elem_def nat_int x using k(1) by simp
  ultimately show "elem arr (int (length arr) - int (length (x # xs))) = Some x" by (simp only:)
  show "drop (length arr - length xs) arr = xs" using d k(2) by simp
qed simp_all

lemma hash_loop_eq:
  "drop (length arr - length bs) arr = bs \<Longrightarrow>
    hash_loop arr (int (length arr)) (int (length arr) - int (length bs)) h =
      Some (foldl (\<lambda>h b. (h XOR ucast b) * 0x01000193) h bs)"
proof (induction bs arbitrary: h)
  case Nil
  then show ?case by (subst hash_loop.simps) simp
next
  case (Cons b bs)
  note e = elem_suffix [OF Cons.prems]
  show ?case
    using Cons.IH [OF e(2)] by (subst hash_loop.simps) (simp only: e if_True bind.bind_lunit foldl_Cons)
qed

lemma sum_loop_eq:
  "drop (length arr - length xs) arr = xs \<Longrightarrow>
    sum_loop arr (int (length arr)) (int (length arr) - int (length xs)) s = Some (s + sum_list xs)"
proof (induction xs arbitrary: s)
  case Nil
  then show ?case by (subst sum_loop.simps) simp
next
  case (Cons x xs)
  note e = elem_suffix [OF Cons.prems]
  show ?case
    using Cons.IH [OF e(2)] by (subst sum_loop.simps) (simp only: e if_True bind.bind_lunit sum_list.Cons add.assoc)
qed

lemma length_int_bytes: "length (int_bytes arr) = 4 * length arr"
  by (induction arr) (simp_all add: int_bytes_def)

lemma calculate_hash_eq: "calculate_hash arr (int (length arr)) = Some (fnv (int_bytes arr))"
  using hash_loop_eq [of "int_bytes arr" "int_bytes arr"]
  by (simp add: calculate_hash_def fnv_def length_int_bytes mult.commute)

lemma calculate_mean_eq:
  "arr \<noteq> [] \<Longrightarrow> calculate_mean arr (int (length arr)) = Some (c_sdiv (sum_list arr) (of_nat (length arr)))"
  using sum_loop_eq [of arr arr] by (simp add: calculate_mean_def)

section \<open>The output of the stress test\<close>

definition item_text :: "int \<Rightarrow> u32 \<Rightarrow> u8 list" where
  "item_text i x = int_text (sint x) @ (if i = 15 then [] else [0x2C, 0x20])"

lemma printf_item:
  "printf tg (c_str ''%d%s'') [Arg_int x, Arg_str (Some (c_str (if i = 15 then '''' else '', '')))] =
    Some (of_nat (length (item_text i x)), item_text i x)"
proof (rule printf_text)
  let ?sep = "if i = 15 then [] else [0x2C, 0x20 :: u8]"
  have sep: "c_str (if i = 15 then '''' else '', '') = ?sep @ 0 # []" by (simp add: c_str_def)
  have "c_str ''%d%s'' = [0x25, 0x64, 0x25, 0x73, 0]" by (simp add: c_str_def)
  moreover have "spec_text tg (0x25 # 0x73 # [0]) [Arg_str (Some (?sep @ 0 # []))] = Next (?sep, [0], [])"
    by (rule spec_text_string) simp
  ultimately show "format_text tg (c_str ''%d%s'') [Arg_int x, Arg_str (Some (c_str (if i = 15 then '''' else '', '')))] =
      Some (item_text i x)"
    by (simp only: sep format_text_spec [OF spec_text_signed(1)] format_text_spec) (simp add: item_text_def)
  show "length (item_text i x) \<le> unat PRINTF_MAX_POSSIBLE_BUFFER_SIZE"
    using length_int_text_32 [of x] by (simp add: item_text_def c_consts)
qed

lemma print_loop_eq:
  "length data = 16 \<Longrightarrow> k \<le> 16 \<Longrightarrow>
    print_loop tg data (int k) out = Some (out @ concat (map (\<lambda>k. item_text (int k) (data ! k)) [k..<16]))"
proof (induction "16 - k" arbitrary: k out)
  case 0
  then show ?case by (subst print_loop.simps) simp
next
  case (Suc n)
  then have k: "k < 16" by simp
  then have "[k..<16] = k # [Suc k..<16]" by (simp add: upt_conv_Cons)
  moreover have "elem data (int k) = Some (data ! k)" using k Suc.prems(1) by (simp add: elem_def)
  moreover have "int k + 1 = int (Suc k)" "(int k < 16) = True" using k by simp_all
  moreover have "print_loop tg data (int (Suc k)) (out @ item_text (int k) (data ! k)) =
      Some ((out @ item_text (int k) (data ! k)) @ concat (map (\<lambda>k. item_text (int k) (data ! k)) [Suc k..<16]))"
    using Suc.hyps(2) k by (intro Suc.hyps(1) Suc.prems) simp_all
  ultimately show ?case
    by (subst print_loop.simps)
      (simp only: if_True bind.bind_lunit printf_item case_prod_conv list.map concat.simps append_assoc)
qed

lemma copy_loop_source: "copy_loop source_data 0 (replicate 16 0) = Some source_data"
  by (simp add: copy_loop.simps elem_def set_elem_def source_data_def numeral_eq_Suc)

definition sorted_source :: "u32 list" where
  "sorted_source = [- 99, - 12, - 1, 0, 3, 8, 11, 17, 42, 45, 55, 77, 256, 333, 888, 1024]"

lemma quicksort_source: "quicksort source_data 0 15 = Some sorted_source"
proof -
  have l: "length source_data = 16" by (simp add: source_data_def)
  from quicksort_correct [of 0 15 source_data] l obtain ys where
    ys: "quicksort source_data 0 15 = Some ys" "permuted 0 15 source_data ys" "sorted_between 0 15 ys"
    by auto
  have "map C_int ys = sort (map C_int source_data)"
    using ys(2,3) by (intro sorted_array) (simp_all add: l)
  also have "\<dots> = map C_int sorted_source"
    by (simp add: source_data_def sorted_source_def less_eq_c_int_def word_sle_eq)
  finally have "map c_int_word (map C_int ys) = map c_int_word (map C_int sorted_source)" by simp
  then have "ys = sorted_source" by (simp add: o_def)
  with ys(1) show ?thesis by simp
qed

lemma hash_source: "calculate_hash sorted_source 16 = Some 2448209440"
proof -
  have "calculate_hash sorted_source 16 = Some (fnv (int_bytes sorted_source))"
    using calculate_hash_eq [of sorted_source] by (simp add: sorted_source_def)
  also have "fnv (int_bytes sorted_source) = 2448209440"
    by code_simp
  finally show ?thesis .
qed

lemma mean_source: "calculate_mean sorted_source 16 = Some 165"
  using calculate_mean_eq [of sorted_source] by (simp add: sorted_source_def c_sdiv_def)

lemma items:
  "concat (map (\<lambda>k. item_text (int k) (source_data ! k)) [0..<16]) =
    map of_char ''45, -12, 1024, 0, 77, -99, 256, 11, 8, 333, -1, 42, 888, 17, 55, 3''"
  "concat (map (\<lambda>k. item_text (int k) (sorted_source ! k)) [0..<16]) =
    map of_char ''-99, -12, -1, 0, 3, 8, 11, 17, 42, 45, 55, 77, 256, 333, 888, 1024''"
  by (simp_all add: upt_rec item_text_def int_text_def radix_digits.simps digit_ascii_def source_data_def
      sorted_source_def)

lemma printf_plain:
  assumes "0 \<notin> set xs" "0x25 \<notin> set xs" "length xs \<le> 100"
  shows "printf tg (xs @ [0]) [] = Some (of_nat (length xs), xs)"
  using format_text_plain [OF assms(1,2), of tg "[0]" "[]"] assms(3)
  by (intro printf_text) (simp_all add: c_consts)

lemma printf_header:
  "printf tg (c_str (''Source Data:'' @ [CHR 0x0A])) [] = Some (13, map of_char ''Source Data:'' @ [0x0A])"
  "printf tg (c_str ([CHR 0x0A, CHR 0x0A] @ ''Sorted Data:'' @ [CHR 0x0A])) [] =
    Some (15, [0x0A, 0x0A] @ map of_char ''Sorted Data:'' @ [0x0A])"
  using printf_plain [of "map of_char ''Source Data:'' @ [0x0A]" tg]
    printf_plain [of "[0x0A, 0x0A] @ map of_char ''Sorted Data:'' @ [0x0A]" tg]
  by (simp_all add: c_str_def)

lemma int_text_results: "int_text 2448209440 = map of_char ''2448209440''" "int_text 165 = map of_char ''165''"
  by (simp_all add: int_text_def radix_digits.simps digit_ascii_def)

lemma printf_results:
  "printf tg (c_str ([CHR 0x0A, CHR 0x0A] @ ''Final Hash: %u'' @ [CHR 0x0A])) [Arg_int 2448209440] =
    Some (25, [0x0A, 0x0A] @ map of_char ''Final Hash: 2448209440'' @ [0x0A])"
  "printf tg (c_str (''Stats Mean: %d'' @ [CHR 0x0A])) [Arg_int 165] =
    Some (16, map of_char ''Stats Mean: 165'' @ [0x0A])"
proof -
  have "format_text tg (c_str ([CHR 0x0A, CHR 0x0A] @ ''Final Hash: %u'' @ [CHR 0x0A])) [Arg_int 2448209440] =
      Some ([0x0A, 0x0A] @ map of_char ''Final Hash: 2448209440'' @ [0x0A])"
    by (simp add: c_str_def spec_text_unsigned int_text_results)
  from printf_text [OF this]
  show "printf tg (c_str ([CHR 0x0A, CHR 0x0A] @ ''Final Hash: %u'' @ [CHR 0x0A])) [Arg_int 2448209440] =
    Some (25, [0x0A, 0x0A] @ map of_char ''Final Hash: 2448209440'' @ [0x0A])"
    by (simp add: c_consts)
  have "format_text tg (c_str (''Stats Mean: %d'' @ [CHR 0x0A])) [Arg_int 165] =
      Some (map of_char ''Stats Mean: 165'' @ [0x0A])"
    by (simp add: c_str_def spec_text_signed int_text_results)
  from printf_text [OF this]
  show "printf tg (c_str (''Stats Mean: %d'' @ [CHR 0x0A])) [Arg_int 165] =
    Some (16, map of_char ''Stats Mean: 165'' @ [0x0A])"
    by (simp add: c_consts)
qed

section \<open>Properties\<close>

text \<open>C38. \<open>quicksort\<close> of the cells from \<open>low\<close> to \<open>high\<close> of an array stays within the array,
  permutes these cells, leaves all others, and sorts them as signed numbers; on the whole array it is the
  sorting function of the library.\<close>

theorem quicksort_sorts:
  assumes "0 \<le> low" "high < int (length arr)"
  shows "\<exists>ys. quicksort arr low high = Some ys \<and> length ys = length arr \<and> mset ys = mset arr \<and>
    (\<forall>k < length arr. int k < low \<or> high < int k \<longrightarrow> ys ! k = arr ! k) \<and>
    (\<forall>b < length arr. \<forall>a \<le> b. low \<le> int a \<and> int b \<le> high \<longrightarrow> sint (ys ! a) \<le> sint (ys ! b)) \<and>
    (low = 0 \<longrightarrow> high = int (length arr) - 1 \<longrightarrow> map C_int ys = sort (map C_int arr))"
proof -
  from quicksort_correct [OF assms] obtain ys where
    ys: "quicksort arr low high = Some ys" "permuted low high arr ys" "sorted_between low high ys" by blast
  then show ?thesis
    using sorted_array [of arr ys] by (intro exI [of _ ys]) (auto simp: permuted_def sorted_between_def)
qed

theorem quicksort_sorts_witness:
  "\<exists>ys. quicksort [5, - 1, 3] 0 2 = Some ys \<and> mset ys = {#5, - 1, 3#} \<and> sint (ys ! 0) \<le> sint (ys ! 2)"
proof -
  obtain ys where "quicksort [5, - 1, 3] 0 2 = Some ys" "mset ys = mset [5, - 1, 3]"
    "\<forall>b < 3. \<forall>a \<le> b. 0 \<le> int a \<and> int b \<le> 2 \<longrightarrow> sint (ys ! a) \<le> sint (ys ! b)"
    using quicksort_sorts [of 0 2 "[5, - 1, 3]"] by auto
  then show ?thesis by auto
qed

text \<open>C39. The stress test prints its numbers, the same numbers sorted, the hash of the sorted array and
  the mean.\<close>

theorem im_stress_output:
  "im_stress_main tg = Some (0,
    map of_char ''Source Data:'' @ [0x0A] @
    map of_char ''45, -12, 1024, 0, 77, -99, 256, 11, 8, 333, -1, 42, 888, 17, 55, 3'' @ [0x0A, 0x0A] @
    map of_char ''Sorted Data:'' @ [0x0A] @
    map of_char ''-99, -12, -1, 0, 3, 8, 11, 17, 42, 45, 55, 77, 256, 333, 888, 1024'' @ [0x0A, 0x0A] @
    map of_char ''Final Hash: 2448209440'' @ [0x0A] @ map of_char ''Stats Mean: 165'' @ [0x0A])"
proof -
  have l: "length source_data = 16" "length sorted_source = 16"
    by (simp_all add: source_data_def sorted_source_def)
  show ?thesis
    by (simp only: im_stress_main_def bind.bind_lunit case_prod_conv copy_loop_source quicksort_source hash_source
        mean_source printf_header printf_results print_loop_eq [OF l(1), of 0, simplified] print_loop_eq [OF l(2), of 0, simplified]
        items append_assoc)
qed

end
