(* ===== verification/Csr_Refine.thy ===== *)
theory Csr_Refine
  imports Isa_Refine
begin

text \<open>
  The CSR instructions of \<^verbatim>\<open>src/cpu/core.c\<close> with the counters of
  \<^verbatim>\<open>inc/csr.h\<close>.
\<close>

section \<open>The effect of a CSR instruction\<close>

lemma read_csr_cong: "mcycle s = mcycle t \<Longrightarrow> minstret s = minstret t \<Longrightarrow> read_csr c s = read_csr c t"
  by (simp add: read_csr_def)

lemma csr_op_cases: "(f3 :: 3 word) \<in> {1, 2, 3, 5, 6, 7} \<Longrightarrow>
  ucast f3 \<in> {CSR_RW, CSR_RS, CSR_RC, CSR_RWI, CSR_RSI, CSR_RCI} \<and>
  CSR_IMM (ucast f3) = (f3 \<in> {5, 6, 7}) \<and> ucast f3 \<noteq> ESYS"
  by (elim insertE) (simp_all add: c_consts CSR_IMM_def)

definition csr_instr :: "12 word \<Rightarrow> regno \<Rightarrow> regno \<Rightarrow> 'x::len instr_t" where
  "csr_instr csr rs1 rd = instr_init\<lparr>i_rs1 := ucast rs1, i_rd := ucast rd, i_imm := ucast csr\<rparr>"

lemma exec_csr_eq:
  assumes "12 \<le> LENGTH('x::len)" "op \<in> {CSR_RW, CSR_RS, CSR_RC, CSR_RWI, CSR_RSI, CSR_RCI}"
  shows "set_reg 0 0 (exec_csr op im (csr_instr csr rs1 rd) (t :: 'x emu)) =
    set_reg 0 0 (set_reg (ucast rd) (read_csr (ucast csr) t) t)"
proof -
  have "(ucast (ucast csr :: 'x word) :: u32) = ucast csr" using assms(1) by (simp add: ucast_ucast_up)
  moreover have "ucast rd = (0 :: u8) \<longleftrightarrow> rd = 0" by (simp add: unat_eq_zero [symmetric] unat_ucast_up)
  moreover have "set_reg 0 v (set_reg 0 w u) = set_reg 0 v u" for v w and u :: "'x emu"
    by (simp add: set_reg_def)
  ultimately show ?thesis
    using assms(2)
    by (cases "rd = 0") (auto simp: exec_csr_def csr_instr_def instr_init_def Let_def write_csr_def c_consts)
qed

lemma csr_step:
  fixes s :: "'x::len emu"
  assumes ok: "xlen_ok TYPE('x)" and wf: "wf_emu s" and f3: "f3 \<in> {1, 2, 3, 5, 6, 7}"
  obtains t where "t = s \<or> t = PERF_MODEL_HAZARD (csr_instr csr rs1 rd) s"
    "process_instr m (enc_I csr rs1 f3 rd 0x73) s =
    Some (True, set_reg 0 0 (set_pc (pc (cpu s) + 4)
      (PERF_MODEL_CYCLE (csr_instr csr rs1 rd) (set_reg (ucast rd) (read_csr (ucast csr) t) t))))"
proof -
  let ?i = "csr_instr csr rs1 rd :: 'x instr_t"
  define t where "t = (if f3 \<in> {5, 6, 7} then s else PERF_MODEL_HAZARD ?i s)"
  note f = csr_op_cases [OF f3]
  have "exec_opcode m (enc_I csr rs1 f3 rd 0x73) np s =
      Some (True, np, ?i, exec_csr (ucast f3) (f3 \<in> {5, 6, 7}) ?i t)" for np
    using f by (simp add: exec_opcode_def Let_def opcode_defs exec_sys_def decode_simps t_def csr_instr_def)
  moreover have "set_reg 0 0 (set_pc a (PERF_MODEL_CYCLE ?i u)) = set_pc a (PERF_MODEL_CYCLE ?i (set_reg 0 0 u))"
    for a and u :: "'x emu"
    by (simp add: set_reg_def set_pc_def PERF_MODEL_CYCLE_def Let_def tick_def)
  moreover have "set_reg 0 0 (exec_csr (ucast f3) (f3 \<in> {5, 6, 7}) ?i t) =
      set_reg 0 0 (set_reg (ucast rd) (read_csr (ucast csr) t) t)"
    by (rule exec_csr_eq [OF _ conjunct1 [OF f]]) (use xlen_ge_32 [OF ok] in simp)
  ultimately have "process_instr m (enc_I csr rs1 f3 rd 0x73) s =
    Some (True, set_reg 0 0 (set_pc (pc (cpu s) + 4)
      (PERF_MODEL_CYCLE ?i (set_reg (ucast rd) (read_csr (ucast csr) t) t))))"
    by (simp add: process_instr_def Let_def)
  then show thesis by (rule that [rotated]) (simp add: t_def)
qed

lemma csr_effect:
  fixes s :: "'x::len emu"
  assumes ok: "xlen_ok TYPE('x)" and wf: "wf_emu s" and f3: "f3 \<in> {1, 2, 3, 5, 6, 7}" and rd: "rd \<noteq> 0"
  shows "\<exists>s' d. process_instr m (enc_I csr rs1 f3 rd 0x73) s = Some (True, s') \<and> d \<le> 1 \<and>
    get_reg s' (ucast rd) = read_csr (ucast csr) (s\<lparr>mcycle := mcycle s + d\<rparr>) \<and>
    (\<forall>r. r = rd \<or> get_reg s' (ucast (r :: regno)) = get_reg s (ucast r)) \<and>
    pc (cpu s') = pc (cpu s) + 4 \<and> mem_byte s' = mem_byte s \<and> wf_emu s' \<and>
    mcycle s' = mcycle s + d + 1 \<and> minstret s' = minstret s + 1 \<and>
    (rs1 = 0 \<longrightarrow> d = 0)"
proof -
  let ?i = "csr_instr csr rs1 rd :: 'x instr_t"
  obtain t where t: "t = s \<or> t = PERF_MODEL_HAZARD ?i s"
    and p: "process_instr m (enc_I csr rs1 f3 rd 0x73) s = Some (True, set_reg 0 0 (set_pc (pc (cpu s) + 4)
      (PERF_MODEL_CYCLE ?i (set_reg (ucast rd) (read_csr (ucast csr) t) t))))"
    (is "_ = Some (True, ?s')") by (rule csr_step [OF ok wf f3])
  define d :: u64 where "d = mcycle t - mcycle s"
  have d: "d \<le> 1" "mcycle t = mcycle s + d" "minstret t = minstret s" "cpu t = cpu s"
    using t by (auto simp: d_def state_simps)
  have "d = 0" if "rs1 = 0"
    using t that by (auto simp: d_def state_simps hazard_stall_def csr_instr_def instr_init_def)
  moreover have "read_csr (ucast csr) t = read_csr (ucast csr) (s\<lparr>mcycle := mcycle s + d\<rparr>)"
    using d by (intro read_csr_cong) simp_all
  moreover have "mem_byte t = mem_byte s" using t by (auto simp: mem_byte_simps)
  moreover have "wf_emu ?s'" using process_instr_wf [OF ok wf p] .
  moreover have "length (regfile (cpu s)) = 32" "regfile (cpu s) ! 0 = 0" using wf by (simp_all add: wf_emu_def c_consts)
  moreover have reg: "unat rd = unat r \<longleftrightarrow> rd = r" for r :: regno by (auto intro: unsigned_word_eqI)
  ultimately show ?thesis
    using p d rd
    by (intro exI [of _ ?s'] exI [of _ d])
       (auto simp: state_simps mem_byte_simps get_reg_def ucast_regno nth_list_update unat_eq_zero reg)
qed

section \<open>Properties\<close>



end
