(* ===== verification/Librv.thy ===== *)
theory Librv
  imports Csr_Refine Printf_Formats
begin

text \<open>
  The inline assembly of the guest library executed by the emulator: \<open>putchar_\<close> of
  \<^verbatim>\<open>sdk/librv/printf_librv.c\<close>, under \<open>printf\<close>, and the counter functions of
  \<^verbatim>\<open>sdk/librv/librv.h\<close>.  The registers the compiler chooses for the operands are
  parameters.
\<close>

section \<open>Sequences of instructions\<close>

text \<open>The words of an inline assembly text executed one after the other; a stop is \<open>None\<close>.\<close>

fun run_asm :: "bool \<Rightarrow> u32 list \<Rightarrow> 'x::len emu \<Rightarrow> 'x emu option" where
  "run_asm m_ext [] s = Some s"
| "run_asm m_ext (w # ws) s = do {
     (c, s) \<leftarrow> process_instr m_ext w s;
     if c then run_asm m_ext ws s else None }"

text \<open>
  \<open>putchar_\<close> of \<^verbatim>\<open>sdk/librv/printf_librv.c\<close>: \<open>li a0, 11\<close>, \<open>mv a1, r\<close> and
  \<open>ecall\<close>, where \<open>r\<close> is the register the compiler chose for the operand.
\<close>

definition putchar_asm :: "regno \<Rightarrow> insn list" where
  "putchar_asm r = [Iop ADD 10 0 11, Iop ADD 11 r 0, Ecall]"

definition guest_putchar :: "bool \<Rightarrow> regno \<Rightarrow> 'x::len emu \<Rightarrow> 'x emu option" where
  "guest_putchar m_ext r s = run_asm m_ext (map encode (putchar_asm r)) s"

text \<open>The calls of \<open>putchar_\<close> for the characters of a text, each of which is in \<open>r\<close> at its call.\<close>

fun guest_puts :: "bool \<Rightarrow> regno \<Rightarrow> u8 list \<Rightarrow> 'x::len emu \<Rightarrow> 'x emu option" where
  "guest_puts m_ext r [] s = Some s"
| "guest_puts m_ext r (c # cs) s = do {
     s \<leftarrow> guest_putchar m_ext r (set_reg (ucast r) (ucast c) s);
     guest_puts m_ext r cs s }"

definition guest_printf ::
  "bool \<Rightarrow> regno \<Rightarrow> u8 list \<Rightarrow> va_arg list \<Rightarrow> 'x::len emu \<Rightarrow> (u32 \<times> 'x emu) option" where
  "guest_printf m_ext r format args s = do {
     (ret, cs) \<leftarrow> printf (printf_config (RV64 TYPE('x))) format args;
     s \<leftarrow> guest_puts m_ext r cs s;
     Some (ret, s) }"

text \<open>
  The counter loops of \<^verbatim>\<open>sdk/librv/librv.h\<close>: \<open>csrr rd, csr\<close> is \<open>csrrs rd, csr, zero\<close>,
  and the branch goes back to the first instruction.
\<close>

definition counter_asm :: "12 word \<Rightarrow> 12 word \<Rightarrow> regno \<Rightarrow> regno \<Rightarrow> regno \<Rightarrow> u32 list" where
  "counter_asm csrh csrl hi lo hi2 =
     [enc_I csrh 0 2 hi 0x73, enc_I csrl 0 2 lo 0x73, enc_I csrh 0 2 hi2 0x73,
      encode (Branch BNE hi hi2 (- 6))]"

partial_function (option) query_counter ::
  "bool \<Rightarrow> 12 word \<Rightarrow> 12 word \<Rightarrow> regno \<Rightarrow> regno \<Rightarrow> regno \<Rightarrow> 'x::len emu \<Rightarrow> (u64 \<times> 'x emu) option" where
  "query_counter m_ext csrh csrl hi lo hi2 s = do {
     t \<leftarrow> run_asm m_ext (counter_asm csrh csrl hi lo hi2) s;
     if pc (cpu t) = pc (cpu s) then query_counter m_ext csrh csrl hi lo hi2 t
     else Some (push_bit 32 (ucast (ucast (get_reg t (ucast hi)) :: u32)) OR
        ucast (ucast (get_reg t (ucast lo)) :: u32), t) }"

definition query_performance_counter ::
  "bool \<Rightarrow> regno \<Rightarrow> regno \<Rightarrow> regno \<Rightarrow> 'x::len emu \<Rightarrow> (u64 \<times> 'x emu) option" where
  "query_performance_counter m_ext hi lo hi2 s = query_counter m_ext 0xB80 0xB00 hi lo hi2 s"

definition query_instruction_counter ::
  "bool \<Rightarrow> regno \<Rightarrow> regno \<Rightarrow> regno \<Rightarrow> 'x::len emu \<Rightarrow> (u64 \<times> 'x emu) option" where
  "query_instruction_counter m_ext hi lo hi2 s = query_counter m_ext 0xB82 0xB02 hi lo hi2 s"

section \<open>Output\<close>

lemma run_asm_insn:
  fixes s :: "'x::len emu"
  assumes ok: "xlen_ok TYPE('x)" and wf: "wf_emu s" and v: "valid_insn TYPE('x) m i"
    and c: "isa_exec i (abs_emu s) = (True, a)"
  obtains t where "abs_emu t = a" "wf_emu t" "run_asm m (encode i # ws) s = run_asm m ws t"
proof -
  from process_instr_refines [OF ok wf v] c obtain t where
    t: "process_instr m (encode i) s = Some (True, t)" "abs_emu t = a"
    by (auto simp: refines_def)
  with that process_instr_wf [OF ok wf t(1)] show thesis by (simp del: encode.simps)
qed

lemma guest_putchar_abs:
  fixes s :: "'x::len emu"
  assumes ok: "xlen_ok TYPE('x)" and wf: "wf_emu s" and r: "r \<noteq> 10" "r \<noteq> 11"
  obtains t where "guest_putchar m r s = Some t" "wf_emu t"
    "isa_out (abs_emu t) = isa_out (abs_emu s) @ [ucast (isa_regs (abs_emu s) r)]"
    "\<And>q. q \<noteq> 10 \<Longrightarrow> q \<noteq> 11 \<Longrightarrow> isa_regs (abs_emu t) q = isa_regs (abs_emu s) q"
    "isa_mem (abs_emu t) = isa_mem (abs_emu s)" "isa_pc (abs_emu t) = isa_pc (abs_emu s) + 12"
proof -
  let ?a = "abs_emu s"
  have zero: "isa_regs ?a 0 = 0" using wf by (simp add: abs_emu_def wf_emu_def)
  have v: "valid_insn TYPE('x) m (Iop ADD a b i)" "valid_insn TYPE('x) m Ecall" for a b i
    by (simp_all add: valid_insn_def)
  have 11: "signed_take_bit (LENGTH('x) - Suc 0) 11 = (11 :: int)"
    by (rule xlen_cases [OF ok]) simp_all
  obtain t1 where t1: "abs_emu t1 = isa_next (isa_put 10 11 ?a)" "wf_emu t1"
    "run_asm m (map encode (putchar_asm r)) s = run_asm m (map encode [Iop ADD 11 r 0, Ecall]) t1"
    by (rule run_asm_insn [OF ok wf v(1) [of 10 0 11], of "isa_next (isa_put 10 11 ?a)" "map encode [Iop ADD 11 r 0, Ecall]"])
       (simp_all add: zero 11 putchar_asm_def del: encode.simps)
  define x where "x = sint (isa_regs ?a r)"
  have x: "word_of_int x = isa_regs ?a r" by (simp add: x_def)
  obtain t2 where t2: "abs_emu t2 = isa_next (isa_put 11 x (abs_emu t1))" "wf_emu t2"
    "run_asm m (map encode [Iop ADD 11 r 0, Ecall]) t1 = run_asm m (map encode [Ecall]) t2"
    by (rule run_asm_insn [OF ok t1(2) v(1) [of 11 r 0], of "isa_next (isa_put 11 x (abs_emu t1))" "map encode [Ecall]"])
       (use r in \<open>simp_all add: t1(1) isa_next_def isa_put_def x_def del: encode.simps\<close>)
  define a3 where "a3 = isa_next (abs_emu t2\<lparr>isa_out := isa_out (abs_emu t2) @ [ucast (isa_regs (abs_emu t2) 11)]\<rparr>)"
  obtain t3 where t3: "abs_emu t3 = a3" "wf_emu t3"
    "run_asm m (map encode [Ecall]) t2 = run_asm m [] t3"
    by (rule run_asm_insn [OF ok t2(2) v(2), of a3 "[]"])
       (simp_all add: t2(1) t1(1) isa_next_def isa_put_def a3_def del: encode.simps)
  show thesis
  proof (rule that)
    show "guest_putchar m r s = Some t3" using t1(3) t2(3) t3(3) by (simp add: guest_putchar_def)
  qed (use t3(2) in \<open>simp_all add: t3(1) a3_def t2(1) t1(1) isa_next_def isa_put_def x\<close>)
qed


lemma abs_set_reg:
  "wf_emu s \<Longrightarrow> r \<noteq> 0 \<Longrightarrow> abs_emu (set_reg (ucast (r :: regno)) v s) = (abs_emu s)\<lparr>isa_regs := (isa_regs (abs_emu s))(r := v)\<rparr>"
  "wf_emu s \<Longrightarrow> r \<noteq> 0 \<Longrightarrow> wf_emu (set_reg (ucast (r :: regno)) v s)"
proof -
  assume wf: "wf_emu s" and r: "r \<noteq> 0"
  have "unat r = unat q \<longleftrightarrow> q = r" for q by (metis unsigned_word_eqI)
  then have "regfile (cpu (set_reg (ucast r) v s)) ! unat q = (if q = r then v else regfile (cpu s) ! unat q)" for q
    using wf unat_regno [of r] by (simp add: state_simps ucast_regno nth_list_update wf_emu_def c_consts)
  then show "abs_emu (set_reg (ucast r) v s) = (abs_emu s)\<lparr>isa_regs := (isa_regs (abs_emu s))(r := v)\<rparr>"
    by (simp add: abs_emu_def fun_upd_def mem_byte_simps state_simps)
  show "wf_emu (set_reg (ucast r) v s)"
    using wf r by (auto simp: wf_emu_def state_simps ucast_regno unat_eq_zero nth_list_update)
qed

lemma abs_fields: "isa_out (abs_emu s) = outputs (console s)" "isa_mem (abs_emu s) = mem_byte s"
  by (simp_all add: abs_emu_def)

lemma guest_puts_abs:
  fixes s :: "'x::len emu"
  assumes ok: "xlen_ok TYPE('x)" and r: "r \<noteq> 0" "r \<noteq> 10" "r \<noteq> 11"
  shows "wf_emu s \<Longrightarrow> \<exists>t. guest_puts m r cs s = Some t \<and> wf_emu t \<and>
    outputs (console t) = outputs (console s) @ map ucast cs \<and> mem_byte t = mem_byte s"
proof (induction cs arbitrary: s)
  case (Cons c cs)
  let ?s = "set_reg (ucast r) (ucast c) s"
  note a = abs_set_reg [OF Cons.prems r(1), of "ucast c"]
  obtain t where t: "guest_putchar m r ?s = Some t" "wf_emu t"
    "isa_out (abs_emu t) = isa_out (abs_emu ?s) @ [ucast (isa_regs (abs_emu ?s) r)]"
    "isa_mem (abs_emu t) = isa_mem (abs_emu ?s)"
    by (rule guest_putchar_abs [OF ok a(2) r(2,3)])
  have "outputs (console t) = outputs (console s) @ [ucast c]" "mem_byte t = mem_byte s"
    using t(3,4) xlen_ge_32 [OF ok] by (simp_all add: a(1) abs_fields ucast_ucast_up)
  with Cons.IH [OF t(2)] t(1) show ?case by auto
qed simp

section \<open>Counters\<close>

lemma csr_read:
  fixes s :: "'x::len emu"
  assumes ok: "xlen_ok TYPE('x)" and wf: "wf_emu s" and rd: "rd \<noteq> 0"
  obtains t where "process_instr m (enc_I csr 0 2 rd 0x73) s = Some (True, t)" "wf_emu t"
    "get_reg t (ucast rd) = read_csr (ucast csr) s" "pc (cpu t) = pc (cpu s) + 4"
    "\<forall>r. r = rd \<or> get_reg t (ucast (r :: regno)) = get_reg s (ucast r)"
    "mcycle t = mcycle s + 1" "minstret t = minstret s + 1"
proof -
  obtain t d where t: "process_instr m (enc_I csr 0 2 rd 0x73) s = Some (True, t)"
    "get_reg t (ucast rd) = read_csr (ucast csr) (s\<lparr>mcycle := mcycle s + d\<rparr>)"
    "\<forall>r. r = rd \<or> get_reg t (ucast (r :: regno)) = get_reg s (ucast r)"
    "pc (cpu t) = pc (cpu s) + 4" "wf_emu t" "mcycle t = mcycle s + d + 1" "minstret t = minstret s + 1" "d = 0"
    using csr_effect [OF ok wf _ rd, of 2 m csr 0] by auto
  moreover from this have "read_csr (ucast csr) (s\<lparr>mcycle := mcycle s + d\<rparr>) = read_csr (ucast csr) s"
    by (intro read_csr_cong) simp_all
  ultimately show thesis by (intro that) auto
qed

lemma bne_step:
  fixes s :: "'x::len emu"
  assumes ok: "xlen_ok TYPE('x)" and wf: "wf_emu s"
  obtains t d where "process_instr m (encode (Branch BNE a b imm)) s = Some (True, t)" "wf_emu t"
    "\<forall>r. get_reg t (ucast (r :: regno)) = get_reg s (ucast r)"
    "pc (cpu t) = pc (cpu s) + (if get_reg s (ucast a) = get_reg s (ucast b) then 4 else 2 * scast imm)"
    "1 \<le> d" "d \<le> 5" "mcycle t = mcycle s + of_nat d" "minstret t = minstret s + 1"
proof -
  have "valid_insn TYPE('x) m (Branch BNE a b imm)" by (simp add: valid_insn_def)
  from process_instr_refines [OF ok wf this] obtain t where
    t: "process_instr m (encode (Branch BNE a b imm)) s = Some (True, t)"
    and a: "abs_emu t = (if sint (isa_regs (abs_emu s) a) \<noteq> sint (isa_regs (abs_emu s) b)
      then isa_goto (uint (isa_pc (abs_emu s)) + 2 * sint imm) (abs_emu s) else isa_next (abs_emu s))"
    by (auto simp: refines_def split: if_splits)
  have regs: "isa_regs (abs_emu t) r = isa_regs (abs_emu s) r" for r
    using a by (simp add: isa_goto_def isa_next_def)
  have sc: "(word_of_int (sint imm) :: 'x word) = scast imm" by (simp only: scast_eq)
  have "sint (isa_regs (abs_emu s) a) = sint (isa_regs (abs_emu s) b) \<longleftrightarrow> get_reg s (ucast a) = get_reg s (ucast b)"
    by (auto simp: abs_get_reg dest: signed_word_eqI)
  with a have "isa_pc (abs_emu t) = isa_pc (abs_emu s) +
      (if get_reg s (ucast a) = get_reg s (ucast b) then 4 else 2 * scast imm)"
    by (simp add: isa_goto_def isa_next_def sc)
  then have pc: "pc (cpu t) = pc (cpu s) + (if get_reg s (ucast a) = get_reg s (ucast b) then 4 else 2 * scast imm)"
    by (simp only: isa_pc_abs)
  show thesis
    using that [OF t process_instr_wf [OF ok wf t]] process_instr_frame(2,4) [OF ok t] regs pc
    by (auto simp: abs_get_reg)
qed


text \<open>One pass over the three reads and the branch.\<close>

lemma counter_pass:
  fixes s :: "'x::len emu"
  assumes ok: "xlen_ok TYPE('x)" and wf: "wf_emu s" and regs: "hi \<noteq> 0" "lo \<noteq> 0" "hi2 \<noteq> 0" "distinct [hi, lo, hi2]"
  obtains t t1 t2 t3 :: "'x emu" and d :: nat where "run_asm m (counter_asm csrh csrl hi lo hi2) s = Some t" "wf_emu t"
    "get_reg t (ucast hi) = read_csr (ucast csrh) s" "get_reg t (ucast lo) = read_csr (ucast csrl) t1"
    "pc (cpu t) = pc (cpu s) \<longleftrightarrow> read_csr (ucast csrh) s \<noteq> (read_csr (ucast csrh) t2 :: 'x word)"
    "mcycle t1 = mcycle s + 1" "mcycle t2 = mcycle t1 + 1" "mcycle t3 = mcycle t2 + 1"
    "minstret t1 = minstret s + 1" "minstret t2 = minstret t1 + 1" "minstret t3 = minstret t2 + 1"
    "1 \<le> d" "d \<le> 5" "mcycle t = mcycle t3 + of_nat d" "minstret t = minstret t3 + 1"
proof -
  obtain t1 where t1: "process_instr m (enc_I csrh 0 2 hi 0x73) s = Some (True, t1)" "wf_emu t1"
    "get_reg t1 (ucast hi) = read_csr (ucast csrh) s" "pc (cpu t1) = pc (cpu s) + 4"
    "mcycle t1 = mcycle s + 1" "minstret t1 = minstret s + 1"
    by (rule csr_read [OF ok wf regs(1), where m = m and csr = csrh])
  obtain t2 where t2: "process_instr m (enc_I csrl 0 2 lo 0x73) t1 = Some (True, t2)" "wf_emu t2"
    "get_reg t2 (ucast lo) = read_csr (ucast csrl) t1" "pc (cpu t2) = pc (cpu t1) + 4"
    "\<forall>r. r = lo \<or> get_reg t2 (ucast (r :: regno)) = get_reg t1 (ucast r)"
    "mcycle t2 = mcycle t1 + 1" "minstret t2 = minstret t1 + 1"
    by (rule csr_read [OF ok t1(2) regs(2), where m = m and csr = csrl])
  obtain t3 where t3: "process_instr m (enc_I csrh 0 2 hi2 0x73) t2 = Some (True, t3)" "wf_emu t3"
    "get_reg t3 (ucast hi2) = read_csr (ucast csrh) t2" "pc (cpu t3) = pc (cpu t2) + 4"
    "\<forall>r. r = hi2 \<or> get_reg t3 (ucast (r :: regno)) = get_reg t2 (ucast r)"
    "mcycle t3 = mcycle t2 + 1" "minstret t3 = minstret t2 + 1"
    by (rule csr_read [OF ok t2(2) regs(3), where m = m and csr = csrh])
  obtain t d where t: "process_instr m (encode (Branch BNE hi hi2 (- 6))) t3 = Some (True, t)" "wf_emu t"
    "\<forall>r. get_reg t (ucast (r :: regno)) = get_reg t3 (ucast r)"
    "pc (cpu t) = pc (cpu t3) + (if get_reg t3 (ucast hi) = get_reg t3 (ucast hi2) then 4 else 2 * scast (- 6 :: 12 word))"
    "1 \<le> d" "d \<le> 5" "mcycle t = mcycle t3 + of_nat d" "minstret t = minstret t3 + 1"
    by (rule bne_step [OF ok t3(2), where m = m and a = hi and b = hi2 and imm = "- 6"])
  have hi: "get_reg t3 (ucast hi) = read_csr (ucast csrh) s"
    using spec [OF t3(5), of hi] spec [OF t2(5), of hi] t1(3) regs by simp
  have target: "2 * scast (- 6 :: 12 word) = (- 12 :: 'x word)"
    by (simp only: scast_eq) simp
  have "unat (16 :: 'x word) = 16"
    by (rule xlen_cases [OF ok]) (simp_all only: unsigned_numeral, simp_all)
  then have four: "(16 :: 'x word) \<noteq> 0" by (metis unsigned_0 zero_neq_numeral)
  show thesis
  proof (rule that [of t t1 t2 t3 d])
    show "run_asm m (counter_asm csrh csrl hi lo hi2) s = Some t"
      using t1(1) t2(1) t3(1) t(1) by (simp add: counter_asm_def del: encode.simps)
    show "get_reg t (ucast lo) = read_csr (ucast csrl) t1" using spec [OF t(3), of lo] spec [OF t3(5), of lo] t2(3) regs by simp
    show "pc (cpu t) = pc (cpu s) \<longleftrightarrow> read_csr (ucast csrh) s \<noteq> (read_csr (ucast csrh) t2 :: 'x word)"
      unfolding t(4) hi t3(3) target using four by (simp add: t3(4) t2(4) t1(4))
  qed (use t1 t2 t3 t hi in simp_all)
qed


lemma halves: "push_bit 32 (ucast (ucast (drop_bit 32 w) :: u32)) OR ucast (ucast w :: u32) = w" for w :: u64
  by (rule bit_word_eqI) (auto simp: bit_simps)

lemma unat_high_half: "unat (ucast (drop_bit 32 w) :: u32) = unat w div 2 ^ 32" for w :: u64
proof -
  have "unat w div 2 ^ 32 < 2 ^ 32" using unat_less [of w] by (simp add: less_mult_imp_div_less)
  then show ?thesis by (simp only: unsigned_ucast_eq unat_drop_bit) (simp add: take_bit_nat_eq_self)
qed

lemma high_half_eq_iff:
  "(ucast (drop_bit 32 v) :: u32) = ucast (drop_bit 32 w) \<longleftrightarrow> unat v div 2 ^ 32 = unat w div 2 ^ 32" for v w :: u64
  by (metis unat_high_half unsigned_word_eqI)

lemma no_second_carry:
  fixes n k :: nat
  assumes "n div 2 ^ 32 \<noteq> (n + 2) div 2 ^ 32" "n + 3 < k" "k \<le> n + 8"
  shows "k div 2 ^ 32 = (k + 2) div 2 ^ 32"
proof -
  define q where "q = (n + 2) div 2 ^ 32"
  have "n div 2 ^ 32 < q"
    using assms(1) div_le_mono [of n "n + 2" "2 ^ 32"] by (simp add: q_def)
  then have "n < q * 2 ^ 32" by (simp add: div_less_iff_less_mult)
  moreover have "q * 2 ^ 32 \<le> n + 2" by (simp add: q_def)
  ultimately have "k div 2 ^ 32 = q" "(k + 2) div 2 ^ 32 = q"
    using assms(2,3) by (auto intro!: div_nat_eqI)
  then show ?thesis by simp
qed

text \<open>
  A 64-bit counter behind a pair of registers of RV32: the registers hold its halves, an
  instruction other than a branch counts one, a branch at most five.
\<close>

locale guest_counter =
  fixes cnt :: "32 emu \<Rightarrow> u64" and csrh csrl :: "12 word"
  assumes high: "read_csr (ucast csrh) s = ucast (drop_bit 32 (cnt s))"
    and low: "read_csr (ucast csrl) s = ucast (cnt s)"
    and count: "mcycle t = mcycle s + 1 \<Longrightarrow> minstret t = minstret s + 1 \<Longrightarrow> cnt t = cnt s + 1"
    and count_branch: "mcycle t = mcycle s + of_nat d \<Longrightarrow> minstret t = minstret s + 1 \<Longrightarrow> 1 \<le> d \<Longrightarrow> d \<le> 5 \<Longrightarrow>
      \<exists>e. 1 \<le> e \<and> e \<le> 5 \<and> cnt t = cnt s + of_nat e"
begin

lemma pass:
  assumes wf: "wf_emu s" and regs: "hi \<noteq> 0" "lo \<noteq> 0" "hi2 \<noteq> 0" "distinct [hi, lo, hi2]"
    and small: "unat (cnt s) + 8 < 2 ^ 64"
  obtains t where "run_asm m (counter_asm csrh csrl hi lo hi2) s = Some t" "wf_emu t"
    "unat (cnt s) + 3 < unat (cnt t)" "unat (cnt t) \<le> unat (cnt s) + 8"
    "get_reg t (ucast hi) = ucast (drop_bit 32 (cnt s))" "get_reg t (ucast lo) = ucast (cnt s + 1)"
    "pc (cpu t) = pc (cpu s) \<longleftrightarrow> unat (cnt s) div 2 ^ 32 \<noteq> (unat (cnt s) + 2) div 2 ^ 32"
proof -
  obtain t t1 t2 t3 :: "32 emu" and d :: nat where t: "run_asm m (counter_asm csrh csrl hi lo hi2) s = Some t" "wf_emu t"
    "get_reg t (ucast hi) = read_csr (ucast csrh) s" "get_reg t (ucast lo) = read_csr (ucast csrl) t1"
    "pc (cpu t) = pc (cpu s) \<longleftrightarrow> read_csr (ucast csrh) s \<noteq> read_csr (ucast csrh) t2"
    and c: "mcycle t1 = mcycle s + 1" "mcycle t2 = mcycle t1 + 1" "mcycle t3 = mcycle t2 + 1"
    "minstret t1 = minstret s + 1" "minstret t2 = minstret t1 + 1" "minstret t3 = minstret t2 + 1"
    "1 \<le> d" "d \<le> 5" "mcycle t = mcycle t3 + of_nat d" "minstret t = minstret t3 + 1"
    by (rule counter_pass [OF xlen_ok_simps(1) wf regs, where m = m and csrh = csrh and csrl = csrl])
  obtain e where e: "1 \<le> e" "e \<le> 5" "cnt t = cnt t3 + of_nat e"
    using count_branch [OF c(9,10,7,8)] by blast
  note cs = count [OF c(1,4)] count [OF c(2,5)] count [OF c(3,6)]
  have "cnt t2 = cnt s + of_nat 2" "cnt t = cnt s + of_nat (3 + e)"
    using cs e(3) by simp_all
  then have n: "unat (cnt t2) = unat (cnt s) + 2" "unat (cnt t) = unat (cnt s) + (3 + e)"
    using small e(2) unat_plus_of_nat [of "cnt s" 2] unat_plus_of_nat [of "cnt s" "3 + e"] by simp_all
  show thesis
    using that [OF t(1,2)] t(3-5) n e cs(1) by (simp add: high low high_half_eq_iff)
qed

lemma query:
  assumes wf: "wf_emu s" and regs: "hi \<noteq> 0" "lo \<noteq> 0" "hi2 \<noteq> 0" "distinct [hi, lo, hi2]"
    and small: "unat (cnt s) + 16 < 2 ^ 64"
  shows "\<exists>v t. query_counter m csrh csrl hi lo hi2 s = Some (v, t) \<and> wf_emu t \<and>
    unat (cnt s) < unat v \<and> unat v \<le> unat (cnt t) \<and> unat (cnt t) \<le> unat (cnt s) + 16"
proof -
  have last: "\<exists>v t. query_counter m csrh csrl hi lo hi2 s = Some (v, t) \<and> wf_emu t \<and>
    unat (cnt s) < unat v \<and> unat v \<le> unat (cnt t) \<and> unat (cnt t) \<le> unat (cnt s) + 8"
    if wf: "wf_emu s" and small: "unat (cnt s) + 8 < 2 ^ 64"
      and same: "unat (cnt s) div 2 ^ 32 = (unat (cnt s) + 2) div 2 ^ 32" for s
  proof -
    obtain t where t: "run_asm m (counter_asm csrh csrl hi lo hi2) s = Some t" "wf_emu t"
      "unat (cnt s) + 3 < unat (cnt t)" "unat (cnt t) \<le> unat (cnt s) + 8"
      "get_reg t (ucast hi) = ucast (drop_bit 32 (cnt s))" "get_reg t (ucast lo) = ucast (cnt s + 1)"
      "pc (cpu t) = pc (cpu s) \<longleftrightarrow> unat (cnt s) div 2 ^ 32 \<noteq> (unat (cnt s) + 2) div 2 ^ 32"
      by (rule pass [OF wf regs small])
    have next1: "unat (cnt s + 1) = unat (cnt s) + 1"
      using small unat_plus_of_nat [of "cnt s" 1] by simp
    have "unat (cnt s) div 2 ^ 32 = unat (cnt s + 1) div 2 ^ 32"
      using same div_le_mono [of "unat (cnt s)" "unat (cnt s) + 1" "2 ^ 32"]
        div_le_mono [of "unat (cnt s) + 1" "unat (cnt s) + 2" "2 ^ 32"] by (simp add: next1)
    then have "(ucast (drop_bit 32 (cnt s)) :: u32) = ucast (drop_bit 32 (cnt s + 1))"
      by (simp only: high_half_eq_iff)
    then have "push_bit 32 (ucast (ucast (get_reg t (ucast hi)) :: u32)) OR
        ucast (ucast (get_reg t (ucast lo)) :: u32) = cnt s + 1"
      using halves [of "cnt s + 1"] by (simp only: t(5,6) ucast_id)
    then have "query_counter m csrh csrl hi lo hi2 s = Some (cnt s + 1, t)"
      using t(1,7) same by (subst query_counter.simps) simp
    with t next1 show ?thesis by simp
  qed
  show ?thesis
  proof (cases "unat (cnt s) div 2 ^ 32 = (unat (cnt s) + 2) div 2 ^ 32")
    case True
    with last [OF wf] small show ?thesis by fastforce
  next
    case False
    have "unat (cnt s) + 8 < 2 ^ 64" using small by simp
    then obtain t where t: "run_asm m (counter_asm csrh csrl hi lo hi2) s = Some t" "wf_emu t"
      "unat (cnt s) + 3 < unat (cnt t)" "unat (cnt t) \<le> unat (cnt s) + 8"
      "get_reg t (ucast hi) = ucast (drop_bit 32 (cnt s))"
      "pc (cpu t) = pc (cpu s) \<longleftrightarrow> unat (cnt s) div 2 ^ 32 \<noteq> (unat (cnt s) + 2) div 2 ^ 32"
      by (rule pass [OF wf regs])
    have "query_counter m csrh csrl hi lo hi2 s = query_counter m csrh csrl hi lo hi2 t"
      using t(1,6) False by (subst query_counter.simps) simp
    moreover have "unat (cnt t) div 2 ^ 32 = (unat (cnt t) + 2) div 2 ^ 32"
      by (rule no_second_carry [OF False t(3,4)])
    ultimately show ?thesis using last [OF t(2)] t(3,4) small by fastforce
  qed
qed

end

interpretation cycle_counter: guest_counter mcycle "0xB80" "0xB00"
  by unfold_locales (auto simp: read_csr_def c_consts)

interpretation instret_counter: guest_counter minstret "0xB82" "0xB02"
  by unfold_locales (auto simp: read_csr_def c_consts intro: exI [of _ 1])


lemma query_rv64:
  fixes s :: "64 emu"
  assumes wf: "wf_emu s" and regs: "hi \<noteq> 0" "lo \<noteq> 0" "hi2 \<noteq> 0" "distinct [hi, lo, hi2]"
    and zero: "\<And>u :: 64 emu. read_csr (ucast csrh) u = 0"
  obtains t t1 :: "64 emu" where "mcycle t1 = mcycle s + 1" "minstret t1 = minstret s + 1"
    "query_counter m csrh csrl hi lo hi2 s = Some (ucast (ucast (read_csr (ucast csrl) t1) :: u32), t)"
proof -
  obtain t t1 t2 t3 :: "64 emu" and d :: nat where t: "run_asm m (counter_asm csrh csrl hi lo hi2) s = Some t" "wf_emu t"
    "get_reg t (ucast hi) = read_csr (ucast csrh) s" "get_reg t (ucast lo) = read_csr (ucast csrl) t1"
    "pc (cpu t) = pc (cpu s) \<longleftrightarrow> read_csr (ucast csrh) s \<noteq> (read_csr (ucast csrh) t2 :: u64)"
    and c: "mcycle t1 = mcycle s + 1" "mcycle t2 = mcycle t1 + 1" "mcycle t3 = mcycle t2 + 1"
    "minstret t1 = minstret s + 1" "minstret t2 = minstret t1 + 1" "minstret t3 = minstret t2 + 1"
    "1 \<le> d" "d \<le> 5" "mcycle t = mcycle t3 + of_nat d" "minstret t = minstret t3 + 1"
    by (rule counter_pass [OF xlen_ok_simps(2) wf regs, where m = m and csrh = csrh and csrl = csrl])
  show thesis
    by (rule that [OF c(1,4)]) (subst query_counter.simps, simp add: t(1,3,4,5) zero)
qed

section \<open>Properties\<close>

text \<open>C15. \<open>printf\<close> of a guest program on the emulator: executing \<open>putchar_\<close> for its characters
  makes the emulator print exactly the text of the format, and changes no memory.\<close>

theorem guest_printf_console:
  fixes s :: "'x::len emu"
  assumes ok: "xlen_ok TYPE('x)" and wf: "wf_emu s" and r: "r \<noteq> 0" "r \<noteq> 10" "r \<noteq> 11"
    and f: "format_text (printf_config (RV64 TYPE('x))) format args = Some xs" "length xs \<le> unat PRINTF_MAX_POSSIBLE_BUFFER_SIZE"
  shows "\<exists>t. guest_printf m r format args s = Some (of_nat (length xs), t) \<and> wf_emu t \<and>
    outputs (console t) = outputs (console s) @ map ucast xs \<and> mem_byte t = mem_byte s"
  using guest_puts_abs [OF ok r wf, of m xs] printf_text [OF f] by (auto simp: guest_printf_def)

theorem guest_printf_console_witness:
  "\<exists>t. guest_printf True 15 [0x68, 0x69, 0] [] (init_emu :: 32 emu) = Some (2, t) \<and>
    outputs (console t) = [0x68, 0x69]"
  using guest_printf_console [OF xlen_ok_simps(1) wf_init_emu, of 15 "[0x68, 0x69, 0]" "[]" "[0x68, 0x69]" True]
  by (fastforce simp: c_consts)

text \<open>C36. On RV32 the two counter functions return, after at most two passes of their loop, a value
  their counter had during the call, also when the low half overflows between the reads.\<close>

theorem performance_counters:
  assumes wf: "wf_emu s" and regs: "hi \<noteq> 0" "lo \<noteq> 0" "hi2 \<noteq> 0" "distinct [hi, lo, hi2]"
    and small: "unat (mcycle s) + 16 < 2 ^ 64" "unat (minstret s) + 16 < 2 ^ 64"
  shows "(\<exists>v t. query_performance_counter m hi lo hi2 (s :: 32 emu) = Some (v, t) \<and>
      unat (mcycle s) < unat v \<and> unat v \<le> unat (mcycle t) \<and> unat (mcycle t) \<le> unat (mcycle s) + 16) \<and>
    (\<exists>v t. query_instruction_counter m hi lo hi2 s = Some (v, t) \<and>
      unat (minstret s) < unat v \<and> unat v \<le> unat (minstret t) \<and> unat (minstret t) \<le> unat (minstret s) + 16)"
  using cycle_counter.query [OF wf regs small(1), of m] instret_counter.query [OF wf regs small(2), of m]
  by (auto simp: query_performance_counter_def query_instruction_counter_def)

theorem performance_counters_witness:
  "\<exists>v t. query_performance_counter True 5 6 7 (init_emu :: 32 emu) = Some (v, t) \<and> 4 < unat v"
  using performance_counters [OF wf_init_emu, of 5 6 7 True] by fastforce

text \<open>On RV64 the two counter functions return only the low 32 bits of their counter.\<close>

lemma counters_rv64:
  fixes s :: "64 emu"
  assumes wf: "wf_emu s" and regs: "hi \<noteq> 0" "lo \<noteq> 0" "hi2 \<noteq> 0" "distinct [hi, lo, hi2]"
  shows "(\<exists>t. query_performance_counter m hi lo hi2 s = Some ((mcycle s + 1) mod 2 ^ 32, t)) \<and>
    (\<exists>t. query_instruction_counter m hi lo hi2 s = Some ((minstret s + 1) mod 2 ^ 32, t))"
proof -
  have low: "ucast (ucast w :: u32) = w mod 2 ^ 32" for w :: u64
    by (simp add: word_unat_eq_iff unat_mod unsigned_ucast_eq take_bit_eq_mod)
  have "read_csr (ucast (0xB80 :: 12 word)) u = 0" "read_csr (ucast (0xB82 :: 12 word)) u = 0"
    "read_csr (ucast (0xB00 :: 12 word)) u = mcycle u" "read_csr (ucast (0xB02 :: 12 word)) u = minstret u"
    for u :: "64 emu" by (simp_all add: read_csr_def c_consts)
  note csr = this
  obtain t t1 :: "64 emu" where "mcycle t1 = mcycle s + 1"
    "query_counter m 0xB80 0xB00 hi lo hi2 s = Some (ucast (ucast (read_csr (ucast (0xB00 :: 12 word)) t1) :: u32), t)"
    by (rule query_rv64 [OF wf regs csr(1), of m "0xB00"])
  moreover obtain t' t1' :: "64 emu" where "minstret t1' = minstret s + 1"
    "query_counter m 0xB82 0xB02 hi lo hi2 s = Some (ucast (ucast (read_csr (ucast (0xB02 :: 12 word)) t1') :: u32), t')"
    by (rule query_rv64 [OF wf regs csr(2), of m "0xB02"])
  ultimately show ?thesis
    by (simp only: query_performance_counter_def query_instruction_counter_def csr low) simp
qed

lemma counters_rv64_example:
  "\<exists>t. query_performance_counter True 5 6 7 (init_emu\<lparr>mcycle := 2 ^ 32\<rparr> :: 64 emu) = Some (1, t)"
proof -
  have "wf_emu (init_emu\<lparr>mcycle := 2 ^ 32\<rparr> :: 64 emu)"
    using wf_init_emu by (simp add: wf_emu_def)
  from counters_rv64 [OF this, of 5 6 7 True] show ?thesis by simp
qed

end
