(* ===== verification/Guest_Multiplication.thy ===== *)
theory Guest_Multiplication
  imports Librv Guest_Prelude
begin

text \<open>
  The guest programs \<^verbatim>\<open>tests/multiplication/main.c\<close>, whose inline assembly is executed by
  the emulator and whose results are printed, and \<^verbatim>\<open>tests/host_freq/main.c\<close>.
\<close>

section \<open>The multiplication test\<close>

definition ABS :: "u32 \<Rightarrow> u32" where
  "ABS x = (if x <s 0 then - x else x)"

text \<open>
  One inline assembly statement: the compiler puts the operands, as 32-bit values sign-extended to
  the register width, into two registers and takes the result from a third one.  The registers
  are a parameter.
\<close>

definition asm_mop :: "regno \<times> regno \<times> regno \<Rightarrow> mop \<Rightarrow> u32 \<Rightarrow> u32 \<Rightarrow> 'x::len emu \<Rightarrow> (u32 \<times> 'x emu) option" where
  "asm_mop regs op a b s = (case regs of (rd, rs1, rs2) \<Rightarrow> do {
     s \<leftarrow> Some (set_reg (ucast rs1) (scast a) s);
     s \<leftarrow> Some (set_reg (ucast rs2) (scast b) s);
     s \<leftarrow> run_asm True [encode (Mop op rd rs1 rs2)] s;
     Some (ucast (get_reg s (ucast rd)), s) })"

text \<open>
  A test: the statement, the store of its result in \<open>mem[i]\<close>, and the output of \<open>mem[i]\<close>, given
  to \<open>printf\<close> \<open>n\<close> times.
\<close>

definition test_line ::
  "regno \<times> regno \<times> regno \<Rightarrow> target \<Rightarrow> mop \<Rightarrow> u32 \<Rightarrow> u32 \<Rightarrow> nat \<Rightarrow> string \<Rightarrow> nat \<Rightarrow>
    u32 list \<times> u8 list \<times> 'x::len emu \<Rightarrow> (u32 list \<times> u8 list \<times> 'x emu) option" where
  "test_line regs tg op a b i fmt n st = (case st of (mem, out, s) \<Rightarrow> do {
     (c, s) \<leftarrow> asm_mop regs op a b s;
     mem \<leftarrow> put_at mem i c;
     v \<leftarrow> get_at mem i;
     (ret, cs) \<leftarrow> printf tg (c_str (fmt @ [CHR 0x0A])) (replicate n (Arg_int v));
     Some (mem, out @ cs, s) })"

definition multiplication_main ::
  "regno \<times> regno \<times> regno \<Rightarrow> target \<Rightarrow> 'x::len emu \<Rightarrow> (nat \<times> u8 list \<times> 'x emu) option" where
  "multiplication_main regs tg s = do {
     st \<leftarrow> Some (replicate 14 0, [], s);
     let a = 5; let b = 13; let d = 20; let e = - 2;
     st \<leftarrow> test_line regs tg MUL a b 0 ''mem[0]  (5 * 13)         = %d'' 1 st;
     st \<leftarrow> test_line regs tg DIV (ABS a) (ABS b) 1 ''mem[1]  (|5| / |13|)     = %d'' 1 st;
     st \<leftarrow> test_line regs tg DIV d e 2 ''mem[2]  (20 / -2)        = %d'' 1 st;
     st \<leftarrow> test_line regs tg REM e d 3 ''mem[3]  (-2 %% 20)        = %d'' 1 st;
     st \<leftarrow> test_line regs tg REM (ABS a) (ABS b) 4 ''mem[4]  (|5| %% |13|)     = %d'' 1 st;
     let e = 0;
     st \<leftarrow> test_line regs tg DIV d e 5 ''mem[5]  (20 / 0)         = %d'' 1 st;
     st \<leftarrow> test_line regs tg DIV (ABS d) (ABS e) 6 ''mem[6]  (|20| / |0|)     = %d'' 1 st;
     st \<leftarrow> test_line regs tg REM d e 7 ''mem[7]  (20 %% 0)         = %d'' 1 st;
     st \<leftarrow> test_line regs tg REM (ABS d) (ABS e) 8 ''mem[8]  (|20| %% |0|)     = %d'' 1 st;
     let d = 0x80000000; let e = - 1;
     st \<leftarrow> test_line regs tg DIV d e 9 ''mem[9]  (INT_MIN / -1)   = %d (0x%X)'' 2 st;
     st \<leftarrow> test_line regs tg REM d e 10 ''mem[10] (INT_MIN %% -1)   = %d'' 1 st;
     let a = 500000; let b = 600000;
     st \<leftarrow> test_line regs tg MULH a b 11 ''mem[11] (MULH: a*b >> 32) = %d'' 1 st;
     let ua = 0xFFFFFFFF; let ub = 0xFFFFFFFF;
     st \<leftarrow> test_line regs tg MULHU ua ub 12 ''mem[12] (MULHU: ua*ub >>32)= %u (0x%X)'' 2 st;
     st \<leftarrow> test_line regs tg MULHSU a ub 13 ''mem[13] (MULHSU: a*ub >>32)= %d'' 1 st;
     (mem, out, s) \<leftarrow> Some st;
     Some (0, out, s) }"

section \<open>What it prints\<close>

definition asm_value :: "'x::len itself \<Rightarrow> mop \<Rightarrow> u32 \<Rightarrow> u32 \<Rightarrow> u32" where
  "asm_value _ op a b = ucast (word_of_int (mop_int op (scast a :: 'x word) (scast b)) :: 'x word)"

definition distinct_regs :: "regno \<times> regno \<times> regno \<Rightarrow> bool" where
  "distinct_regs regs \<longleftrightarrow> (case regs of (rd, rs1, rs2) \<Rightarrow> rd \<noteq> 0 \<and> rs1 \<noteq> 0 \<and> rs2 \<noteq> 0 \<and> rs1 \<noteq> rs2)"

lemma asm_mop_eq:
  fixes s :: "'x::len emu"
  assumes ok: "xlen_ok TYPE('x)" and wf: "wf_emu s" and r: "distinct_regs regs"
  obtains s' where "asm_mop regs op a b s = Some (asm_value TYPE('x) op a b, s')" "wf_emu s'"
    "outputs (console s') = outputs (console s)"
proof -
  obtain rd rs1 rs2 where regs: "regs = (rd, rs1, rs2)" "rd \<noteq> 0" "rs1 \<noteq> 0" "rs2 \<noteq> 0" "rs1 \<noteq> rs2"
    using r by (cases regs) (auto simp: distinct_regs_def)
  define t where "t = set_reg (ucast rs2) (scast b) (set_reg (ucast rs1) (scast a) s)"
  note s1 = abs_set_reg [OF wf regs(3), of "scast a"]
  note s2 = abs_set_reg [OF s1(2) regs(4), of "scast b"]
  have t: "wf_emu t" "isa_regs (abs_emu t) rs1 = scast a" "isa_regs (abs_emu t) rs2 = scast b"
    "isa_out (abs_emu t) = outputs (console s)"
    using s2 regs(5) by (simp_all add: t_def s1(1) abs_fields)
  define u where "u = isa_next (isa_put rd (mop_int op (scast a :: 'x word) (scast b)) (abs_emu t))"
  have v: "valid_insn TYPE('x) True (Mop op rd rs1 rs2)" by (simp add: valid_insn_def)
  obtain s' where s': "abs_emu s' = u" "wf_emu s'"
    "run_asm True [encode (Mop op rd rs1 rs2)] t = run_asm True [] s'"
    by (rule run_asm_insn [OF ok t(1) v, of u "[]"]) (simp_all add: t(2,3) u_def del: encode.simps)
  have "get_reg s' (ucast rd) = word_of_int (mop_int op (scast a :: 'x word) (scast b))"
    using regs(2) by (simp add: abs_get_reg s'(1) u_def isa_next_def isa_put_def)
  moreover have "outputs (console s') = outputs (console s)"
    using arg_cong [OF s'(1), of isa_out] t(4) by (simp add: abs_fields u_def isa_next_def isa_put_def)
  ultimately show thesis
    using s'(2,3) by (intro that [of s']) (simp_all add: asm_mop_def regs(1) asm_value_def t_def [symmetric]
      run_asm.simps(1) del: encode.simps run_asm.simps(2))
qed

lemma test_line_eq:
  fixes s :: "'x::len emu"
  assumes ok: "xlen_ok TYPE('x)" and r: "distinct_regs regs" and wf: "wf_emu s" and i: "i < length mem"
    and tx: "format_text tg (c_str (fmt @ [CHR 0x0A])) (replicate n (Arg_int (asm_value TYPE('x) op a b))) = Some xs"
      "length xs \<le> 100"
  obtains s' where "wf_emu s'"
    "test_line regs tg op a b i fmt n (mem, out, s) = Some (mem[i := asm_value TYPE('x) op a b], out @ xs, s')"
proof -
  obtain s' where s': "asm_mop regs op a b s = Some (asm_value TYPE('x) op a b, s')" "wf_emu s'"
    by (rule asm_mop_eq [OF ok wf r])
  have "length xs \<le> unat PRINTF_MAX_POSSIBLE_BUFFER_SIZE" using tx(2) by (simp add: c_consts)
  note p = printf_text [OF tx(1) this]
  show thesis
    by (rule that [OF s'(2)]) (use i in \<open>simp add: test_line_def s'(1) put_at_def get_at_def p\<close>)
qed

text \<open>The text of each test as a function of the result.\<close>

definition test_texts :: "(u32 \<Rightarrow> u8 list) list" where
  "test_texts =
    [(\<lambda>v. map of_char ''mem[0]  (5 * 13)         = '' @ int_text (sint v) @ [0x0A]),
     (\<lambda>v. map of_char ''mem[1]  (|5| / |13|)     = '' @ int_text (sint v) @ [0x0A]),
     (\<lambda>v. map of_char ''mem[2]  (20 / -2)        = '' @ int_text (sint v) @ [0x0A]),
     (\<lambda>v. map of_char ''mem[3]  (-2 % 20)        = '' @ int_text (sint v) @ [0x0A]),
     (\<lambda>v. map of_char ''mem[4]  (|5| % |13|)     = '' @ int_text (sint v) @ [0x0A]),
     (\<lambda>v. map of_char ''mem[5]  (20 / 0)         = '' @ int_text (sint v) @ [0x0A]),
     (\<lambda>v. map of_char ''mem[6]  (|20| / |0|)     = '' @ int_text (sint v) @ [0x0A]),
     (\<lambda>v. map of_char ''mem[7]  (20 % 0)         = '' @ int_text (sint v) @ [0x0A]),
     (\<lambda>v. map of_char ''mem[8]  (|20| % |0|)     = '' @ int_text (sint v) @ [0x0A]),
     (\<lambda>v. map of_char ''mem[9]  (INT_MIN / -1)   = '' @ int_text (sint v) @ map of_char '' (0x'' @ map (digit_ascii True) (radix_digits 16 (unat v)) @ map of_char '')'' @ [0x0A]),
     (\<lambda>v. map of_char ''mem[10] (INT_MIN % -1)   = '' @ int_text (sint v) @ [0x0A]),
     (\<lambda>v. map of_char ''mem[11] (MULH: a*b >> 32) = '' @ int_text (sint v) @ [0x0A]),
     (\<lambda>v. map of_char ''mem[12] (MULHU: ua*ub >>32)= '' @ int_text (uint v) @ map of_char '' (0x'' @ map (digit_ascii True) (radix_digits 16 (unat v)) @ map of_char '')'' @ [0x0A]),
     (\<lambda>v. map of_char ''mem[13] (MULHSU: a*ub >>32)= '' @ int_text (sint v) @ [0x0A])]"

lemma replicate_2: "replicate 2 x = [x, x]"
  by (simp add: numeral_2_eq_2)

lemma test_formats:
  "format_text tg (c_str (''mem[0]  (5 * 13)         = %d'' @ [CHR 0x0A])) (replicate 1 (Arg_int v)) = Some ((test_texts ! 0) v)"
  "format_text tg (c_str (''mem[1]  (|5| / |13|)     = %d'' @ [CHR 0x0A])) (replicate 1 (Arg_int v)) = Some ((test_texts ! 1) v)"
  "format_text tg (c_str (''mem[2]  (20 / -2)        = %d'' @ [CHR 0x0A])) (replicate 1 (Arg_int v)) = Some ((test_texts ! 2) v)"
  "format_text tg (c_str (''mem[3]  (-2 %% 20)        = %d'' @ [CHR 0x0A])) (replicate 1 (Arg_int v)) = Some ((test_texts ! 3) v)"
  "format_text tg (c_str (''mem[4]  (|5| %% |13|)     = %d'' @ [CHR 0x0A])) (replicate 1 (Arg_int v)) = Some ((test_texts ! 4) v)"
  "format_text tg (c_str (''mem[5]  (20 / 0)         = %d'' @ [CHR 0x0A])) (replicate 1 (Arg_int v)) = Some ((test_texts ! 5) v)"
  "format_text tg (c_str (''mem[6]  (|20| / |0|)     = %d'' @ [CHR 0x0A])) (replicate 1 (Arg_int v)) = Some ((test_texts ! 6) v)"
  "format_text tg (c_str (''mem[7]  (20 %% 0)         = %d'' @ [CHR 0x0A])) (replicate 1 (Arg_int v)) = Some ((test_texts ! 7) v)"
  "format_text tg (c_str (''mem[8]  (|20| %% |0|)     = %d'' @ [CHR 0x0A])) (replicate 1 (Arg_int v)) = Some ((test_texts ! 8) v)"
  "format_text tg (c_str (''mem[9]  (INT_MIN / -1)   = %d (0x%X)'' @ [CHR 0x0A])) (replicate 2 (Arg_int v)) = Some ((test_texts ! 9) v)"
  "format_text tg (c_str (''mem[10] (INT_MIN %% -1)   = %d'' @ [CHR 0x0A])) (replicate 1 (Arg_int v)) = Some ((test_texts ! 10) v)"
  "format_text tg (c_str (''mem[11] (MULH: a*b >> 32) = %d'' @ [CHR 0x0A])) (replicate 1 (Arg_int v)) = Some ((test_texts ! 11) v)"
  "format_text tg (c_str (''mem[12] (MULHU: ua*ub >>32)= %u (0x%X)'' @ [CHR 0x0A])) (replicate 2 (Arg_int v)) = Some ((test_texts ! 12) v)"
  "format_text tg (c_str (''mem[13] (MULHSU: a*ub >>32)= %d'' @ [CHR 0x0A])) (replicate 1 (Arg_int v)) = Some ((test_texts ! 13) v)"
  by (simp_all add: test_texts_def c_str_def spec_text_signed spec_text_unsigned spec_text_percent spec_text_hex_upper replicate_2)

lemma length_test_texts: "\<forall>f \<in> set test_texts. length (f v) \<le> 100"
  using length_int_text_32 [of v] length_int_text [of "uint v"] hex_digits(1) [of v] unat_less [of v]
  by (simp add: test_texts_def nat_less_iff)

lemma length_test_text: "k < 14 \<Longrightarrow> length ((test_texts ! k) v) \<le> 100"
proof -
  assume "k < 14"
  moreover have "length test_texts = 14" by (simp add: test_texts_def)
  ultimately show ?thesis using length_test_texts nth_mem [of k test_texts] by auto
qed

definition test_results :: "'x::len itself \<Rightarrow> u32 list" where
  "test_results x =
    [asm_value x MUL 5 13,
     asm_value x DIV (ABS 5) (ABS 13),
     asm_value x DIV 20 (- 2),
     asm_value x REM (- 2) 20,
     asm_value x REM (ABS 5) (ABS 13),
     asm_value x DIV 20 0,
     asm_value x DIV (ABS 20) (ABS 0),
     asm_value x REM 20 0,
     asm_value x REM (ABS 20) (ABS 0),
     asm_value x DIV 0x80000000 (- 1),
     asm_value x REM 0x80000000 (- 1),
     asm_value x MULH 500000 600000,
     asm_value x MULHU 0xFFFFFFFF 0xFFFFFFFF,
     asm_value x MULHSU 500000 0xFFFFFFFF]"

lemma test_line_bind:
  fixes s :: "'x::len emu"
  assumes "xlen_ok TYPE('x)" "distinct_regs regs" "wf_emu s" "i < length mem"
    and "format_text tg (c_str (fmt @ [CHR 0x0A])) (replicate n (Arg_int (asm_value TYPE('x) op a b))) = Some xs"
      "length xs \<le> 100"
    and "\<And>s'. wf_emu s' \<Longrightarrow> \<exists>u. wf_emu u \<and> k (mem[i := asm_value TYPE('x) op a b], out @ xs, s') = Some (0, res, u)"
  shows "\<exists>u. wf_emu u \<and> (test_line regs tg op a b i fmt n (mem, out, s) \<bind> k) = Some (0, res, u)"
proof -
  obtain s' where "wf_emu s'"
    "test_line regs tg op a b i fmt n (mem, out, s) = Some (mem[i := asm_value TYPE('x) op a b], out @ xs, s')"
    by (rule test_line_eq [OF assms(1-6)])
  with assms(7) show ?thesis by simp
qed

lemma upt_14: "[0..<14] = [0, 1, 2, 3, 4, 5, 6, 7, 8, 9, 10, 11, 12, 13]"
  by (simp add: upt_rec)

lemma multiplication_main_eq:
  fixes s :: "'x::len emu"
  assumes ok: "xlen_ok TYPE('x)" and r: "distinct_regs regs" and wf: "wf_emu s"
  shows "\<exists>u. wf_emu u \<and> multiplication_main regs tg s =
    Some (0, concat (map2 (\<lambda>f v. f v) test_texts (test_results TYPE('x))), u)"
proof -
  have res: "concat (map2 (\<lambda>f v. f v) test_texts (test_results TYPE('x))) =
      concat (map (\<lambda>k. (test_texts ! k) (test_results TYPE('x) ! k)) [0..<14])"
  proof -
    have "length test_texts = 14" "length (test_results TYPE('x)) = 14"
      by (simp_all add: test_texts_def test_results_def)
    then have "map2 (\<lambda>f v. f v) test_texts (test_results TYPE('x)) =
        map (\<lambda>k. (test_texts ! k) (test_results TYPE('x) ! k)) [0..<14]"
      by (intro nth_equalityI) simp_all
    then show ?thesis by (rule arg_cong)
  qed
  note step = test_line_bind [OF ok r]
  show ?thesis
    using wf unfolding res multiplication_main_def Let_def bind.bind_lunit
    apply -
    apply (rule step, assumption, simp, rule test_formats, rule length_test_text, simp)+
    by (simp add: upt_14 test_results_def)
qed

lemma ucast_minus_1: "(ucast (- 1 :: u64) :: u32) = - 1"
  by (rule bit_word_eqI) (simp add: bit_simps)

lemma test_results:
  "test_results TYPE(32) = [65, 0, - 10, - 2, 5, - 1, - 1, 20, 20, 0x80000000, 0, 69, 0xFFFFFFFE, 499999]"
  "test_results TYPE(64) = [65, 0, - 10, - 2, 5, - 1, - 1, 20, 20, 0x80000000, 0, 0, 0xFFFFFFFE, 499999]"
  by (simp_all add: test_results_def asm_value_def ABS_def word_sless_alt smod_int_range
      signed_modulo_int_def unsigned_minus_1_eq_mask mask_eq_exp_minus_1 ucast_minus_1)

definition multiplication_lines :: "string \<Rightarrow> string list" where
  "multiplication_lines mulh =
    [''mem[0]  (5 * 13)         = 65'',
     ''mem[1]  (|5| / |13|)     = 0'',
     ''mem[2]  (20 / -2)        = -10'',
     ''mem[3]  (-2 % 20)        = -2'',
     ''mem[4]  (|5| % |13|)     = 5'',
     ''mem[5]  (20 / 0)         = -1'',
     ''mem[6]  (|20| / |0|)     = -1'',
     ''mem[7]  (20 % 0)         = 20'',
     ''mem[8]  (|20| % |0|)     = 20'',
     ''mem[9]  (INT_MIN / -1)   = -2147483648 (0x80000000)'',
     ''mem[10] (INT_MIN % -1)   = 0'',
     ''mem[11] (MULH: a*b >> 32) = '' @ mulh,
     ''mem[12] (MULHU: ua*ub >>32)= 4294967294 (0xFFFFFFFE)'',
     ''mem[13] (MULHSU: a*ub >>32)= 499999'']"

lemma test_texts_results:
  "concat (map2 (\<lambda>f v. f v) test_texts (test_results TYPE(32))) =
    concat (map (\<lambda>l. map of_char l @ [0x0A]) (multiplication_lines ''69''))"
  "concat (map2 (\<lambda>f v. f v) test_texts (test_results TYPE(64))) =
    concat (map (\<lambda>l. map of_char l @ [0x0A]) (multiplication_lines ''0''))"
  by (simp_all add: test_results test_texts_def multiplication_lines_def int_text_def radix_digits.simps digit_ascii_def)

section \<open>The frequency test\<close>

text \<open>The loop of \<^verbatim>\<open>tests/host_freq/main.c\<close>, a linear congruential generator.\<close>

function lcg_loop :: "u32 \<Rightarrow> u32 \<Rightarrow> u32 \<Rightarrow> u32" where
  "lcg_loop iterations i state =
     (if i < iterations then lcg_loop iterations (i + 1) (state * 1103515245 + 12345) else state)"
  by pat_completeness auto
termination
  by (relation "measure (\<lambda>(n, i, _). unat n - unat i)") (simp_all add: distance_decreases)

declare lcg_loop.simps [simp del]

definition host_freq_main :: u32 where
  "host_freq_main = lcg_loop 10000000 0 12345"

lemma lcg_loop_eq:
  "i \<le> n \<Longrightarrow> lcg_loop n i state = ((\<lambda>x. x * 1103515245 + 12345) ^^ (unat n - unat i)) state"
proof (induction n i state rule: lcg_loop.induct)
  case (1 n i state)
  show ?case
  proof (cases "i < n")
    case True
    note step = unat_less_step [OF True]
    then have "i + 1 \<le> n" "unat n - unat i = Suc (unat n - unat (i + 1))"
      using True by (simp_all add: word_le_nat_alt)
    then show ?thesis
      by (subst lcg_loop.simps) (simp only: True if_True 1(1) funpow_Suc_right o_apply)
  next
    case False
    with 1(2) show ?thesis by (subst lcg_loop.simps) simp
  qed
qed

lemma host_freq_main_eq: "host_freq_main = ((\<lambda>x. x * 1103515245 + 12345) ^^ 10000000) 12345"
  using lcg_loop_eq [of 0 10000000 12345] by (simp add: host_freq_main_def)

section \<open>Properties\<close>

text \<open>C40. The multiplication test, its inline assembly executed by the emulator, prints the results of the
  RISC-V manual on both register widths, division by zero and overflow included; only the high half of
  the product depends on the width.\<close>

theorem multiplication_output:
  assumes "distinct_regs regs" and "wf_emu (s :: 32 emu)" and "wf_emu (t :: 64 emu)"
  shows "\<exists>u v. multiplication_main regs tg s =
      Some (0, concat (map (\<lambda>l. map of_char l @ [0x0A]) (multiplication_lines ''69'')), u) \<and>
    multiplication_main regs tg t =
      Some (0, concat (map (\<lambda>l. map of_char l @ [0x0A]) (multiplication_lines ''0'')), v)"
  using multiplication_main_eq [OF xlen_ok_simps(1) assms(1,2), of tg]
    multiplication_main_eq [OF xlen_ok_simps(2) assms(1,3), of tg]
  by (auto simp only: test_texts_results)

theorem multiplication_output_witness:
  "\<exists>u. multiplication_main (15, 14, 15) (printf_config True) (init_emu :: 64 emu) =
    Some (0, concat (map (\<lambda>l. map of_char l @ [0x0A]) (multiplication_lines ''0'')), u)"
  using multiplication_output [of "(15, 14, 15)" init_emu init_emu "printf_config True"]
  by (simp add: distinct_regs_def wf_init_emu)

end
