(* ===== verification/Spec2Isabelle.thy ===== *)
theory Spec2Isabelle
  imports Cycles Guest_Fibonacci Guest_Stress Guest_Multiplication
begin

text \<open>
  A verification library for \<^verbatim>\<open>rvem\<close>, a RISC-V emulator in C with a small library for the
  programs that run on it.  File names are relative to the repository.

  \<^bold>\<open>The program.\<close>  \<^verbatim>\<open>src/main.c\<close> loads an image into the ROM and calls
  \<^verbatim>\<open>process_instr\<close> of \<^verbatim>\<open>src/cpu/core.c\<close> on every word fetched over the bus
  until an instruction stops the loop, a zero word is fetched or \<open>MAX_CYCLES\<close> is reached.
  \<^verbatim>\<open>process_instr\<close> takes the word apart with the macros of \<^verbatim>\<open>inc/riscv.h\<close>,
  computes with \<^verbatim>\<open>inc/common.h\<close> and \<^verbatim>\<open>inc/mul.h\<close>, reaches memory through
  \<^verbatim>\<open>inc/bus.h\<close> and \<^verbatim>\<open>inc/cpu.h\<close>, counts with \<^verbatim>\<open>inc/perf.h\<close> and reads
  the counters through \<^verbatim>\<open>inc/csr.h\<close>.  Guest programs (\<^verbatim>\<open>tests/\<close>) are linked
  with \<^verbatim>\<open>sdk/librv\<close>: \<^verbatim>\<open>printf.c\<close> formats, \<^verbatim>\<open>printf_librv.c\<close> outputs one
  character by an environment call, \<^verbatim>\<open>librv.h\<close> reads the counters.

  \<^bold>\<open>State.\<close>  The global variables of the emulator are the fields of the record \<open>'x emu\<close>
  (theory \<open>Machine\<close>): \<open>rom\<close>, \<open>ram\<close>, \<open>cpu\<close> (register file and \<open>pc\<close>),
  \<open>perf_model\<close>, \<open>mcycle\<close>, \<open>minstret\<close>, and the console as a list of events.  The type
  parameter \<open>'x\<close> is the register width: 32 for the default build, 64 for \<^verbatim>\<open>-DRV64\<close>;
  a \<open>bool\<close> argument says whether the M extension is compiled in.  An operation returns
  \<open>None\<close> when the C program would index an array out of bounds, shift too far or divide by zero.

  \<^bold>\<open>Theories.\<close>
  \<^item> \<open>C_Prelude\<close>: C types, fact collections (\<open>c_consts\<close> and others), lemmas on words.
  \<^item> \<open>Arch\<close>, \<open>Riscv\<close>, \<open>Mul\<close>: \<^verbatim>\<open>inc/arch.h\<close>, \<^verbatim>\<open>inc/common.h\<close>,
    \<^verbatim>\<open>inc/riscv.h\<close>, \<^verbatim>\<open>inc/mul.h\<close>.  The field and immediate macros recover the
    layout of the manual; shifts, high products, quotients and remainders are related to exact integers.
  \<^item> \<open>Machine\<close>, \<open>Bus\<close>: the state, \<^verbatim>\<open>inc/perf.h\<close>, \<^verbatim>\<open>inc/csr.h\<close>,
    \<^verbatim>\<open>src/cpu/csr.c\<close>; \<^verbatim>\<open>inc/cpu.h\<close>, \<^verbatim>\<open>inc/bus.h\<close>.  The bus is a flat
    little-endian byte memory (\<open>mem_byte\<close>) with two mapped ranges.
  \<^item> \<open>Core\<close>: \<open>process_instr\<close>, one definition per case of its switch; memory safety, the
    register file invariant and the frame of an instruction.
  \<^item> \<open>Isa\<close>, \<open>Isa_Refine\<close>, \<open>Csr_Refine\<close>: the abstract processor as a datatype of
    instructions with their encoding and their effect on exact integers, and the proof that
    \<open>process_instr\<close> implements it, CSR instructions included.
  \<^item> \<open>Emulator\<close>, \<open>Emulator_Runs\<close>: \<^verbatim>\<open>src/main.c\<close>; termination, exit codes,
    reachable states, and whole runs in step with the abstract processor.
  \<^item> \<open>Cycles\<close>: the performance model as a pipeline that looks two instructions back; the
    exact cycles of an instruction and of a whole program.
  \<^item> \<open>Ieee\<close>: binary floating-point numbers of C, \<open>float\<close> and \<open>double\<close>, with their bit
    patterns, as exact numbers rounded to nearest even; error bounds and exact cases.
  \<^item> \<open>Printf_Float\<close>, \<open>Printf_Decimal\<close>, \<open>Printf_Exponential\<close>, \<open>Printf_Scaling\<close>: the conversions
    \<open>%f\<close>, \<open>%e\<close> and \<open>%g\<close> of \<^verbatim>\<open>sdk/librv/printf.c\<close> for both internal types; the text of
    \<open>%f\<close> as the nearest decimal, what \<open>%e\<close> prints for numbers from 1 to 10 and, scaled by a power from
    the table, for the others it covers, with the error of every operation bounded; the type of the
    scaling factor, the buffer bound, and the inputs on which the code leaves its tables.
  \<^item> \<open>Printf_Gadget\<close>, \<open>Printf_Integer\<close>, \<open>Printf_Format\<close>, \<open>Printf\<close>,
    \<open>Printf_Formats\<close>: \<^verbatim>\<open>sdk/librv/printf.c\<close>, from the output gadget to the entry
    points, for a \<open>target\<close> that gives the data model and the options of the build that select
    conversions: floating point, \<^verbatim>\<open>%n\<close>, the size prefixes of Microsoft
    (\<open>printf_config\<close> is the one of \<^verbatim>\<open>printf_config.h\<close>).  \<open>format_text\<close> is the text of a format and its arguments independently of the
    destination; the entry points deliver it, and the last theory says what it is for
    the usual conversions.
  \<^item> \<open>Librv\<close>: the inline assembly of \<^verbatim>\<open>librv.h\<close> and \<^verbatim>\<open>printf_librv.c\<close> run by
    \<open>process_instr\<close>, so that a guest's \<open>printf\<close> is followed down to the console.
  \<^item> \<open>Guest_Prelude\<close>, \<open>Guest_Fibonacci\<close>, \<open>Guest_Stress\<close>, \<open>Guest_Multiplication\<close>: the
    programs of \<^verbatim>\<open>tests/\<close> and their complete output.
  \<^item> This theory: a concrete program, and the refinement of the whole.

  \<^bold>\<open>Interfaces.\<close>  A locale states what one part relies on in another: an array of bytes,
  a clocked loop, a character sink, a counter of the guest.  Each is interpreted on the
  model's own definitions, in the theory that provides them.

  \<^bold>\<open>Bounds.\<close>  The loop of \<open>main\<close> ends because every instruction takes a cycle and
  \<open>MAX_CYCLES\<close> is finite.  \<open>format_string_loop\<close> ends because the format gets shorter.
  The retry loop of the counter functions has no bound in the code and is a partial function;
  two passes are shown to be enough.  Texts must be shorter than \<open>char_limit\<close>, the
  largest position the gadget counts.  \<open>print_integer\<close> works in 32 bytes, which is enough
  for every value in octal, decimal and hexadecimal and not for binary.  The floating-point
  conversions have 32 bytes too and stop writing at its end; \<open>%f\<close> goes over to the
  exponential notation beyond \<open>10\<close> to the ninth, and the table of powers of ten ends at 17 for \<open>double\<close>
  and at 10 for \<open>float\<close>.

  \<^bold>\<open>Conventions.\<close>  Signed overflow, undefined in C, wraps around as it does in the
  compiled program.  The immediates of a decoded instruction, uninitialised in C, start as
  0; no case reads one it has not set.  Casts to narrower signed types keep the low bits.
  The file to load, the elapsed clock ticks, the registers an inline assembly is given and the
  MSVC intrinsics are parameters.  In \<open>fib_mem\<close> the first recursive call is made first.
  Every floating-point operation of the source is rounded to the type of its operands, without
  excess precision or fused operations; a conversion to an integer type that cannot hold
  the number is \<open>None\<close>.  What \<^verbatim>\<open>%n\<close> stores through its argument is a list of locations and
  bytes, \<open>g_stores\<close>, which \<open>vsnprintf_impl\<close> returns with the gadget; the objects are apart from the
  format, the strings and the buffer.

  \<^bold>\<open>Not modelled.\<close>  \<open>long double\<close> beyond the conversion of an argument to the
  internal type; options of \<^verbatim>\<open>printf.c\<close> that \<^verbatim>\<open>printf_config.h\<close> leaves at their defaults
  (\<open>long long\<close> support, the test for the end of the format, buffer sizes, four Taylor terms); the start-up code \<^verbatim>\<open>crt0.S\<close>, the linker script, the cell of \<^verbatim>\<open>errno\<close>; the template
  \<^verbatim>\<open>stdint.h.in\<close>; the build files.
  The compiler of the guest programs is not verified: their C code is modelled, and the
  inline assembly is.  Fixed properties of the host (its clock, its \<open>printf\<close>) are outside.
\<close>

section \<open>A program for the emulated machine\<close>

text \<open>The image of a program that prints the letter H and exits.\<close>

definition hello_rom :: "u8 list" where
  "hello_rom = [0x13, 0x05, 0xB0, 0x00,  0x93, 0x05, 0x80, 0x04,  0x73, 0, 0, 0,
     0x13, 0x05, 0xA0, 0x00,  0x73, 0, 0, 0]"

text \<open>The states of the abstract processor that runs it.\<close>

definition hello_0 :: "32 isa" where "hello_0 = isa_init hello_rom"
definition hello_1 :: "32 isa" where "hello_1 = snd (isa_exec (Iop ADD 10 0 11) hello_0)"
definition hello_2 :: "32 isa" where "hello_2 = snd (isa_exec (Iop ADD 11 0 72) hello_1)"
definition hello_3 :: "32 isa" where "hello_3 = snd (isa_exec Ecall hello_2)"
definition hello_4 :: "32 isa" where "hello_4 = snd (isa_exec (Iop ADD 10 0 10) hello_3)"
definition hello_5 :: "32 isa" where "hello_5 = snd (isa_exec Ecall hello_4)"

lemma hello_states [simp]:
  "isa_regs hello_0 r = 0" "isa_pc hello_0 = 0" "isa_out hello_0 = []" "isa_mem hello_0 = isa_mem (isa_init hello_rom :: 32 isa)"
  "isa_regs hello_1 10 = 11" "isa_regs hello_1 0 = 0" "isa_pc hello_1 = 4" "isa_out hello_1 = []" "isa_mem hello_1 = isa_mem hello_0"
  "isa_regs hello_2 10 = 11" "isa_regs hello_2 11 = 72" "isa_regs hello_2 0 = 0" "isa_pc hello_2 = 8" "isa_out hello_2 = []"
    "isa_mem hello_2 = isa_mem hello_0"
  "isa_regs hello_3 0 = 0" "isa_pc hello_3 = 12" "isa_out hello_3 = [72]" "isa_mem hello_3 = isa_mem hello_0"
  "isa_regs hello_4 10 = 10" "isa_pc hello_4 = 16" "isa_out hello_4 = [72]" "isa_mem hello_4 = isa_mem hello_0"
  "isa_out hello_5 = [72]"
  by (simp_all add: hello_0_def hello_1_def hello_2_def hello_3_def hello_4_def hello_5_def
      isa_init_def isa_next_def isa_put_def)

lemma encode_hello:
  "encode (Iop ADD 10 0 11) = 0x00B00513" "encode (Iop ADD 11 0 72) = 0x04800593"
  "encode (Iop ADD 10 0 10) = 0x00A00513" "encode Ecall = 0x73"
  by (simp_all add: enc_I_def enc_R_def)

lemma length_hello_rom: "length hello_rom = 20"
  by (simp add: hello_rom_def)

lemma hello_fetch:
  fixes s :: "32 isa"
  assumes "isa_mem s = isa_mem hello_0" and "unat (isa_pc s) = a" "a + 4 \<le> 20"
    and "le_int [hello_rom ! a, hello_rom ! (a + 1), hello_rom ! (a + 2), hello_rom ! (a + 3)] = uint (encode i)"
    and "valid_insn TYPE(32) True i"
  shows "fetched True s i"
proof -
  have "isa_bytes s (unat (isa_pc s)) 4 =
      Some [hello_rom ! a, hello_rom ! (a + 1), hello_rom ! (a + 2), hello_rom ! (a + 3)]"
    using isa_bytes_init [OF assms(1) [unfolded hello_states(4)], of a] assms(2,3) by (simp add: length_hello_rom)
  with assms(4,5) show ?thesis by (simp only: fetched_def option.map simp_thms)
qed

lemma hello_fetched:
  "fetched True hello_0 (Iop ADD 10 0 11)" "fetched True hello_1 (Iop ADD 11 0 72)" "fetched True hello_2 Ecall"
  "fetched True hello_3 (Iop ADD 10 0 10)" "fetched True hello_4 Ecall"
  by (rule hello_fetch [where a = 0] hello_fetch [where a = 4] hello_fetch [where a = 8]
      hello_fetch [where a = 12] hello_fetch [where a = 16];
      simp add: hello_rom_def encode_hello valid_insn_def del: encode.simps)+

lemma hello_exec:
  "isa_exec (Iop ADD 10 0 11) hello_0 = (True, hello_1)" "isa_exec (Iop ADD 11 0 72) hello_1 = (True, hello_2)"
  "isa_exec Ecall hello_2 = (True, hello_3)" "isa_exec (Iop ADD 10 0 10) hello_3 = (True, hello_4)"
  "isa_exec Ecall hello_4 = (False, hello_5)"
  by (rule prod_eqI, simp, simp only: hello_1_def hello_2_def hello_3_def hello_4_def hello_5_def snd_conv)+

section \<open>Properties\<close>



text \<open>C5. When the abstract processor, started on an image, runs a list of instructions that take \<open>n\<close>
  cycles in the pipeline and then stops with an instruction that takes \<open>k\<close>, and the cycle limit is not
  reached, \<open>main\<close> returns 0 and reports exactly \<open>4 + n + k\<close> cycles; the instruction
  counter is the number of the instructions.\<close>

theorem main_reports_cycles:
  assumes "xlen_ok TYPE('x::len)"
    and "timed_run m is n (isa_init img :: 'x isa) t" and "fetched m t i" and "isa_exec i t = (False, u)"
    and "4 + n + step_cost is i t < unat MAX_CYCLES"
  shows "\<exists>s' e cs. main m 2 (Some img) elapsed (init_emu :: 'x emu) = Some (0, s') \<and>
    console s' = e # Info_cycles (of_nat (4 + n + step_cost is i t)) # cs \<and>
    minstret s' = of_nat (length is + 1) \<and> outputs (console s') = isa_out u"
  by (rule main_cycle_report [OF assms])

theorem main_reports_cycles_witness:
  "\<exists>s' e cs. main True 2 (Some hello_rom) 1 (init_emu :: 32 emu) = Some (0, s') \<and>
    console s' = e # Info_cycles 9 # cs \<and> minstret s' = 5"
proof -
  note costs = step_cost_def insn_cost_def needs_def is_load_def early_def bubble_def
  have "timed_run True [Iop ADD 10 0 10, Ecall, Iop ADD 11 0 72, Iop ADD 10 0 11]
      (0 + step_cost [] (Iop ADD 10 0 11) hello_0 + step_cost [Iop ADD 10 0 11] (Iop ADD 11 0 72) hello_1 +
       step_cost [Iop ADD 11 0 72, Iop ADD 10 0 11] Ecall hello_2 +
       step_cost [Ecall, Iop ADD 11 0 72, Iop ADD 10 0 11] (Iop ADD 10 0 10) hello_3) hello_0 hello_4"
    by (intro timed_step [OF _ hello_fetched(4) hello_exec(4)] timed_step [OF _ hello_fetched(3) hello_exec(3)]
        timed_step [OF _ hello_fetched(2) hello_exec(2)] timed_step [OF _ hello_fetched(1) hello_exec(1)] timed_start)
  from main_reports_cycles [OF xlen_ok_simps(1) this [unfolded hello_0_def] hello_fetched(5) hello_exec(5), of 1]
  show ?thesis by (simp add: costs c_consts hello_0_def [symmetric]) metis
qed

end
